(* ===== verification/Mux_Prelude.thy ===== *)
theory Mux_Prelude
  imports Main "HOL-Library.Word" "HOL-Library.Code_Target_Nat"
begin

text \<open>
  Shared ground of the development: the widths of the C++ integer types, the ways a call of the
  library can end abnormally, byte memory with \<open>malloc\<close> and \<open>memcpy\<close>, and the lemmas on
  words and lists that several components use.

  A byte of memory is a \<open>cell\<close>: \<open>Some b\<close> once written, \<open>None\<close> while it holds the
  indeterminate value that \<open>malloc\<close> leaves. A call that aborts (a failed \<open>assert\<close>), throws,
  dereferences a null pointer, touches memory outside a block or uses a destroyed object is a
  \<open>fault\<close>.
\<close>

unbundle bit_operations_syntax

section \<open>Types\<close>

type_synonym u8 = "8 word"
type_synonym u16 = "16 word"
type_synonym u32 = "32 word"
type_synonym u64 = "64 word"

type_synonym cell = "u8 option"

datatype fault =
    AssertFailed
  | Thrown string
  | NullDeref
  | OutOfBounds
  | UseAfterFree
  | Undefined string

type_synonym 'a res = "fault + 'a"

named_theorems mux_defs "definitions that the component proofs unfold together"
named_theorems mux_bounds "bounds on unsigned values"

section \<open>Sequencing fallible calls\<close>

definition bindr :: "'a res \<Rightarrow> ('a \<Rightarrow> 'b res) \<Rightarrow> 'b res" where
  "bindr m f = (case m of Inl e \<Rightarrow> Inl e | Inr x \<Rightarrow> f x)"

lemma bindr_simps [simp]:
  "bindr (Inl e) f = Inl e"
  "bindr (Inr x) f = f x"
  by (simp_all add: bindr_def)

lemma bindr_eq_Inr_iff: "bindr m f = Inr y \<longleftrightarrow> (\<exists>x. m = Inr x \<and> f x = Inr y)"
  by (cases m) simp_all

lemma bindr_eq_Inl_iff: "bindr m f = Inl e \<longleftrightarrow> m = Inl e \<or> (\<exists>x. m = Inr x \<and> f x = Inl e)"
  by (cases m) auto

lemma bindr_assoc: "bindr (bindr m f) g = bindr m (\<lambda>x. bindr (f x) g)"
  by (cases m) simp_all

definition assertr :: "bool \<Rightarrow> unit res" where
  "assertr b = (if b then Inr () else Inl AssertFailed)"

lemma assertr_simps [simp]:
  "assertr True = Inr ()"
  "assertr False = Inl AssertFailed"
  by (simp_all add: assertr_def)

lemma assertr_eq_Inr [simp]: "assertr b = Inr u \<longleftrightarrow> b"
  by (simp add: assertr_def)

section \<open>Memory blocks\<close>

definition malloc :: "nat \<Rightarrow> cell list" where
  "malloc n = replicate n None"

definition memcpy :: "cell list \<Rightarrow> nat \<Rightarrow> cell list \<Rightarrow> nat \<Rightarrow> nat \<Rightarrow> cell list res" where
  "memcpy dst d src s n =
     (if s + n \<le> length src \<and> d + n \<le> length dst
      then Inr (take d dst @ take n (drop s src) @ drop (d + n) dst)
      else Inl OutOfBounds)"

lemma length_malloc [simp]: "length (malloc n) = n"
  by (simp add: malloc_def)

lemma memcpy_Inr_iff:
  "memcpy dst d src s n = Inr m \<longleftrightarrow>
     s + n \<le> length src \<and> d + n \<le> length dst \<and>
     m = take d dst @ take n (drop s src) @ drop (d + n) dst"
  by (auto simp: memcpy_def)

lemma memcpy_length: "memcpy dst d src s n = Inr m \<Longrightarrow> length m = length dst"
  by (auto simp: memcpy_Inr_iff)

lemma memcpy_nth:
  assumes "memcpy dst d src s n = Inr m" and "i < length dst"
  shows "m ! i = (if d \<le> i \<and> i < d + n then src ! (s + (i - d)) else dst ! i)"
proof -
  from assms have m: "m = take d dst @ take n (drop s src) @ drop (d + n) dst"
    and b: "s + n \<le> length src" "d + n \<le> length dst"
    by (simp_all add: memcpy_Inr_iff)
  from b have "length (take d dst) = d" "length (take n (drop s src)) = n" by simp_all
  with m b assms(2) show ?thesis by (auto simp: nth_append)
qed

lemma memcpy_zero [simp]:
  "s \<le> length src \<Longrightarrow> d \<le> length dst \<Longrightarrow> memcpy dst d src s 0 = Inr dst"
  by (simp add: memcpy_def)

section \<open>Lists\<close>

lemma take_map_nth_upt: "n \<le> m \<Longrightarrow> take n (map f [0..<m]) = map f [0..<n]"
  by (simp add: take_map)

lemma drop_map_nth_upt: "drop n (map f [0..<m]) = map (\<lambda>i. f (i + n)) [0..<m - n]"
  by (rule nth_equalityI) (auto simp: add.commute)

section \<open>Words\<close>

lemma unat_le_max32 [mux_bounds]: "unat (w :: u32) < 2 ^ 32"
  using unsigned_less [of w] by simp

lemma unat_eq_exp_iff:
  fixes c :: "'a::len word"
  assumes "unat c = 2 ^ k"
  shows "c = 2 ^ k" and "k < LENGTH('a)"
proof -
  have "c = of_nat (unat c)" by simp
  then show "c = 2 ^ k" by (simp add: assms)
  have "unat c < 2 ^ LENGTH('a)"
    by (rule unsigned_less)
  then show "k < LENGTH('a)"
    by (simp add: assms)
qed

lemma unat_exp: "k < LENGTH('a) \<Longrightarrow> unat (2 ^ k :: 'a::len word) = 2 ^ k"
  by transfer (simp add: take_bit_eq_mod nat_power_eq)

lemma unat_and_exp_mask:
  fixes w c :: "'a::len word"
  assumes "unat c = 2 ^ k"
  shows "unat (w AND (c - 1)) = unat w mod 2 ^ k"
proof -
  from assms have "c = 2 ^ k" by (rule unat_eq_exp_iff)
  then have "w AND (c - 1) = take_bit k w"
    by (simp add: take_bit_eq_mask mask_eq_exp_minus_1)
  then show ?thesis
    by (simp only: unsigned_take_bit_eq) (simp add: take_bit_eq_mod)
qed

lemma unat_add_mod_exp:
  fixes a b :: "'a::len word"
  assumes "k \<le> LENGTH('a)"
  shows "unat (a + b) mod 2 ^ k = (unat a + unat b) mod 2 ^ k"
proof -
  have "(2 :: nat) ^ k dvd 2 ^ LENGTH('a)"
    using assms by (rule le_imp_power_dvd)
  then show ?thesis
    by (simp add: unat_word_ariths mod_mod_cancel)
qed

section \<open>Byte order\<close>

text \<open>
  The host is little-endian: an integer in memory starts with its low byte, and \<open>htonl\<close>, \<open>ntohl\<close>,
  \<open>htons\<close> and \<open>ntohs\<close> reverse the bytes.
\<close>

definition le_bytes :: "u32 \<Rightarrow> u8 list" where
  "le_bytes w = map (\<lambda>i. ucast (drop_bit (8 * i) w)) [0, 1, 2, 3]"

fun of_le_bytes :: "u8 list \<Rightarrow> u32" where
  "of_le_bytes [] = 0"
| "of_le_bytes (b # bs) = ucast b OR push_bit 8 (of_le_bytes bs)"

definition bswap32 :: "u32 \<Rightarrow> u32" where
  "bswap32 w = of_le_bytes (rev (le_bytes w))"

definition bswap16 :: "u16 \<Rightarrow> u16" where
  "bswap16 w = push_bit 8 w OR drop_bit 8 w"

abbreviation htonl :: "u32 \<Rightarrow> u32" where "htonl \<equiv> bswap32"
abbreviation ntohl :: "u32 \<Rightarrow> u32" where "ntohl \<equiv> bswap32"
abbreviation htons :: "u16 \<Rightarrow> u16" where "htons \<equiv> bswap16"
abbreviation ntohs :: "u16 \<Rightarrow> u16" where "ntohs \<equiv> bswap16"

lemma length_le_bytes [simp]: "length (le_bytes w) = 4"
  by (simp add: le_bytes_def)

lemma of_le_bytes_le_bytes [simp]: "of_le_bytes (le_bytes w) = w"
proof (rule bit_word_eqI)
  fix n assume "n < LENGTH(32)"
  then have "n < 8 \<or> 8 \<le> n \<and> n < 16 \<or> 16 \<le> n \<and> n < 24 \<or> 24 \<le> n \<and> n < 32" by auto
  then show "bit (of_le_bytes (le_bytes w)) n = bit w n"
    by (auto simp: le_bytes_def bit_simps)
qed

lemma not_bit_u8_beyond: "\<not> bit (a :: u8) (8 + n)" "\<not> bit (a :: u8) (16 + n)" "\<not> bit (a :: u8) (24 + n)"
  by (auto dest: bit_imp_le_length)

lemma le_bytes_of_le_bytes: "le_bytes (of_le_bytes [a, b, c, d]) = [a, b, c, d]"
  by (auto simp: le_bytes_def bit_simps not_bit_u8_beyond intro!: bit_word_eqI)

lemma le_bytes_bswap32: "le_bytes (bswap32 w) = rev (le_bytes w)"
proof -
  obtain a b c d where "rev (le_bytes w) = [a, b, c, d]" by (simp add: le_bytes_def)
  then show ?thesis by (simp only: bswap32_def le_bytes_of_le_bytes)
qed

lemma bswap32_bswap32 [simp]: "bswap32 (bswap32 w) = w"
  by (metis bswap32_def le_bytes_bswap32 of_le_bytes_le_bytes rev_rev_ident)

lemma bswap16_bswap16 [simp]: "bswap16 (bswap16 w) = w"
  by (rule bit_word_eqI) (auto simp: bswap16_def bit_simps)

section \<open>Streams with indeterminate bytes\<close>

text \<open>
  \<open>faithful xs ys\<close>: the bytes \<open>xs\<close> are the bytes \<open>ys\<close>, one for one, except that some of them may be
  indeterminate. \<open>readable n src\<close>: the \<open>n\<close> bytes at the start of a block; what lies behind its end
  is indeterminate.
\<close>

definition faithful :: "cell list \<Rightarrow> cell list \<Rightarrow> bool" where
  "faithful xs ys \<longleftrightarrow> list_all2 (\<lambda>x y. x = y \<or> x = None) xs ys"

definition readable :: "nat \<Rightarrow> cell list \<Rightarrow> cell list" where
  "readable n src = take n (src @ replicate n None)"

lemma length_readable [simp]: "length (readable n src) = n"
  by (simp add: readable_def)

lemma readable_take: "n \<le> length src \<Longrightarrow> readable n src = take n src"
  by (simp add: readable_def)

lemma faithful_refl [simp]: "faithful xs xs"
  by (simp add: faithful_def list_all2_same)

lemma faithful_length: "faithful xs ys \<Longrightarrow> length xs = length ys"
  by (simp add: faithful_def list_all2_lengthD)

lemma faithful_append: "faithful xs ys \<Longrightarrow> faithful xs' ys' \<Longrightarrow> faithful (xs @ xs') (ys @ ys')"
  by (simp add: faithful_def list_all2_appendI)

lemma faithful_indeterminate: "length ys = n \<Longrightarrow> faithful (replicate n None) ys"
  by (auto simp: faithful_def list_all2_conv_all_nth)

lemma faithful_take: "faithful xs ys \<Longrightarrow> faithful (take n xs) (take n ys)"
  by (auto simp: faithful_def list_all2_conv_all_nth)

lemma faithful_determinate: "faithful xs ys \<Longrightarrow> None \<notin> set xs \<Longrightarrow> xs = ys"
  unfolding faithful_def list_all2_conv_all_nth by (metis nth_equalityI nth_mem)

text \<open>Counting elements of a list in which one is replaced.\<close>

lemma length_filter_update:
  "i < length xs \<Longrightarrow> length (filter P (xs[i := y])) + (if P (xs ! i) then 1 else 0) =
    length (filter P xs) + (if P y then 1 else 0)"
proof (induction xs arbitrary: i)
  case (Cons x xs)
  then show ?case by (cases i) auto
qed simp

end
