(* ===== verification/Slice.thy ===== *)
theory Slice
  imports Mux_Prelude "HOL-Library.List_Lexorder" "HOL-Library.Sublist"
begin

text \<open>
  \<^verbatim>\<open>mutiplex/Slice.h\<close>: a pointer into bytes that belong to somebody else, and a length. The model
  of the pointer is the memory it may reach: the bytes from where it points to the end of the object.
  \<open>memcmp\<close> promises only the sign of its result; the model returns \<open>-1\<close>, \<open>0\<close> or \<open>1\<close>.
\<close>

section \<open>Definitions\<close>

record slice =
  sl_data :: "u8 list"
  sl_size :: nat

definition Slice_empty :: slice where
  "Slice_empty = \<lparr>sl_data = [0], sl_size = 0\<rparr>"

definition Slice_of :: "u8 list \<Rightarrow> nat \<Rightarrow> slice" where
  "Slice_of d n = \<lparr>sl_data = d, sl_size = n\<rparr>"

definition Slice_of_string :: "u8 list \<Rightarrow> slice" where
  "Slice_of_string s = \<lparr>sl_data = s @ [0], sl_size = length s\<rparr>"

definition Slice_of_cstr :: "u8 list \<Rightarrow> slice res" where
  "Slice_of_cstr s =
     (if 0 \<in> set s then Inr \<lparr>sl_data = s, sl_size = length (takeWhile (\<lambda>c. c \<noteq> 0) s)\<rparr>
      else Inl OutOfBounds)"

definition sl_empty :: "slice \<Rightarrow> bool" where
  "sl_empty s \<longleftrightarrow> sl_size s = 0"

definition sl_index :: "slice \<Rightarrow> nat \<Rightarrow> u8 res" where
  "sl_index s n =
     bindr (assertr (n < sl_size s)) (\<lambda>_.
     if n < length (sl_data s) then Inr (sl_data s ! n) else Inl OutOfBounds)"

definition sl_clear :: "slice \<Rightarrow> slice" where
  "sl_clear s = s\<lparr>sl_data := [0], sl_size := 0\<rparr>"

definition sl_remove_prefix :: "slice \<Rightarrow> nat \<Rightarrow> slice res" where
  "sl_remove_prefix s n =
     bindr (assertr (n \<le> sl_size s)) (\<lambda>_.
     if n \<le> length (sl_data s) then Inr (s\<lparr>sl_data := drop n (sl_data s), sl_size := sl_size s - n\<rparr>)
     else Inl OutOfBounds)"

definition sl_to_string :: "slice \<Rightarrow> u8 list res" where
  "sl_to_string s = (if sl_size s \<le> length (sl_data s) then Inr (take (sl_size s) (sl_data s)) else Inl OutOfBounds)"

fun byte_cmp :: "u8 list \<Rightarrow> u8 list \<Rightarrow> int" where
  "byte_cmp (x # xs) (y # ys) = (if x < y then -1 else if y < x then 1 else byte_cmp xs ys)"
| "byte_cmp _ _ = 0"

definition memcmp :: "u8 list \<Rightarrow> u8 list \<Rightarrow> nat \<Rightarrow> int res" where
  "memcmp xs ys n =
     (if n \<le> length xs \<and> n \<le> length ys then Inr (byte_cmp (take n xs) (take n ys)) else Inl OutOfBounds)"

definition sl_starts_with :: "slice \<Rightarrow> slice \<Rightarrow> bool res" where
  "sl_starts_with s x =
     (if sl_size s \<ge> sl_size x
      then bindr (memcmp (sl_data s) (sl_data x) (sl_size x)) (\<lambda>r. Inr (r = 0))
      else Inr False)"

definition sl_eq :: "slice \<Rightarrow> slice \<Rightarrow> bool res" where
  "sl_eq x y =
     (if sl_size x = sl_size y
      then bindr (memcmp (sl_data x) (sl_data y) (sl_size x)) (\<lambda>r. Inr (r = 0))
      else Inr False)"

definition sl_ne :: "slice \<Rightarrow> slice \<Rightarrow> bool res" where
  "sl_ne x y = bindr (sl_eq x y) (\<lambda>e. Inr (\<not> e))"

definition sl_compare :: "slice \<Rightarrow> slice \<Rightarrow> int res" where
  "sl_compare a b =
     (let min_len = (if sl_size a < sl_size b then sl_size a else sl_size b)
      in bindr (memcmp (sl_data a) (sl_data b) min_len) (\<lambda>r.
         Inr (if r = 0 then (if sl_size a < sl_size b then -1 else if sl_size a > sl_size b then 1 else r)
              else r)))"

section \<open>A three-way comparison orders by a key\<close>

locale three_way =
  fixes valid :: "'a \<Rightarrow> bool"
    and key :: "'a \<Rightarrow> 'k::linorder"
    and cmp :: "'a \<Rightarrow> 'a \<Rightarrow> int res"
  assumes cmp_sign: "valid a \<Longrightarrow> valid b \<Longrightarrow>
    \<exists>r. cmp a b = Inr r \<and> (r < 0 \<longleftrightarrow> key a < key b) \<and> (r = 0 \<longleftrightarrow> key a = key b)"
begin

lemma cmp_total:
  assumes "valid a" and "valid b"
  shows "\<exists>r s. cmp a b = Inr r \<and> cmp b a = Inr s \<and> (r < 0 \<longleftrightarrow> 0 < s) \<and> (r = 0 \<longleftrightarrow> s = 0)"
proof -
  from cmp_sign [OF assms] cmp_sign [OF assms(2,1)] obtain r s where
    "cmp a b = Inr r" "r < 0 \<longleftrightarrow> key a < key b" "r = 0 \<longleftrightarrow> key a = key b"
    "cmp b a = Inr s" "s < 0 \<longleftrightarrow> key b < key a" "s = 0 \<longleftrightarrow> key b = key a" by blast
  moreover from this have "r < 0 \<longleftrightarrow> 0 < s"
    by (metis less_linear not_less_iff_gr_or_eq)
  ultimately show ?thesis by auto
qed

lemma cmp_trans:
  assumes "valid a" and "valid b" and "valid c"
    and "cmp a b = Inr r" "r \<le> 0" and "cmp b c = Inr s" "s \<le> 0"
  shows "\<exists>t. cmp a c = Inr t \<and> t \<le> 0 \<and> (t = 0 \<longleftrightarrow> r = 0 \<and> s = 0)"
proof -
  have "key a \<le> key b" "r = 0 \<longleftrightarrow> key a = key b"
    using cmp_sign [OF assms(1,2)] assms(4,5) by (auto simp: order.order_iff_strict)
  moreover have "key b \<le> key c" "s = 0 \<longleftrightarrow> key b = key c"
    using cmp_sign [OF assms(2,3)] assms(6,7) by (auto simp: order.order_iff_strict)
  ultimately show ?thesis
    using cmp_sign [OF assms(1,3)] by (metis antisym less_le_not_le linorder_not_less order.trans order_less_le)
qed

end

section \<open>Slices are ordered by their bytes\<close>

definition sl_wf :: "slice \<Rightarrow> bool" where
  "sl_wf s \<longleftrightarrow> sl_size s \<le> length (sl_data s)"

definition sl_bytes :: "slice \<Rightarrow> u8 list" where
  "sl_bytes s = take (sl_size s) (sl_data s)"

lemma length_sl_bytes: "sl_wf s \<Longrightarrow> length (sl_bytes s) = sl_size s"
  by (simp add: sl_wf_def sl_bytes_def)

lemma byte_cmp_zero: "length xs = length ys \<Longrightarrow> byte_cmp xs ys = 0 \<longleftrightarrow> xs = ys"
  by (induction xs ys rule: byte_cmp.induct) auto

lemma Nil_less_iff: "([] :: u8 list) < ys \<longleftrightarrow> ys \<noteq> []"
  by (cases ys) simp_all

lemma byte_cmp_take_sign:
  "(let r = byte_cmp xs ys; t = (if r = 0 then (if length xs < length ys then -1 else if length xs > length ys then 1 else r) else r)
    in (t < 0 \<longleftrightarrow> xs < ys) \<and> (t = 0 \<longleftrightarrow> xs = ys))"
  by (induction xs ys rule: byte_cmp.induct) (auto simp: Let_def Nil_less_iff split: if_splits)

lemma byte_cmp_min: "byte_cmp (take (min (length xs) (length ys)) xs) (take (min (length xs) (length ys)) ys) = byte_cmp xs ys"
  by (induction xs ys rule: byte_cmp.induct) auto

lemma sl_compare_eq:
  assumes "sl_wf a" and "sl_wf b"
  shows "sl_compare a b = Inr (let r = byte_cmp (sl_bytes a) (sl_bytes b)
    in if r = 0 then (if length (sl_bytes a) < length (sl_bytes b) then -1
                      else if length (sl_bytes a) > length (sl_bytes b) then 1 else r) else r)"
proof -
  let ?m = "min (sl_size a) (sl_size b)"
  have "memcmp (sl_data a) (sl_data b) ?m = Inr (byte_cmp (take ?m (sl_data a)) (take ?m (sl_data b)))"
    using assms by (auto simp: memcmp_def sl_wf_def)
  moreover have "take ?m (sl_data a) = take ?m (sl_bytes a)" "take ?m (sl_data b) = take ?m (sl_bytes b)"
    by (simp_all add: sl_bytes_def)
  ultimately have "memcmp (sl_data a) (sl_data b) ?m = Inr (byte_cmp (sl_bytes a) (sl_bytes b))"
    using byte_cmp_min [of "sl_bytes a" "sl_bytes b"] assms by (simp add: length_sl_bytes)
  moreover have "(if sl_size a < sl_size b then sl_size a else sl_size b) = ?m" by simp
  ultimately show ?thesis
    using assms by (simp only: sl_compare_def Let_def length_sl_bytes bindr_simps)
qed

interpretation slice_order: three_way sl_wf sl_bytes sl_compare
proof
  fix a b assume "sl_wf a" "sl_wf b"
  then show "\<exists>r. sl_compare a b = Inr r \<and> (r < 0 \<longleftrightarrow> sl_bytes a < sl_bytes b) \<and> (r = 0 \<longleftrightarrow> sl_bytes a = sl_bytes b)"
    using byte_cmp_take_sign [of "sl_bytes a" "sl_bytes b"] by (simp add: sl_compare_eq Let_def)
qed

lemma memcmp_prefix:
  assumes "n \<le> length xs" and "n \<le> length ys"
  shows "memcmp xs ys n = Inr r \<Longrightarrow> r = 0 \<longleftrightarrow> take n xs = take n ys"
  using assms by (auto simp: memcmp_def byte_cmp_zero)

section \<open>Properties\<close>

text \<open>
  C26: \<open>compare\<close> never reads outside the two slices and orders them as byte strings: negative,
  zero or positive as the first is lexicographically less than, equal to or greater than the second;
  \<open>==\<close> and \<open>!=\<close> agree with it.
\<close>

theorem sl_compare_lexicographic:
  assumes "sl_wf a" and "sl_wf b"
  shows "\<exists>r. sl_compare a b = Inr r \<and>
    (r < 0 \<longleftrightarrow> sl_bytes a < sl_bytes b) \<and> (r = 0 \<longleftrightarrow> sl_bytes a = sl_bytes b) \<and>
    (0 < r \<longleftrightarrow> sl_bytes b < sl_bytes a) \<and> sl_eq a b = Inr (r = 0) \<and> sl_ne a b = Inr (r \<noteq> 0)"
proof -
  from slice_order.cmp_sign [OF assms] obtain r where r: "sl_compare a b = Inr r"
    "r < 0 \<longleftrightarrow> sl_bytes a < sl_bytes b" "r = 0 \<longleftrightarrow> sl_bytes a = sl_bytes b" by blast
  then have "0 < r \<longleftrightarrow> sl_bytes b < sl_bytes a"
    by (metis linorder_neqE less_asym less_irrefl)
  moreover have "sl_eq a b = Inr (sl_bytes a = sl_bytes b)"
  proof (cases "sl_size a = sl_size b")
    case True
    with assms show ?thesis
      by (auto simp: sl_eq_def memcmp_def sl_wf_def sl_bytes_def byte_cmp_zero)
  next
    case False
    with assms have "sl_bytes a \<noteq> sl_bytes b" by (metis length_sl_bytes)
    with False show ?thesis by (simp add: sl_eq_def)
  qed
  ultimately show ?thesis
    using r by (simp add: sl_ne_def)
qed

theorem sl_compare_lexicographic_witness:
  "\<exists>r. sl_compare (Slice_of_string [97, 98]) (Slice_of_string [97, 99, 0]) = Inr r \<and> r < 0"
proof -
  let ?a = "Slice_of_string [97, 98]" and ?b = "Slice_of_string [97, 99, 0]"
  have "sl_wf ?a" "sl_wf ?b" "sl_bytes ?a < sl_bytes ?b"
    by (simp_all add: Slice_of_string_def sl_wf_def sl_bytes_def)
  with sl_compare_lexicographic [of ?a ?b] show ?thesis by auto
qed

text \<open>
  \<open>starts_with\<close> decides the prefix relation, and removing a prefix that a slice starts with
  leaves the rest: the bytes of the slice are those of the prefix followed by those that remain.
\<close>

lemma sl_starts_with_remove_prefix:
  assumes "sl_wf s" and "sl_wf x"
  shows "sl_starts_with s x = Inr (prefix (sl_bytes x) (sl_bytes s)) \<and>
    (prefix (sl_bytes x) (sl_bytes s) \<longrightarrow>
      (\<exists>t. sl_remove_prefix s (sl_size x) = Inr t \<and> sl_wf t \<and> sl_bytes s = sl_bytes x @ sl_bytes t))"
proof -
  have len: "length (sl_bytes s) = sl_size s" "length (sl_bytes x) = sl_size x"
    using assms by (simp_all add: length_sl_bytes)
  have pre: "prefix (sl_bytes x) (sl_bytes s) \<longleftrightarrow> sl_size x \<le> sl_size s \<and> take (sl_size x) (sl_bytes s) = sl_bytes x"
    using len by (metis prefix_def prefix_length_le append_eq_conv_conj take_is_prefix)
  have "sl_starts_with s x = Inr (prefix (sl_bytes x) (sl_bytes s))"
  proof (cases "sl_size x \<le> sl_size s")
    case True
    then have "take (sl_size x) (sl_bytes s) = take (sl_size x) (sl_data s)"
      by (simp add: sl_bytes_def min_def)
    with True assms pre show ?thesis
      by (auto simp: sl_starts_with_def memcmp_def sl_wf_def byte_cmp_zero) (simp_all add: sl_bytes_def)
  qed (simp add: sl_starts_with_def pre)
  moreover have "\<exists>t. sl_remove_prefix s (sl_size x) = Inr t \<and> sl_wf t \<and> sl_bytes s = sl_bytes x @ sl_bytes t"
    if "prefix (sl_bytes x) (sl_bytes s)"
  proof -
    let ?t = "s\<lparr>sl_data := drop (sl_size x) (sl_data s), sl_size := sl_size s - sl_size x\<rparr>"
    have "sl_bytes ?t = drop (sl_size x) (sl_bytes s)"
      by (simp add: sl_bytes_def drop_take)
    moreover have "sl_bytes s = sl_bytes x @ drop (sl_size x) (sl_bytes s)"
      using that pre by (metis append_take_drop_id)
    ultimately show ?thesis
      using that pre assms(1) by (auto simp: sl_remove_prefix_def sl_wf_def)
  qed
  ultimately show ?thesis by blast
qed

end
