(* ===== verification/Decimal.thy ===== *)
theory Decimal
  imports Mux_Prelude
begin

text \<open>
  Decimal numbers as the C library prints them (\<open>%d\<close>, \<open>%0kd\<close>) and reads them. Shared by the address
  and the timestamp components.
\<close>

section \<open>Definitions\<close>

fun dec_string :: "nat \<Rightarrow> string" where
  "dec_string n = (if n < 10 then [char_of (48 + n)] else dec_string (n div 10) @ [char_of (48 + n mod 10)])"

declare dec_string.simps [simp del]

definition is_digit :: "char \<Rightarrow> bool" where
  "is_digit c \<longleftrightarrow> 48 \<le> (of_char c :: nat) \<and> (of_char c :: nat) \<le> 57"

definition is_space :: "char \<Rightarrow> bool" where
  "is_space c \<longleftrightarrow> (of_char c :: nat) = 32 \<or> 9 \<le> (of_char c :: nat) \<and> (of_char c :: nat) \<le> 13"

fun digits_value :: "nat \<Rightarrow> string \<Rightarrow> nat" where
  "digits_value acc [] = acc"
| "digits_value acc (c # cs) =
     (if is_digit c then digits_value (10 * acc + (of_char c - 48)) cs else acc)"

definition pad :: "nat \<Rightarrow> nat \<Rightarrow> string" where
  "pad k n = replicate (k - length (dec_string n)) (CHR ''0'') @ dec_string n"

section \<open>Decimal round trip\<close>

lemma of_char_digit: "d < 10 \<Longrightarrow> (of_char (char_of (48 + d) :: char) :: nat) = 48 + d" for d :: nat
  by (simp add: of_char_of)

lemma is_digit_char: "d < 10 \<Longrightarrow> is_digit (char_of (48 + d))" for d :: nat
  by (simp add: is_digit_def of_char_digit)

lemma dec_string_digits: "list_all is_digit (dec_string n)"
proof (induction n rule: dec_string.induct)
  case (1 n)
  then show ?case
    by (subst dec_string.simps) (auto simp: is_digit_char)
qed

lemma dec_string_nonempty: "dec_string n \<noteq> []"
  by (subst dec_string.simps) simp

lemma digits_value_append:
  "list_all is_digit xs \<Longrightarrow> digits_value acc (xs @ ys) = digits_value (digits_value acc xs) ys"
  by (induction xs arbitrary: acc) auto

lemma digits_value_dec_string: "digits_value 0 (dec_string n) = n"
proof (induction n rule: dec_string.induct)
  case (1 n)
  show ?case
  proof (cases "n < 10")
    case True
    then show ?thesis
      by (subst dec_string.simps) (simp add: is_digit_char of_char_digit)
  next
    case False
    then have "digits_value 0 (dec_string n) =
        digits_value (digits_value 0 (dec_string (n div 10))) [char_of (48 + n mod 10)]"
      by (subst dec_string.simps) (simp add: digits_value_append dec_string_digits)
    with "1.IH" [OF False] show ?thesis
      by (simp add: is_digit_char of_char_digit)
  qed
qed

lemma digit_not_special:
  assumes "is_digit c"
  shows "c \<noteq> CHR ''-''" "c \<noteq> CHR ''+''" "\<not> is_space c" "c \<noteq> CHR '':''" "c \<noteq> CHR ''.''" "c \<noteq> CHR 0x00"
  using assms by (auto simp: is_digit_def is_space_def)

lemma length_dec_string: "n < 10 ^ k \<Longrightarrow> 0 < k \<Longrightarrow> length (dec_string n) \<le> k"
proof (induction n arbitrary: k rule: dec_string.induct)
  case (1 n)
  show ?case
  proof (cases "n < 10")
    case True
    with 1 show ?thesis by (subst dec_string.simps) simp
  next
    case False
    then obtain j where j: "k = Suc j" "0 < j"
      using "1.prems" by (cases k; cases "k - 1") auto
    with "1.prems" have "n div 10 < 10 ^ j" by (simp add: div_less_iff_less_mult)
    with "1.IH" [OF False, of j] j False show ?thesis by (subst dec_string.simps) simp
  qed
qed

lemma digits_value_zeros: "digits_value 0 (replicate k (CHR ''0'') @ s) = digits_value 0 s"
  by (induction k) (simp_all add: is_digit_def)

lemma digits_value_pad: "digits_value 0 (pad k n) = n"
  by (simp add: pad_def digits_value_zeros digits_value_dec_string)

lemma length_pad: "n < 10 ^ k \<Longrightarrow> 0 < k \<Longrightarrow> length (pad k n) = k"
  using length_dec_string [of n k] by (simp add: pad_def)

lemma pad_digits: "list_all is_digit (pad k n)"
proof -
  have "list_all is_digit (replicate m (CHR ''0''))" for m
    by (induction m) (simp_all add: is_digit_def)
  then show ?thesis by (simp add: pad_def dec_string_digits)
qed

end
