(* ===== verification/Timestamp.thy ===== *)
theory Timestamp
  imports Decimal
begin

text \<open>
  \<^verbatim>\<open>src/Timestamp.cpp\<close>: microseconds since the epoch and their text. What \<open>gettimeofday\<close> reports
  and the calendar of \<open>localtime_r\<close> come from the C library and are arguments.
\<close>

section \<open>Definitions\<close>

definition MICROSECONDS_PER_SECOND :: int where
  "MICROSECONDS_PER_SECOND = 1000 * 1000"

definition ts_current :: "int \<Rightarrow> int \<Rightarrow> u64" where
  "ts_current tv_sec tv_usec = word_of_int (tv_sec * MICROSECONDS_PER_SECOND + tv_usec)"

record tm =
  tm_year :: int
  tm_mon :: int
  tm_mday :: int
  tm_hour :: int
  tm_min :: int
  tm_sec :: int

text \<open>\<open>%0kd\<close> of an \<open>int\<close>: the sign counts towards the width.\<close>

definition pad_int :: "nat \<Rightarrow> int \<Rightarrow> string" where
  "pad_int k n = (if n < 0 then CHR ''-'' # pad (k - 1) (nat (- n)) else pad k (nat n))"

definition ts_to_string :: "(int \<Rightarrow> tm) \<Rightarrow> u64 \<Rightarrow> string" where
  "ts_to_string localtime timestamp =
     (let tv_sec = uint timestamp div MICROSECONDS_PER_SECOND;
          tv_usec = uint timestamp mod MICROSECONDS_PER_SECOND;
          result = localtime tv_sec
      in take 63
           (pad_int 4 (tm_year result + 1900) @ ''-'' @ pad_int 2 (tm_mon result + 1) @ ''-'' @
            pad_int 2 (tm_mday result) @ '' '' @ pad_int 2 (tm_hour result) @ '':'' @
            pad_int 2 (tm_min result) @ '':'' @ pad_int 2 (tm_sec result) @ ''.'' @
            pad 6 (nat tv_usec)))"

text \<open>The ranges the C standard gives for a broken-down time, for a year of four digits.\<close>

definition tm_valid :: "tm \<Rightarrow> bool" where
  "tm_valid t \<longleftrightarrow> 0 \<le> tm_year t + 1900 \<and> tm_year t + 1900 \<le> 9999 \<and>
     0 \<le> tm_mon t \<and> tm_mon t \<le> 11 \<and> 1 \<le> tm_mday t \<and> tm_mday t \<le> 31 \<and>
     0 \<le> tm_hour t \<and> tm_hour t \<le> 23 \<and> 0 \<le> tm_min t \<and> tm_min t \<le> 59 \<and>
     0 \<le> tm_sec t \<and> tm_sec t \<le> 60"

section \<open>Properties\<close>

lemma length_pad_int: "0 \<le> n \<Longrightarrow> n < 10 ^ k \<Longrightarrow> 0 < k \<Longrightarrow> length (pad_int k n) = k"
  by (simp add: pad_int_def length_pad nat_less_iff)

lemma digits_value_pad_int: "0 \<le> n \<Longrightarrow> digits_value 0 (pad_int k n) = nat n"
  by (simp add: pad_int_def digits_value_pad)

lemma ts_split:
  assumes "0 \<le> us" and "us < MICROSECONDS_PER_SECOND" and "0 \<le> s"
    and "s * MICROSECONDS_PER_SECOND + us < 2 ^ 64"
  shows "uint (ts_current s us) div MICROSECONDS_PER_SECOND = s"
    and "uint (ts_current s us) mod MICROSECONDS_PER_SECOND = us"
proof -
  have "uint (word_of_int x :: u64) = x" if "0 \<le> x" and "x < 2 ^ 64" for x
    using that by (simp add: uint_word_of_int)
  from this [of "s * MICROSECONDS_PER_SECOND + us"]
  have "uint (ts_current s us) = s * MICROSECONDS_PER_SECOND + us"
    using assms unfolding ts_current_def by (simp add: MICROSECONDS_PER_SECOND_def)
  then show "uint (ts_current s us) div MICROSECONDS_PER_SECOND = s"
    and "uint (ts_current s us) mod MICROSECONDS_PER_SECOND = us"
    using assms by (simp_all add: MICROSECONDS_PER_SECOND_def)
qed

text \<open>
  C32: the text of a timestamp has the documented form \<open>yyyy-mm-dd hh:mm:ss.ffffff\<close>, 26 characters
  long: the separators stand where the form has them, the calendar fields come from the seconds that
  \<open>current\<close> read, and the last six digits are its microseconds.
\<close>

theorem ts_to_string_format:
  assumes "0 \<le> us" and "us < 1000000" and "0 \<le> s" and "s * 1000000 + us < 2 ^ 64"
    and "tm_valid (localtime s)"
  shows "let t = ts_to_string localtime (ts_current s us)
    in length t = 26 \<and> [t ! 4, t ! 7, t ! 10, t ! 13, t ! 16, t ! 19] = ''-- ::.'' \<and>
       digits_value 0 (take 4 t) = nat (tm_year (localtime s) + 1900) \<and>
       digits_value 0 (take 2 (drop 5 t)) = nat (tm_mon (localtime s) + 1) \<and>
       digits_value 0 (take 2 (drop 8 t)) = nat (tm_mday (localtime s)) \<and>
       digits_value 0 (take 2 (drop 11 t)) = nat (tm_hour (localtime s)) \<and>
       digits_value 0 (take 2 (drop 14 t)) = nat (tm_min (localtime s)) \<and>
       digits_value 0 (take 2 (drop 17 t)) = nat (tm_sec (localtime s)) \<and>
       digits_value 0 (drop 20 t) = nat us"
proof -
  let ?r = "localtime s"
  note v = assms(5) [unfolded tm_valid_def]
  define y where "y = pad_int 4 (tm_year ?r + 1900)"
  define mo where "mo = pad_int 2 (tm_mon ?r + 1)"
  define d where "d = pad_int 2 (tm_mday ?r)"
  define h where "h = pad_int 2 (tm_hour ?r)"
  define mi where "mi = pad_int 2 (tm_min ?r)"
  define sc where "sc = pad_int 2 (tm_sec ?r)"
  define u where "u = pad 6 (nat us)"
  note fields = y_def mo_def d_def h_def mi_def sc_def
  have len: "length y = 4" "length mo = 2" "length d = 2" "length h = 2" "length mi = 2" "length sc = 2"
      "length u = 6"
    using v assms(2) by (simp_all add: fields length_pad_int u_def length_pad nat_less_iff)
  have val: "digits_value 0 y = nat (tm_year ?r + 1900)" "digits_value 0 mo = nat (tm_mon ?r + 1)"
      "digits_value 0 d = nat (tm_mday ?r)" "digits_value 0 h = nat (tm_hour ?r)"
      "digits_value 0 mi = nat (tm_min ?r)" "digits_value 0 sc = nat (tm_sec ?r)" "digits_value 0 u = nat us"
    using v by (simp_all add: fields digits_value_pad_int u_def digits_value_pad)
  have "ts_to_string localtime (ts_current s us) =
      y @ ''-'' @ mo @ ''-'' @ d @ '' '' @ h @ '':'' @ mi @ '':'' @ sc @ ''.'' @ u"
    using assms ts_split [of us s] len
    by (simp add: ts_to_string_def Let_def fields [symmetric] u_def [symmetric]) (simp add: MICROSECONDS_PER_SECOND_def fields u_def)
  then show ?thesis
    using len val by (simp add: nth_append Let_def)
qed

theorem ts_to_string_format_witness:
  "let t = ts_to_string (\<lambda>_. \<lparr>tm_year = 70, tm_mon = 0, tm_mday = 1, tm_hour = 0, tm_min = 0, tm_sec = 7\<rparr>)
      (ts_current 7 42)
   in length t = 26 \<and> digits_value 0 (take 4 t) = 1970 \<and> digits_value 0 (drop 20 t) = 42"
proof -
  let ?l = "\<lambda>_. \<lparr>tm_year = 70, tm_mon = 0, tm_mday = 1, tm_hour = 0, tm_min = 0, tm_sec = 7\<rparr>"
  have "tm_valid (?l 7)" by (simp add: tm_valid_def)
  with ts_to_string_format [of 42 7 ?l] show ?thesis by (simp add: Let_def)
qed

end
