(* ===== verification/Queue_Interface.thy ===== *)
theory Queue_Interface
  imports Mux_Prelude
begin

text \<open>
  The contract between a producer of outgoing bytes, a consumer that takes them off the front, and
  the queue in between. The client lemma is about whole histories: whatever is pushed comes out in
  the same order, nothing is lost or repeated.
\<close>

datatype 'a queue_op = Push "'a list" | Ship nat

fun pushed :: "'a queue_op list \<Rightarrow> 'a list" where
  "pushed [] = []"
| "pushed (Push xs # ops) = xs @ pushed ops"
| "pushed (Ship n # ops) = pushed ops"

text \<open>A history: the result collects what the consumer was handed.\<close>

fun queue_run :: "('q \<Rightarrow> 'a list \<Rightarrow> 'q res) \<Rightarrow> ('q \<Rightarrow> nat \<Rightarrow> 'q res) \<Rightarrow> ('q \<Rightarrow> 'a list) \<Rightarrow>
    'q \<Rightarrow> 'a queue_op list \<Rightarrow> ('a list \<times> 'q) res" where
  "queue_run push ship front q [] = Inr ([], q)"
| "queue_run push ship front q (Push xs # ops) =
     bindr (push q xs) (\<lambda>q'. queue_run push ship front q' ops)"
| "queue_run push ship front q (Ship n # ops) =
     bindr (ship q n) (\<lambda>q'.
     bindr (queue_run push ship front q' ops) (\<lambda>(out, q'').
     Inr (take n (front q) @ out, q'')))"

text \<open>
  A history is legal when each push is one the queue accepts and the consumer takes at most what
  it is offered, and only when there is something to offer.
\<close>

fun queue_legal :: "('q \<Rightarrow> 'a list \<Rightarrow> bool) \<Rightarrow> ('q \<Rightarrow> 'a list \<Rightarrow> 'q res) \<Rightarrow> ('q \<Rightarrow> nat \<Rightarrow> 'q res) \<Rightarrow>
    ('q \<Rightarrow> 'a list) \<Rightarrow> 'q \<Rightarrow> 'a queue_op list \<Rightarrow> bool" where
  "queue_legal accepts push ship front q [] \<longleftrightarrow> True"
| "queue_legal accepts push ship front q (Push xs # ops) \<longleftrightarrow>
     accepts q xs \<and>
     (case push q xs of Inl e \<Rightarrow> True | Inr q' \<Rightarrow> queue_legal accepts push ship front q' ops)"
| "queue_legal accepts push ship front q (Ship n # ops) \<longleftrightarrow>
     front q \<noteq> [] \<and> n \<le> length (front q) \<and>
     (case ship q n of Inl e \<Rightarrow> True | Inr q' \<Rightarrow> queue_legal accepts push ship front q' ops)"

locale byte_queue =
  fixes invar :: "'q \<Rightarrow> bool"
    and stored :: "'q \<Rightarrow> 'a list"
    and accepts :: "'q \<Rightarrow> 'a list \<Rightarrow> bool"
    and push :: "'q \<Rightarrow> 'a list \<Rightarrow> 'q res"
    and ship :: "'q \<Rightarrow> nat \<Rightarrow> 'q res"
    and front :: "'q \<Rightarrow> 'a list"
  assumes front_stored: "invar q \<Longrightarrow> front q = stored q"
    and push_law: "invar q \<Longrightarrow> accepts q xs \<Longrightarrow>
      \<exists>q'. push q xs = Inr q' \<and> invar q' \<and> stored q' = stored q @ xs"
    and ship_law: "invar q \<Longrightarrow> stored q \<noteq> [] \<Longrightarrow> n \<le> length (stored q) \<Longrightarrow>
      \<exists>q'. ship q n = Inr q' \<and> invar q' \<and> stored q' = drop n (stored q)"
begin

lemma history:
  assumes "invar q" and "queue_legal accepts push ship front q ops"
  shows "\<exists>out q'. queue_run push ship front q ops = Inr (out, q') \<and> invar q' \<and>
    out @ stored q' = stored q @ pushed ops"
  using assms
proof (induction ops arbitrary: q)
  case Nil
  then show ?case by simp
next
  case (Cons op ops)
  show ?case
  proof (cases op)
    case (Push xs)
    with Cons.prems obtain q' where q': "push q xs = Inr q'" "invar q'" "stored q' = stored q @ xs"
      using push_law by auto
    with Cons.prems Push Cons.IH [of q'] show ?thesis by auto
  next
    case (Ship n)
    with Cons.prems have "stored q \<noteq> []" "n \<le> length (stored q)"
      by (simp_all add: front_stored)
    with Cons.prems(1) obtain q' where q': "ship q n = Inr q'" "invar q'" "stored q' = drop n (stored q)"
      using ship_law by blast
    with Cons.prems Ship Cons.IH [of q'] obtain out q'' where
      "queue_run push ship front q' ops = Inr (out, q'')" "invar q''"
      "out @ stored q'' = drop n (stored q) @ pushed ops" by auto
    moreover have "take n (stored q) @ drop n (stored q) @ pushed ops = stored q @ pushed ops"
      by (metis append_assoc append_take_drop_id)
    ultimately show ?thesis
      using Ship q' Cons.prems(1) by (auto simp: front_stored)
  qed
qed

end

end
