(* ===== verification/Circular_Buffer.thy ===== *)
theory Circular_Buffer
  imports Queue_Interface
begin

text \<open>
  The output buffer of a connection: \<^verbatim>\<open>src/CircularBuffer.cpp\<close> and
  \<^verbatim>\<open>mutiplex/CircularBuffer.h\<close>. The indices \<open>in_\<close> and \<open>out_\<close> are free-running 32-bit
  counters, masked by \<open>capacity_ - 1\<close>; the model keeps them as words, so the wrap-around of the
  counters is part of what is proved.
\<close>

section \<open>Definitions\<close>

record circular_buffer =
  cb_data :: "cell list"
  cb_capacity :: u32
  cb_in :: u32
  cb_out :: u32

definition is_pow_of_two :: "u32 \<Rightarrow> bool" where
  "is_pow_of_two v \<longleftrightarrow> v \<noteq> 0 \<and> v AND (v - 1) = 0"

function roundup_loop :: "nat \<Rightarrow> u32 \<Rightarrow> u32 \<Rightarrow> u32" where
  "roundup_loop i ret v =
     (if i < 32 then (if v \<le> ret then ret else roundup_loop (Suc i) (push_bit 1 ret) v) else ret)"
  by pat_completeness auto
termination
  by (relation "measure (\<lambda>(i, ret, v). 32 - i)") auto

declare roundup_loop.simps [simp del]

definition roundup_pow_of_two :: "u32 \<Rightarrow> u32" where
  "roundup_pow_of_two v = (if v < 2 then 2 else roundup_loop 1 1 v)"

definition CircularBuffer :: "u32 \<Rightarrow> circular_buffer" where
  "CircularBuffer capacity =
     (let cap = (if capacity > 0x80000000 then 0x80000000 else capacity);
          cap' = (if is_pow_of_two cap then cap else roundup_pow_of_two cap)
      in \<lparr>cb_data = malloc (unat cap'), cb_capacity = cap', cb_in = 0, cb_out = 0\<rparr>)"

definition buffer_len :: "circular_buffer \<Rightarrow> u32" where
  "buffer_len b = cb_in b - cb_out b"

definition cb_empty :: "circular_buffer \<Rightarrow> bool" where
  "cb_empty b \<longleftrightarrow> cb_in b = cb_out b"

definition cb_full :: "circular_buffer \<Rightarrow> bool" where
  "cb_full b \<longleftrightarrow> cb_in b - cb_out b = cb_capacity b"

definition cb_clear :: "circular_buffer \<Rightarrow> circular_buffer" where
  "cb_clear b = b\<lparr>cb_in := 0, cb_out := 0\<rparr>"

definition buffer_remaining :: "circular_buffer \<Rightarrow> u32" where
  "buffer_remaining b = cb_capacity b - cb_in b + cb_out b"

definition out_index :: "circular_buffer \<Rightarrow> u32" where
  "out_index b = cb_out b AND (cb_capacity b - 1)"

definition in_index :: "circular_buffer \<Rightarrow> u32" where
  "in_index b = cb_in b AND (cb_capacity b - 1)"

definition cb_resize :: "circular_buffer \<Rightarrow> cell list \<Rightarrow> u32 \<Rightarrow> circular_buffer res" where
  "cb_resize b buffer nbytes =
     (let cap = roundup_pow_of_two (nbytes + cb_capacity b);
          data = malloc (unat cap);
          buff_len = buffer_len b
      in bindr
           (if cb_full b \<and> in_index b = 0
            then memcpy data 0 (cb_data b) 0 (unat (cb_capacity b))
            else
              (let len = min buff_len (cb_capacity b - out_index b)
               in bindr (memcpy data 0 (cb_data b) (unat (out_index b)) (unat len)) (\<lambda>data.
                  bindr (memcpy data (unat len) (cb_data b) 0 (unat (buff_len - len))) (\<lambda>data.
                  memcpy data (unat buff_len) buffer 0 (unat nbytes)))))
           (\<lambda>data. Inr (b\<lparr>cb_data := data, cb_out := 0, cb_in := nbytes + buff_len,
                         cb_capacity := cap\<rparr>)))"

definition cb_put :: "circular_buffer \<Rightarrow> cell list \<Rightarrow> u32 \<Rightarrow> circular_buffer res" where
  "cb_put b buffer nbytes =
     (if buffer_remaining b < nbytes then cb_resize b buffer nbytes
      else
        (let len = min nbytes (cb_capacity b - in_index b)
         in bindr (memcpy (cb_data b) (unat (in_index b)) buffer 0 (unat len)) (\<lambda>data.
            bindr (memcpy data 0 buffer (unat len) (unat (nbytes - len))) (\<lambda>data.
            Inr (b\<lparr>cb_data := data, cb_in := cb_in b + nbytes\<rparr>)))))"

definition cb_get :: "circular_buffer \<Rightarrow> cell list \<Rightarrow> u32 \<Rightarrow> (cell list \<times> u32 \<times> circular_buffer) res" where
  "cb_get b buffer nbytes =
     (let size = min nbytes (buffer_len b);
          len = min size (cb_capacity b - out_index b)
      in bindr (memcpy buffer 0 (cb_data b) (unat (out_index b)) (unat len)) (\<lambda>buffer.
         bindr (memcpy buffer (unat len) (cb_data b) 0 (unat (size - len))) (\<lambda>buffer.
         Inr (buffer, size, b\<lparr>cb_out := cb_out b + size\<rparr>))))"

text \<open>
  \<open>write_to_fd\<close> hands the kernel one block (\<open>write\<close>) or a scatter list (\<open>writev\<close>), each entry a
  pair of offset and length in \<open>data_\<close>. The number \<open>n\<close> of bytes the kernel took, or a negative
  error value, is the argument of the model: it is the answer of the system call.
\<close>

definition write_iov :: "circular_buffer \<Rightarrow> (nat \<times> nat) list" where
  "write_iov b =
     (if cb_full b \<and> in_index b = 0 then [(0, unat (cb_capacity b))]
      else
        (let len = min (buffer_len b) (cb_capacity b - out_index b);
             rest = buffer_len b - len
         in if rest = 0 then [(unat (out_index b), unat len)]
            else [(unat (out_index b), unat len), (0, unat rest)]))"

definition write_to_fd :: "circular_buffer \<Rightarrow> int \<Rightarrow> (int \<times> circular_buffer) res" where
  "write_to_fd b n =
     bindr (assertr (\<not> cb_empty b)) (\<lambda>_.
       if n < 0 then Inr (sint (word_of_int n :: u32), b)
       else Inr (sint (word_of_int n :: u32), b\<lparr>cb_out := cb_out b + word_of_int n\<rparr>))"

text \<open>The bytes a scatter list names, in the order the kernel reads them.\<close>

definition gather :: "cell list \<Rightarrow> (nat \<times> nat) list \<Rightarrow> cell list" where
  "gather data iov = concat (map (\<lambda>(off, n). take n (drop off data)) iov)"

lemmas cb_defs [mux_defs] = buffer_len_def cb_empty_def cb_full_def cb_clear_def
  buffer_remaining_def out_index_def in_index_def

section \<open>Specification: a byte queue\<close>

definition ring :: "cell list \<Rightarrow> nat \<Rightarrow> nat \<Rightarrow> cell list" where
  "ring data s n = map (\<lambda>i. data ! ((s + i) mod length data)) [0..<n]"

definition cb_contents :: "circular_buffer \<Rightarrow> cell list" where
  "cb_contents b = ring (cb_data b) (unat (cb_out b)) (unat (buffer_len b))"

definition cb_wf :: "circular_buffer \<Rightarrow> bool" where
  "cb_wf b \<longleftrightarrow> is_pow_of_two (cb_capacity b) \<and> length (cb_data b) = unat (cb_capacity b) \<and>
     buffer_len b \<le> cb_capacity b"

section \<open>Powers of two\<close>

lemma bit_top:
  assumes "2 ^ k \<le> unat v" and "unat v < 2 ^ Suc k"
  shows "bit (v :: u32) k"
proof -
  have "unat v div 2 ^ k = 1"
    using assms by (simp add: div_nat_eqI)
  then have "bit (unat v) k"
    by (simp add: bit_iff_odd)
  then show ?thesis
    by (simp add: bit_unsigned_iff)
qed

lemma is_pow_of_two_iff: "is_pow_of_two v \<longleftrightarrow> (\<exists>k<32. unat v = 2 ^ k)"
proof
  assume v: "is_pow_of_two v"
  then have "0 < unat v" by (simp add: is_pow_of_two_def unat_gt_0)
  then obtain k where k: "2 ^ k \<le> unat v" "unat v < 2 ^ Suc k"
    using ex_power_ivl1 [of 2 "unat v"] by (auto simp: Suc_le_eq)
  have "unat v = 2 ^ k"
  proof (rule ccontr)
    assume "unat v \<noteq> 2 ^ k"
    with k have "2 ^ k \<le> unat v - 1" by simp
    moreover have "unat (v - 1) = unat v - 1"
      using \<open>0 < unat v\<close> by (simp add: unat_sub_if')
    ultimately have "bit (v - 1) k" and "bit v k"
      using k by (simp_all add: bit_top)
    then have "bit (v AND (v - 1)) k" by (simp add: bit_and_iff)
    with v show False by (simp add: is_pow_of_two_def)
  qed
  with unat_eq_exp_iff(2) [OF this] show "\<exists>k<32. unat v = 2 ^ k" by auto
next
  assume "\<exists>k<32. unat v = 2 ^ k"
  then obtain k where k: "unat v = 2 ^ k" by blast
  then have "unat (v AND (v - 1)) = 0" by (simp add: unat_and_exp_mask)
  then show "is_pow_of_two v"
    using k by (auto simp: is_pow_of_two_def unsigned_eq_0_iff)
qed


lemma exp_le_max: "k < 32 \<Longrightarrow> (2 :: nat) ^ k \<le> 2 ^ 31"
  by (rule power_increasing) simp_all

lemma roundup_loop_exp:
  assumes "i < 32" and "\<forall>j<i. 2 ^ j < unat v"
  shows "\<exists>k<32. roundup_loop (Suc i) (2 ^ i) v = 2 ^ k \<and> (\<forall>j<k. 2 ^ j < unat v) \<and>
           (unat v \<le> 2 ^ k \<or> k = 31)"
  using assms
proof (induction "32 - i" arbitrary: i)
  case 0
  then show ?case by simp
next
  case (Suc d)
  have le: "v \<le> 2 ^ i \<longleftrightarrow> unat v \<le> 2 ^ i"
    using Suc.prems by (simp add: word_le_nat_alt unat_exp)
  show ?case
  proof (cases "Suc i < 32 \<and> \<not> v \<le> 2 ^ i")
    case True
    then have "roundup_loop (Suc i) (2 ^ i) v = roundup_loop (Suc (Suc i)) (2 ^ Suc i) v"
      by (subst roundup_loop.simps) (simp add: push_bit_eq_mult mult.commute)
    moreover have "\<forall>j<Suc i. 2 ^ j < unat v"
      using True le Suc.prems(2) by (auto simp: less_Suc_eq)
    ultimately show ?thesis
      using Suc.hyps(1) [of "Suc i"] Suc.hyps(2) True by simp
  next
    case False
    then have "roundup_loop (Suc i) (2 ^ i) v = 2 ^ i"
      by (subst roundup_loop.simps) auto
    moreover have "unat v \<le> 2 ^ i \<or> i = 31"
      using False Suc.prems le by auto
    ultimately show ?thesis
      using Suc.prems by blast
  qed
qed

lemma roundup_pow_of_two_exp:
  "\<exists>k<32. roundup_pow_of_two v = 2 ^ k \<and> 0 < k \<and> (\<forall>j<k. 0 < j \<longrightarrow> 2 ^ j < unat v) \<and>
     (unat v \<le> 2 ^ k \<or> k = 31)"
proof (cases "v < 2")
  case True
  then have "unat v < 2" by (simp add: word_less_nat_alt)
  with True show ?thesis
    by (intro exI [of _ 1]) (auto simp: roundup_pow_of_two_def)
next
  case False
  then have v: "2 \<le> unat v" by (simp add: word_less_nat_alt)
  from roundup_loop_exp [of 0 v] obtain k where k: "k < 32" "roundup_loop 1 1 v = 2 ^ k"
    "\<forall>j<k. 2 ^ j < unat v" "unat v \<le> 2 ^ k \<or> k = 31" by auto
  with v False show ?thesis
    by (intro exI [of _ k]) (auto simp: roundup_pow_of_two_def intro: gr0I)
qed

lemma roundup_pow_of_two_pow: "is_pow_of_two (roundup_pow_of_two v)"
  using roundup_pow_of_two_exp [of v] by (auto simp: is_pow_of_two_iff unat_exp)

lemma roundup_pow_of_two_ge:
  assumes "unat v \<le> 2 ^ 31"
  shows "unat v \<le> unat (roundup_pow_of_two v)"
  using roundup_pow_of_two_exp [of v] assms by (auto simp: unat_exp)

lemma unat_roundup_above:
  assumes "2 ^ 31 < unat v"
  shows "unat (roundup_pow_of_two v) = 2 ^ 31"
proof -
  from roundup_pow_of_two_exp [of v] obtain k where k: "k < 32" "roundup_pow_of_two v = 2 ^ k"
    "unat v \<le> 2 ^ k \<or> k = 31" by blast
  with exp_le_max [OF k(1)] assms show ?thesis by (auto simp: unat_exp)
qed

section \<open>Reading and writing a ring in two pieces\<close>

lemma mod_two_turns: "x < 2 * c \<Longrightarrow> x mod c = (if x < c then x else x - c)" for x c :: nat
  by (simp add: mod_if)

lemma length_ring [simp]: "length (ring data s n) = n"
  by (simp add: ring_def)

lemma ring_mod: "ring data (s mod length data) n = ring data s n"
  by (simp add: ring_def mod_add_left_eq)

lemma ring_split: "ring data s (m + n) = ring data s m @ ring data (s + m) n"
  by (rule nth_equalityI) (auto simp: ring_def nth_append add.assoc)

lemma take_ring: "m \<le> n \<Longrightarrow> take m (ring data s n) = ring data s m"
  by (simp add: ring_def take_map)

lemma drop_ring: "drop m (ring data s n) = ring data (s + m) (n - m)"
  by (simp add: ring_def drop_map_nth_upt ac_simps)

lemma ring_two_pieces:
  assumes "s < length data" and "n \<le> length data"
  shows "ring data s n =
    take (min n (length data - s)) (drop s data) @ take (n - min n (length data - s)) data"
proof (rule nth_equalityI)
  show "length (ring data s n) = length (take (min n (length data - s)) (drop s data) @
      take (n - min n (length data - s)) data)"
    using assms by (auto simp: min_def)
next
  fix i assume "i < length (ring data s n)"
  then have i: "i < n" by simp
  then have "(s + i) mod length data = (if s + i < length data then s + i else s + i - length data)"
    using assms by (intro mod_two_turns) simp
  then show "ring data s n ! i = (take (min n (length data - s)) (drop s data) @
      take (n - min n (length data - s)) data) ! i"
    using assms i by (auto simp: ring_def nth_append min_def add.commute)
qed

definition ring_write :: "cell list \<Rightarrow> nat \<Rightarrow> cell list \<Rightarrow> nat \<Rightarrow> cell list res" where
  "ring_write data s src n =
     (let len = min n (length data - s)
      in bindr (memcpy data s src 0 len) (\<lambda>data. memcpy data 0 src len (n - len)))"

lemma ring_write_ok:
  assumes "s < length data" and "n \<le> length data" and "n \<le> length src"
  shows "\<exists>data'. ring_write data s src n = Inr data'"
  using assms by (auto simp: ring_write_def Let_def memcpy_def bindr_def min_def)

lemma ring_write_nth:
  assumes "ring_write data s src n = Inr data'" and "s < length data" and "n \<le> length data"
    and "p < length data"
  shows "data' ! p =
    (let len = min n (length data - s)
     in if s \<le> p \<and> p < s + len then src ! (p - s)
        else if p < n - len then src ! (len + p) else data ! p)"
proof -
  let ?len = "min n (length data - s)"
  from assms(1) obtain d1 where d1: "memcpy data s src 0 ?len = Inr d1"
    and d2: "memcpy d1 0 src ?len (n - ?len) = Inr data'"
    by (auto simp: ring_write_def Let_def bindr_eq_Inr_iff)
  note len = memcpy_length [OF d1]
  show ?thesis
    using memcpy_nth [OF d2, of p] memcpy_nth [OF d1, of p] len assms(2-4)
    by (auto simp: Let_def min_def)
qed

lemma ring_write_length: "ring_write data s src n = Inr data' \<Longrightarrow> length data' = length data"
  by (auto simp: ring_write_def Let_def bindr_eq_Inr_iff dest!: memcpy_length)

text \<open>Writing \<open>n\<close> bytes behind \<open>m\<close> stored ones keeps those and appends the new ones.\<close>

lemma ring_write_append:
  assumes w: "ring_write data ((s + m) mod length data) src n = Inr data'"
    and fit: "m + n \<le> length data" and src: "n \<le> length src" and ne: "0 < length data"
  shows "ring data' s (m + n) = ring data s m @ take n src"
proof (rule nth_equalityI)
  show "length (ring data' s (m + n)) = length (ring data s m @ take n src)"
    using src by simp
next
  let ?c = "length data"
  define o' where "o' = s mod ?c"
  define i where "i = (s + m) mod ?c"
  fix t assume "t < length (ring data' s (m + n))"
  then have t: "t < m + n" by simp
  have o: "o' < ?c" using ne by (simp add: o'_def)
  have i: "i = (if o' + m < ?c then o' + m else o' + m - ?c)"
    using o fit by (subst mod_two_turns [symmetric]) (auto simp: i_def o'_def mod_add_left_eq)
  define p where "p = (s + t) mod ?c"
  have p: "p = (if o' + t < ?c then o' + t else o' + t - ?c)"
    using o fit t by (subst mod_two_turns [symmetric]) (auto simp: p_def o'_def mod_add_left_eq)
  have "p < ?c" "i < ?c" using ne by (simp_all add: p_def i_def)
  from ring_write_nth [OF w [folded i_def] this(2) _ this(1)] fit
  have "data' ! p = (let len = min n (?c - i)
     in if i \<le> p \<and> p < i + len then src ! (p - i)
        else if p < n - len then src ! (len + p) else data ! p)" by simp
  also have "\<dots> = (if t < m then data ! p else src ! (t - m))"
    using t fit o \<open>p < ?c\<close> \<open>i < ?c\<close>
    by (auto simp: Let_def min_def p i split: if_splits intro!: arg_cong [of _ _ "(!) src"])
  finally show "ring data' s (m + n) ! t = (ring data s m @ take n src) ! t"
    using t src ring_write_length [OF w] by (auto simp: ring_def nth_append p_def)
qed


section \<open>The indices of a well-formed buffer\<close>

lemma unat_min: "unat (min a b :: 'a::len word) = min (unat a) (unat b)"
  by (simp add: min_def word_le_nat_alt)

lemma cb_wf_pow:
  assumes "cb_wf b"
  obtains k where "k < 32" and "unat (cb_capacity b) = 2 ^ k" and "length (cb_data b) = 2 ^ k"
  using assms by (auto simp: cb_wf_def is_pow_of_two_iff)

lemma cb_wf_length: "cb_wf b \<Longrightarrow> unat (cb_capacity b) = length (cb_data b)"
  by (simp add: cb_wf_def)

lemma cb_wf_nonempty: "cb_wf b \<Longrightarrow> 0 < length (cb_data b)"
  by (auto elim: cb_wf_pow)

lemma cb_wf_max: "cb_wf b \<Longrightarrow> length (cb_data b) \<le> 2 ^ 31"
  by (erule cb_wf_pow) (simp only: exp_le_max)

lemma cb_wf_len: "cb_wf b \<Longrightarrow> unat (buffer_len b) \<le> length (cb_data b)"
  by (auto simp: cb_wf_def word_le_nat_alt)

lemma cb_wf_out_index:
  assumes "cb_wf b"
  shows "unat (out_index b) = unat (cb_out b) mod length (cb_data b)"
  using cb_wf_pow [OF assms] by (metis out_index_def unat_and_exp_mask)

lemma cb_wf_in_index:
  assumes "cb_wf b"
  shows "unat (in_index b) = (unat (cb_out b) + unat (buffer_len b)) mod length (cb_data b)"
proof -
  from assms obtain k where k: "k < 32" "unat (cb_capacity b) = 2 ^ k" "length (cb_data b) = 2 ^ k"
    by (rule cb_wf_pow)
  have "cb_in b = cb_out b + buffer_len b" by (simp add: buffer_len_def)
  then show ?thesis
    using k unat_add_mod_exp [of k "cb_out b" "buffer_len b"]
    by (simp add: in_index_def unat_and_exp_mask)
qed

lemma cb_wf_index_less:
  assumes "cb_wf b"
  shows "unat (out_index b) < length (cb_data b)" and "unat (in_index b) < length (cb_data b)"
  using cb_wf_nonempty [OF assms] by (simp_all add: cb_wf_out_index cb_wf_in_index assms)

lemma cb_wf_to_end:
  assumes "cb_wf b"
  shows "unat (cb_capacity b - out_index b) = length (cb_data b) - unat (out_index b)"
    and "unat (cb_capacity b - in_index b) = length (cb_data b) - unat (in_index b)"
  using cb_wf_index_less [OF assms] cb_wf_length [OF assms]
  by (simp_all add: unat_sub_if')

lemma cb_wf_remaining:
  assumes "cb_wf b"
  shows "unat (buffer_remaining b) = length (cb_data b) - unat (buffer_len b)"
proof -
  have "buffer_remaining b = cb_capacity b - buffer_len b"
    by (simp add: buffer_remaining_def buffer_len_def)
  then show ?thesis
    using cb_wf_len [OF assms] cb_wf_length [OF assms] by (simp add: unat_sub_if')
qed

lemma cb_full_iff: "cb_wf b \<Longrightarrow> cb_full b \<longleftrightarrow> unat (buffer_len b) = length (cb_data b)"
  by (metis buffer_len_def cb_full_def cb_wf_length unsigned_word_eqI)

lemma cb_empty_iff: "cb_empty b \<longleftrightarrow> cb_contents b = []"
  by (auto simp: cb_empty_def cb_contents_def ring_def buffer_len_def unsigned_eq_0_iff)

lemma length_cb_contents [simp]: "length (cb_contents b) = unat (buffer_len b)"
  by (simp add: cb_contents_def)

lemma cb_contents_pieces:
  assumes "cb_wf b" and "n \<le> unat (buffer_len b)"
  shows "take n (cb_contents b) =
    take (min n (length (cb_data b) - unat (out_index b))) (drop (unat (out_index b)) (cb_data b)) @
    take (n - min n (length (cb_data b) - unat (out_index b))) (cb_data b)"
proof -
  have "take n (cb_contents b) = ring (cb_data b) (unat (cb_out b)) n"
    using assms(2) by (simp add: cb_contents_def take_ring)
  also have "\<dots> = ring (cb_data b) (unat (out_index b)) n"
    by (simp add: cb_wf_out_index assms(1) ring_mod)
  also have "\<dots> = take (min n (length (cb_data b) - unat (out_index b)))
      (drop (unat (out_index b)) (cb_data b)) @
    take (n - min n (length (cb_data b) - unat (out_index b))) (cb_data b)"
    using cb_wf_index_less(1) [OF assms(1)] cb_wf_len [OF assms(1)] assms(2)
    by (intro ring_two_pieces) auto
  finally show ?thesis .
qed

section \<open>put without resizing\<close>

lemma cb_put_as_ring_write:
  assumes "cb_wf b" and "unat n + unat (buffer_len b) \<le> length (cb_data b)"
  shows "cb_put b src n =
    bindr (ring_write (cb_data b) (unat (in_index b)) src (unat n)) (\<lambda>data.
      Inr (b\<lparr>cb_data := data, cb_in := cb_in b + n\<rparr>))"
proof -
  have "\<not> buffer_remaining b < n"
    using assms by (simp add: word_less_nat_alt cb_wf_remaining)
  moreover have "unat (min n (cb_capacity b - in_index b)) =
      min (unat n) (length (cb_data b) - unat (in_index b))"
    by (simp add: unat_min cb_wf_to_end assms(1))
  moreover from this have "unat (n - min n (cb_capacity b - in_index b)) =
      unat n - min (unat n) (length (cb_data b) - unat (in_index b))"
    by (simp add: unat_sub_if')
  ultimately show ?thesis
    by (simp add: cb_put_def ring_write_def Let_def bindr_assoc)
qed

lemma cb_put_fits:
  assumes wf: "cb_wf b" and fit: "unat n + unat (buffer_len b) \<le> length (cb_data b)"
    and src: "unat n \<le> length src"
  shows "\<exists>b'. cb_put b src n = Inr b' \<and> cb_wf b' \<and> cb_contents b' = cb_contents b @ take (unat n) src \<and>
     cb_capacity b' = cb_capacity b"
proof -
  let ?i = "unat (in_index b)" and ?len = "unat (buffer_len b)"
  from ring_write_ok [of ?i "cb_data b" "unat n" src] obtain data'
    where w: "ring_write (cb_data b) ?i src (unat n) = Inr data'"
    using cb_wf_index_less(2) [OF wf] fit src by auto
  define b' where "b' = b\<lparr>cb_data := data', cb_in := cb_in b + n\<rparr>"
  have put: "cb_put b src n = Inr b'"
    by (simp add: cb_put_as_ring_write wf fit w b'_def)
  have bl: "buffer_len b' = buffer_len b + n"
    by (simp add: buffer_len_def b'_def)
  moreover have "unat (buffer_len b) + unat n < 2 ^ 32"
    using fit cb_wf_max [OF wf] by simp
  ultimately have len: "unat (buffer_len b') = ?len + unat n"
    by (simp add: unat_add_lem [THEN iffD1])
  have "cb_wf b'"
    using wf fit len ring_write_length [OF w]
    by (simp add: cb_wf_def b'_def [symmetric] word_le_nat_alt) (simp add: b'_def)
  moreover have "ring data' (unat (cb_out b)) (?len + unat n) =
      ring (cb_data b) (unat (cb_out b)) ?len @ take (unat n) src"
    using w fit src cb_wf_nonempty [OF wf] cb_wf_in_index [OF wf]
    by (intro ring_write_append) (simp_all add: add.commute)
  then have "cb_contents b' = cb_contents b @ take (unat n) src"
    using len by (simp add: cb_contents_def) (simp add: b'_def)
  ultimately show ?thesis
    using put by (simp add: b'_def)
qed


section \<open>get\<close>

lemma cb_wf_advance:
  assumes "cb_wf b" and "n \<le> unat (buffer_len b)"
  shows "cb_wf (b\<lparr>cb_out := cb_out b + of_nat n\<rparr>)"
    and "cb_contents (b\<lparr>cb_out := cb_out b + of_nat n\<rparr>) = drop n (cb_contents b)"
proof -
  let ?b = "b\<lparr>cb_out := cb_out b + of_nat n\<rparr>"
  have n: "unat (of_nat n :: u32) = n"
    using assms(2) unat_le_max32 [of "buffer_len b"] by (simp add: unat_of_nat)
  have "buffer_len ?b = buffer_len b - of_nat n"
    by (simp add: buffer_len_def)
  then have len: "unat (buffer_len ?b) = unat (buffer_len b) - n"
    using assms(2) n by (simp add: unat_sub_if')
  then show "cb_wf ?b"
    using assms(1) by (auto simp: cb_wf_def word_le_nat_alt)
  from assms(1) obtain k where k: "k < 32" "length (cb_data b) = 2 ^ k"
    by (rule cb_wf_pow)
  have "unat (cb_out b + of_nat n) mod length (cb_data b) = (unat (cb_out b) + n) mod length (cb_data b)"
    using k n by (simp add: unat_add_mod_exp)
  then have "ring (cb_data b) (unat (cb_out b + of_nat n)) m = ring (cb_data b) (unat (cb_out b) + n) m" for m
    using ring_mod [of "cb_data b" "unat (cb_out b + of_nat n)" m]
      ring_mod [of "cb_data b" "unat (cb_out b) + n" m] by simp
  then show "cb_contents ?b = drop n (cb_contents b)"
    by (simp add: cb_contents_def drop_ring len)
qed

text \<open>The two copies with which both \<open>get\<close> and \<open>resize\<close> read the front of the queue.\<close>

lemma cb_copy_out:
  assumes wf: "cb_wf b" and w: "w \<le> buffer_len b" and dst: "unat w \<le> length dst"
  defines "len \<equiv> min w (cb_capacity b - out_index b)"
  shows "bindr (memcpy dst 0 (cb_data b) (unat (out_index b)) (unat len)) (\<lambda>d.
           memcpy d (unat len) (cb_data b) 0 (unat (w - len))) =
         Inr (take (unat w) (cb_contents b) @ drop (unat w) dst)"
proof -
  let ?o = "unat (out_index b)" and ?c = "length (cb_data b)" and ?m = "unat w"
  have len: "unat len = min ?m (?c - ?o)"
    by (simp add: len_def unat_min cb_wf_to_end [OF wf])
  then have rest: "unat (w - len) = ?m - min ?m (?c - ?o)"
    by (simp add: unat_sub_if')
  have "?m \<le> unat (buffer_len b)" "?m \<le> ?c"
    using w cb_wf_len [OF wf] by (auto simp: word_le_nat_alt)
  then show ?thesis
    using dst cb_wf_index_less(1) [OF wf] unfolding len rest
    by (auto simp: cb_contents_pieces [OF wf] memcpy_def min_def)
qed

lemma cb_get_ok:
  assumes wf: "cb_wf b" and dst: "unat n \<le> length dst"
  defines "m \<equiv> min (unat n) (unat (buffer_len b))"
  shows "\<exists>b'. cb_get b dst n = Inr (take m (cb_contents b) @ drop m dst, of_nat m, b') \<and>
     cb_wf b' \<and> cb_contents b' = drop m (cb_contents b)"
proof -
  let ?size = "min n (buffer_len b)"
  have size: "unat ?size = m" by (simp add: m_def unat_min)
  have word: "?size = of_nat m" unfolding size [symmetric] by simp
  have "cb_get b dst n = Inr (take m (cb_contents b) @ drop m dst, ?size, b\<lparr>cb_out := cb_out b + ?size\<rparr>)"
    using cb_copy_out [OF wf, of ?size dst] dst size
    by (simp add: cb_get_def Let_def bindr_assoc [symmetric] m_def)
  moreover have "m \<le> unat (buffer_len b)" by (simp add: m_def)
  ultimately show ?thesis
    using cb_wf_advance [OF wf, of m] unfolding word by blast
qed

section \<open>resize\<close>

lemma ring_start: "n \<le> length data \<Longrightarrow> ring data 0 n = take n data"
  by (rule nth_equalityI) (auto simp: ring_def)

definition cb_aligned_full :: "circular_buffer \<Rightarrow> bool" where
  "cb_aligned_full b \<longleftrightarrow> cb_full b \<and> in_index b = 0"

lemma cb_aligned_full_contents:
  assumes "cb_wf b" and "cb_aligned_full b"
  shows "cb_contents b = cb_data b"
proof -
  from assms have L: "unat (buffer_len b) = length (cb_data b)" and i: "unat (in_index b) = 0"
    by (simp_all add: cb_aligned_full_def cb_full_iff)
  then have "unat (cb_out b) mod length (cb_data b) = 0"
    using cb_wf_in_index [OF assms(1)] by simp
  then have "ring (cb_data b) (unat (cb_out b)) n = ring (cb_data b) 0 n" for n
    using ring_mod [of "cb_data b" "unat (cb_out b)" n] by simp
  then show ?thesis
    by (simp add: cb_contents_def L ring_start)
qed

lemma memcpy_fault: "memcpy dst d src s n = Inl e \<Longrightarrow> e = OutOfBounds"
  by (simp add: memcpy_def split: if_splits)

lemma resize_capacity:
  assumes "unat n + unat c \<le> 2 ^ 31"
  shows "unat n + unat c \<le> unat (roundup_pow_of_two (n + c))"
proof -
  have "unat (n + c) = unat n + unat c"
    using assms by (simp add: unat_add_lem [THEN iffD1])
  then show ?thesis
    using roundup_pow_of_two_ge [of "n + c"] assms by simp
qed

text \<open>The state after a resize, by the memory block it installs.\<close>

lemma cb_resized_wf:
  fixes b :: circular_buffer
  assumes cap: "is_pow_of_two cap" and data: "length data = unat cap"
    and len: "unat n + unat l \<le> unat cap"
  defines "b' \<equiv> b\<lparr>cb_data := data, cb_out := 0, cb_in := n + l, cb_capacity := cap\<rparr>"
  shows "cb_wf b'" and "cb_contents b' = take (unat n + unat l) data"
proof -
  have "unat (n + l) = unat n + unat l"
    using len unat_le_max32 [of cap] by (simp add: unat_add_lem [THEN iffD1])
  then have L: "unat (buffer_len b') = unat n + unat l"
    by (simp add: b'_def buffer_len_def)
  then show "cb_wf b'"
    using cap data len by (simp add: cb_wf_def word_le_nat_alt b'_def)
  show "cb_contents b' = take (unat n + unat l) data"
    using L data len by (simp add: cb_contents_def) (simp add: b'_def ring_start)
qed

lemma cb_resize_appends:
  assumes wf: "cb_wf b" and na: "\<not> cb_aligned_full b" and src: "unat n \<le> length src"
    and size: "unat n + unat (cb_capacity b) \<le> 2 ^ 31"
  shows "\<exists>b'. cb_resize b src n = Inr b' \<and> cb_wf b' \<and>
     cb_contents b' = cb_contents b @ take (unat n) src \<and>
     cb_capacity b' = roundup_pow_of_two (n + cb_capacity b)"
proof -
  let ?cap = "roundup_pow_of_two (n + cb_capacity b)" and ?l = "buffer_len b"
  let ?data = "cb_contents b @ take (unat n) src @ replicate (unat ?cap - unat ?l - unat n) None"
  have fit: "unat ?l + unat n \<le> unat ?cap"
    using resize_capacity [OF size] cb_wf_len [OF wf] by (simp add: cb_wf_length [OF wf])
  have out: "bindr (memcpy (malloc (unat ?cap)) 0 (cb_data b) (unat (out_index b))
        (unat (min ?l (cb_capacity b - out_index b)))) (\<lambda>d.
      memcpy d (unat (min ?l (cb_capacity b - out_index b))) (cb_data b) 0
        (unat (?l - min ?l (cb_capacity b - out_index b)))) =
      Inr (cb_contents b @ replicate (unat ?cap - unat ?l) None)"
    using cb_copy_out [OF wf, of ?l "malloc (unat ?cap)"] fit by (simp add: malloc_def)
  have "memcpy (cb_contents b @ replicate (unat ?cap - unat ?l) None) (unat ?l) src 0 (unat n) = Inr ?data"
    using fit src by (simp add: memcpy_def)
  then have "cb_resize b src n =
      Inr (b\<lparr>cb_data := ?data, cb_out := 0, cb_in := n + ?l, cb_capacity := ?cap\<rparr>)"
    using out na by (auto simp: cb_resize_def Let_def cb_aligned_full_def bindr_assoc [symmetric])
  moreover have "length ?data = unat ?cap"
    using fit src by simp
  note cb_resized_wf [OF roundup_pow_of_two_pow this, of n ?l b]
  ultimately show ?thesis
    using fit src by (simp add: add.commute)
qed

lemma cb_resize_loses:
  assumes wf: "cb_wf b" and af: "cb_aligned_full b"
    and size: "unat n + unat (cb_capacity b) \<le> 2 ^ 31"
  shows "\<exists>b'. cb_resize b src n = Inr b' \<and> cb_wf b' \<and>
     cb_contents b' = cb_contents b @ replicate (unat n) None"
proof -
  let ?cap = "roundup_pow_of_two (n + cb_capacity b)" and ?l = "buffer_len b"
  let ?data = "cb_data b @ replicate (unat ?cap - unat ?l) None"
  have l: "unat ?l = length (cb_data b)"
    using wf af by (simp add: cb_aligned_full_def cb_full_iff)
  have fit: "unat n + unat ?l \<le> unat ?cap"
    using resize_capacity [OF size] by (simp add: cb_wf_length [OF wf] l)
  then have "memcpy (malloc (unat ?cap)) 0 (cb_data b) 0 (unat (cb_capacity b)) = Inr ?data"
    by (simp add: memcpy_def malloc_def cb_wf_length [OF wf] l)
  then have "cb_resize b src n =
      Inr (b\<lparr>cb_data := ?data, cb_out := 0, cb_in := n + ?l, cb_capacity := ?cap\<rparr>)"
    using af by (simp add: cb_resize_def Let_def cb_aligned_full_def)
  moreover have "length ?data = unat ?cap"
    using fit l by simp
  note cb_resized_wf [OF roundup_pow_of_two_pow this fit, of b]
  ultimately show ?thesis
    using fit l by (simp add: cb_aligned_full_contents [OF wf af])
qed

lemma cb_resize_too_big:
  assumes wf: "cb_wf b" and na: "\<not> cb_aligned_full b"
    and size: "2 ^ 31 < unat n + unat (buffer_len b)"
  shows "cb_resize b src n = Inl OutOfBounds"
proof -
  let ?cap = "roundup_pow_of_two (n + cb_capacity b)"
  from roundup_pow_of_two_exp [of "n + cb_capacity b"] obtain k where "k < 32" "?cap = 2 ^ k"
    by blast
  then have "unat ?cap \<le> 2 ^ 31"
    using exp_le_max by (simp add: unat_exp)
  then have no: "memcpy d (unat (buffer_len b)) src 0 (unat n) \<noteq> Inr m" if "length d = unat ?cap" for d m
    using size that by (simp add: memcpy_def)
  have "cb_resize b src n \<noteq> Inr b'" for b'
  proof
    assume "cb_resize b src n = Inr b'"
    with na obtain d1 d2 d3 d s l where "memcpy (malloc (unat ?cap)) 0 (cb_data b) s l = Inr d1"
      and "memcpy d1 l (cb_data b) 0 d = Inr d2"
      and "memcpy d2 (unat (buffer_len b)) src 0 (unat n) = Inr d3"
      by (auto simp: cb_resize_def Let_def cb_aligned_full_def bindr_eq_Inr_iff)
    with no show False
      by (metis memcpy_length length_malloc)
  qed
  moreover have "e = OutOfBounds" if "cb_resize b src n = Inl e" for e
    using that na by (auto simp: cb_resize_def Let_def cb_aligned_full_def bindr_eq_Inl_iff dest: memcpy_fault)
  ultimately show ?thesis
    by (cases "cb_resize b src n") auto
qed


section \<open>write\_to\_fd\<close>

lemma gather_write_iov:
  assumes wf: "cb_wf b"
  shows "gather (cb_data b) (write_iov b) = cb_contents b"
proof (cases "cb_aligned_full b")
  case True
  then have "write_iov b = [(0, unat (cb_capacity b))]"
    by (simp add: write_iov_def cb_aligned_full_def)
  then show ?thesis
    using True wf by (simp add: gather_def cb_wf_length cb_aligned_full_contents)
next
  case False
  let ?l = "buffer_len b" and ?o = "unat (out_index b)" and ?c = "length (cb_data b)"
  let ?len = "min ?l (cb_capacity b - out_index b)"
  have len: "unat ?len = min (unat ?l) (?c - ?o)"
    by (simp add: unat_min cb_wf_to_end wf)
  have rest: "unat (?l - ?len) = unat ?l - min (unat ?l) (?c - ?o)"
    using len by (simp add: unat_sub_if')
  have "gather (cb_data b) (write_iov b) =
      take (unat ?len) (drop ?o (cb_data b)) @ take (unat (?l - ?len)) (cb_data b)"
    using False by (auto simp: write_iov_def gather_def Let_def cb_aligned_full_def)
  also have "\<dots> = cb_contents b"
    using cb_contents_pieces [OF wf, of "unat ?l"] unfolding len rest by simp
  finally show ?thesis .
qed

lemma write_iov_in_bounds:
  assumes wf: "cb_wf b" and "(off, n) \<in> set (write_iov b)"
  shows "off + n \<le> length (cb_data b)"
proof -
  have "unat (min (buffer_len b) (cb_capacity b - out_index b)) \<le> length (cb_data b) - unat (out_index b)"
    by (simp add: unat_min cb_wf_to_end wf)
  moreover have "unat (buffer_len b - min (buffer_len b) (cb_capacity b - out_index b)) \<le> unat (buffer_len b)"
    by (simp add: unat_sub_if' unat_min)
  ultimately show ?thesis
    using assms cb_wf_index_less(1) [OF wf] cb_wf_len [OF wf] cb_wf_length [OF wf]
    by (auto simp: write_iov_def Let_def split: if_splits)
qed

lemma sint_of_small: "0 \<le> n \<Longrightarrow> n < 2 ^ 31 \<Longrightarrow> sint (word_of_int n :: u32) = n"
  by (simp add: signed_of_int signed_take_bit_int_eq_self)

lemma write_to_fd_ok:
  assumes wf: "cb_wf b" and ne: "cb_contents b \<noteq> []" and n: "0 \<le> n" "nat n \<le> unat (buffer_len b)"
  shows "\<exists>r b'. write_to_fd b n = Inr (r, b') \<and> (n < 2 ^ 31 \<longrightarrow> r = n) \<and> cb_wf b' \<and>
    cb_contents b' = drop (nat n) (cb_contents b)"
proof -
  have "word_of_int n = (of_nat (nat n) :: u32)"
    using n(1) by simp
  then show ?thesis
    using ne n cb_wf_advance [OF wf n(2)] sint_of_small [OF n(1)]
    by (simp add: write_to_fd_def cb_empty_iff)
qed

section \<open>The queue contract\<close>

text \<open>
  The puts that keep the queue contract: the bytes fit as they are, or the buffer grows (within
  the 2 GiB that a power of two below \<open>2 ^ 32\<close> allows) and is not full with \<open>in_\<close> at the start of
  the block.
\<close>

definition cb_accepts :: "circular_buffer \<Rightarrow> cell list \<Rightarrow> bool" where
  "cb_accepts b xs \<longleftrightarrow>
     length xs + unat (buffer_len b) \<le> unat (cb_capacity b) \<or>
     length xs + unat (cb_capacity b) \<le> 2 ^ 31 \<and> \<not> cb_aligned_full b"

definition cb_push :: "circular_buffer \<Rightarrow> cell list \<Rightarrow> circular_buffer res" where
  "cb_push b xs = cb_put b xs (of_nat (length xs))"

definition cb_ship :: "circular_buffer \<Rightarrow> nat \<Rightarrow> circular_buffer res" where
  "cb_ship b n = bindr (write_to_fd b (int n)) (\<lambda>(r, b'). Inr b')"

definition cb_front :: "circular_buffer \<Rightarrow> cell list" where
  "cb_front b = gather (cb_data b) (write_iov b)"

lemma cb_put_accepted:
  assumes wf: "cb_wf b" and acc: "cb_accepts b (take (unat n) src)" and src: "unat n \<le> length src"
  shows "\<exists>b'. cb_put b src n = Inr b' \<and> cb_wf b' \<and> cb_contents b' = cb_contents b @ take (unat n) src"
proof (cases "unat n + unat (buffer_len b) \<le> length (cb_data b)")
  case True
  then show ?thesis using cb_put_fits [OF wf _ src] by blast
next
  case False
  then have "buffer_remaining b < n"
    using cb_wf_len [OF wf] by (simp add: word_less_nat_alt cb_wf_remaining wf)
  then have "cb_put b src n = cb_resize b src n"
    by (simp add: cb_put_def)
  moreover have "\<not> cb_aligned_full b" "unat n + unat (cb_capacity b) \<le> 2 ^ 31"
    using acc False src by (simp_all add: cb_accepts_def cb_wf_length [OF wf])
  ultimately show ?thesis
    using cb_resize_appends [OF wf _ src] by auto
qed

lemma cb_accepts_bound: "cb_wf b \<Longrightarrow> cb_accepts b xs \<Longrightarrow> length xs < 2 ^ 32"
  using cb_wf_max [of b] by (auto simp: cb_accepts_def cb_wf_length)

interpretation ring: byte_queue cb_wf cb_contents cb_accepts cb_push cb_ship cb_front
proof unfold_locales
  fix q assume "cb_wf q"
  then show "cb_front q = cb_contents q"
    by (simp add: cb_front_def gather_write_iov)
next
  fix q xs assume q: "cb_wf q" "cb_accepts q xs"
  then have "unat (of_nat (length xs) :: u32) = length xs"
    using cb_accepts_bound [OF q] by (simp add: unat_of_nat)
  with q show "\<exists>q'. cb_push q xs = Inr q' \<and> cb_wf q' \<and> cb_contents q' = cb_contents q @ xs"
    using cb_put_accepted [of q "of_nat (length xs)" xs] by (simp add: cb_push_def)
next
  fix q n assume "cb_wf q" "cb_contents q \<noteq> []" "n \<le> length (cb_contents q)"
  then show "\<exists>q'. cb_ship q n = Inr q' \<and> cb_wf q' \<and> cb_contents q' = drop n (cb_contents q)"
    using write_to_fd_ok [of q "int n"] by (auto simp: cb_ship_def)
qed


section \<open>The constructor\<close>

lemma CircularBuffer_wf: "cb_wf (CircularBuffer n)"
  by (simp add: CircularBuffer_def cb_wf_def Let_def buffer_len_def roundup_pow_of_two_pow)

lemma CircularBuffer_contents: "cb_contents (CircularBuffer n) = []"
  by (simp add: CircularBuffer_def cb_contents_def Let_def buffer_len_def ring_def)

lemma roundup_least:
  assumes "2 < unat v" and "unat v \<le> 2 ^ m"
  shows "unat (roundup_pow_of_two v) \<le> 2 ^ m"
proof -
  from roundup_pow_of_two_exp [of v] obtain k where k: "k < 32" "roundup_pow_of_two v = 2 ^ k"
    "\<forall>j<k. 0 < j \<longrightarrow> 2 ^ j < unat v" by blast
  have "0 < m" using assms by (auto intro: gr0I)
  with k(3) assms(2) have "k \<le> m" by (meson leD leI)
  then show ?thesis using k by (simp add: unat_exp)
qed

lemma is_pow_of_two_small: "unat v \<in> {1, 2} \<Longrightarrow> is_pow_of_two v"
  by (auto simp: is_pow_of_two_iff intro: exI [of _ 0] exI [of _ 1])

section \<open>Puts below 2 GiB\<close>

text \<open>The weaker condition under which a \<open>put\<close> never faults and keeps the buffer well formed.\<close>

definition cb_fits :: "circular_buffer \<Rightarrow> nat \<Rightarrow> bool" where
  "cb_fits b n \<longleftrightarrow> n + unat (buffer_len b) \<le> unat (cb_capacity b) \<or> n + unat (cb_capacity b) \<le> 2 ^ 31"

lemma cb_accepts_iff: "cb_accepts b xs \<longleftrightarrow>
    cb_fits b (length xs) \<and> (length xs + unat (buffer_len b) \<le> unat (cb_capacity b) \<or> \<not> cb_aligned_full b)"
  by (auto simp: cb_accepts_def cb_fits_def)

lemma cb_put_wf:
  assumes wf: "cb_wf b" and fits: "cb_fits b (unat n)" and src: "unat n \<le> length src"
  shows "\<exists>b'. cb_put b src n = Inr b' \<and> cb_wf b' \<and> unat (buffer_len b') = unat (buffer_len b) + unat n"
proof (cases "cb_accepts b (take (unat n) src)")
  case True
  from cb_put_accepted [OF wf True src] obtain b' where b': "cb_put b src n = Inr b'" "cb_wf b'"
    "cb_contents b' = cb_contents b @ take (unat n) src" by blast
  have "unat (buffer_len b') = unat (buffer_len b) + unat n"
    using arg_cong [OF b'(3), of length] src by simp
  then show ?thesis using b' by blast
next
  case False
  then have a: "cb_aligned_full b" and n: "unat (cb_capacity b) < unat n + unat (buffer_len b)"
    using fits src by (auto simp: cb_accepts_iff)
  then have size: "unat n + unat (cb_capacity b) \<le> 2 ^ 31"
    using fits by (simp add: cb_fits_def)
  have "buffer_remaining b < n"
    using n cb_wf_len [OF wf] by (simp add: word_less_nat_alt cb_wf_remaining wf cb_wf_length)
  then have "cb_put b src n = cb_resize b src n" by (simp add: cb_put_def)
  with cb_resize_loses [OF wf a size, of src] obtain b' where b': "cb_put b src n = Inr b'" "cb_wf b'"
    "cb_contents b' = cb_contents b @ replicate (unat n) None" by auto
  have "unat (buffer_len b') = unat (buffer_len b) + unat n"
    using arg_cong [OF b'(3), of length] by simp
  then show ?thesis using b' by blast
qed

lemma cb_fits_new: "unat n \<le> 2 ^ 31 \<Longrightarrow> cb_fits (CircularBuffer n) (unat n)"
proof -
  assume n: "unat n \<le> 2 ^ 31"
  have "unat n \<le> unat (cb_capacity (CircularBuffer n))"
  proof (cases "is_pow_of_two n")
    case True
    with n show ?thesis by (auto simp: CircularBuffer_def Let_def word_less_nat_alt)
  next
    case False
    with n roundup_pow_of_two_ge [OF n] show ?thesis
      by (auto simp: CircularBuffer_def Let_def word_less_nat_alt)
  qed
  then show ?thesis
    by (simp add: cb_fits_def buffer_len_def) (simp add: CircularBuffer_def Let_def)
qed

text \<open>What any successful \<open>put\<close> does, with a source block of any length.\<close>

lemma cb_put_reads:
  assumes wf: "cb_wf b" and put: "cb_put b src n = Inr b'"
  shows "unat n \<le> length src \<or> cb_aligned_full b \<and> buffer_remaining b < n"
proof -
  have "unat (min n x) + unat (n - min n x) = unat n" for x :: u32
    by (simp add: min_def unat_sub word_le_nat_alt)
  then show ?thesis
    using put by (fastforce simp: cb_put_def cb_resize_def Let_def bindr_eq_Inr_iff memcpy_Inr_iff cb_aligned_full_def
        split: if_splits)
qed

lemma roundup_bound: "unat (roundup_pow_of_two v) \<le> max 2 (2 * unat v)"
proof -
  from roundup_pow_of_two_exp [of v] obtain k where k: "k < 32" "roundup_pow_of_two v = 2 ^ k" "0 < k"
    "\<forall>j<k. 0 < j \<longrightarrow> 2 ^ j < unat v" by blast
  then show ?thesis
    by (cases "k = 1") (use k(4) [rule_format, of "k - 1"] in \<open>auto simp: unat_exp power_eq_if\<close>)
qed

lemma CircularBuffer_bound: "unat n \<le> 2 ^ 31 \<Longrightarrow> unat (cb_capacity (CircularBuffer n)) \<le> 2 + 2 * unat n"
  using roundup_bound [of n] by (auto simp: CircularBuffer_def Let_def word_less_nat_alt)

lemma cb_put_resized:
  assumes wf: "cb_wf b" and big: "buffer_remaining b < n" and size: "unat n + unat (cb_capacity b) \<le> 2 ^ 31"
    and put: "cb_put b src n = Inr b'"
  shows "unat (cb_capacity b') \<le> 4 * (unat (buffer_len b) + unat n)"
proof -
  have "cb_capacity b' = roundup_pow_of_two (n + cb_capacity b)"
    using put big by (auto simp: cb_put_def cb_resize_def Let_def bindr_eq_Inr_iff)
  moreover have "unat (n + cb_capacity b) = unat n + unat (cb_capacity b)"
    using size by (subst unat_add_lem [symmetric]) simp
  moreover have "unat (cb_capacity b) < unat n + unat (buffer_len b)"
    using big cb_wf_len [OF wf] by (simp add: word_less_nat_alt cb_wf_remaining [OF wf] cb_wf_length [OF wf])
  moreover have "0 < unat n" using big by (simp add: word_less_nat_alt)
  ultimately show ?thesis using roundup_bound [of "n + cb_capacity b"] by auto
qed

lemma cb_put_effect:
  assumes wf: "cb_wf b" and size: "unat n + unat (cb_capacity b) \<le> 2 ^ 31" and put: "cb_put b src n = Inr b'"
  shows "cb_wf b'"
    and "\<exists>xs. cb_contents b' = cb_contents b @ xs \<and> faithful xs (readable (unat n) src)"
    and "unat (cb_capacity b') \<le> max (unat (cb_capacity b)) (4 * (unat (buffer_len b) + unat n))"
proof -
  have "cb_wf b' \<and> (\<exists>xs. cb_contents b' = cb_contents b @ xs \<and> faithful xs (readable (unat n) src))"
  proof (cases "cb_aligned_full b \<and> buffer_remaining b < n")
    case True
    then have "cb_put b src n = cb_resize b src n" by (simp add: cb_put_def)
    then show ?thesis
      using cb_resize_loses [OF wf _ size, of src] True put
        faithful_indeterminate [OF length_readable, of "unat n" src] by auto
  next
    case False
    then have src: "unat n \<le> length src" using cb_put_reads [OF wf put] by blast
    have "unat n + unat (buffer_len b) \<le> unat (cb_capacity b) \<or> \<not> cb_aligned_full b"
      using False cb_wf_len [OF wf]
      by (auto simp: word_less_nat_alt cb_wf_remaining [OF wf] cb_wf_length [OF wf])
    then have "cb_accepts b (take (unat n) src)" using size src by (simp add: cb_accepts_def)
    from cb_put_accepted [OF wf this src] put show ?thesis by (auto simp: readable_take [OF src])
  qed
  then show "cb_wf b'" and "\<exists>xs. cb_contents b' = cb_contents b @ xs \<and> faithful xs (readable (unat n) src)"
    by blast+
  show "unat (cb_capacity b') \<le> max (unat (cb_capacity b)) (4 * (unat (buffer_len b) + unat n))"
  proof (cases "buffer_remaining b < n")
    case True
    then show ?thesis using cb_put_resized [OF wf True size put] by simp
  next
    case False
    then have "cb_capacity b' = cb_capacity b"
      using put by (auto simp: cb_put_def Let_def bindr_eq_Inr_iff)
    then show ?thesis by simp
  qed
qed

lemma cb_clear_wf: "cb_wf b \<Longrightarrow> cb_wf (cb_clear b)" and cb_clear_empty: "cb_empty (cb_clear b)"
  by (simp_all add: cb_wf_def cb_clear_def cb_empty_def buffer_len_def)

section \<open>Properties\<close>



text \<open>
  C6: in every legal history of a fresh buffer, \<open>put\<close> and \<open>write_to_fd\<close> never fault, and the bytes
  handed to the kernel followed by the bytes still stored are exactly the bytes put, in order. The
  32-bit counters may wrap any number of times.
\<close>

theorem cb_history:
  assumes "queue_legal cb_accepts cb_push cb_ship cb_front (CircularBuffer n) ops"
  shows "\<exists>out b. queue_run cb_push cb_ship cb_front (CircularBuffer n) ops = Inr (out, b) \<and>
    cb_wf b \<and> out @ cb_contents b = pushed ops"
  using ring.history [OF CircularBuffer_wf assms] by (simp add: CircularBuffer_contents)

theorem cb_history_witness:
  "\<exists>out b. queue_run cb_push cb_ship cb_front (CircularBuffer 3)
      [Push [Some 1, Some 2, Some 3], Ship 2, Push [Some 4, Some 5, Some 6, Some 7], Ship 3] = Inr (out, b) \<and>
    cb_wf b \<and> out @ cb_contents b = map Some [1, 2, 3, 4, 5, 6, 7]"
proof -
  have "queue_legal cb_accepts cb_push cb_ship cb_front (CircularBuffer 3)
      [Push [Some 1, Some 2, Some 3], Ship 2, Push [Some 4, Some 5, Some 6, Some 7], Ship 3]"
    by code_simp
  from cb_history [OF this] show ?thesis by simp
qed

text \<open>
  C23: \<open>put\<close> appends: when the bytes fit, or the buffer can grow within 2 GiB and is not full with
  \<open>in_\<close> at the start of the block, the call succeeds, keeps the buffer well formed and the queue is
  the old one followed by the bytes put.
\<close>

theorem cb_put_appends:
  assumes "cb_wf b" and "cb_accepts b (take (unat n) src)" and "unat n \<le> length src"
  shows "\<exists>b'. cb_put b src n = Inr b' \<and> cb_wf b' \<and> cb_contents b' = cb_contents b @ take (unat n) src"
  using assms by (rule cb_put_accepted)

theorem cb_put_appends_witness:
  "\<exists>b'. cb_put (CircularBuffer 2) [Some 1, Some 2, Some 3] 3 = Inr b' \<and> cb_wf b' \<and>
    cb_contents b' = [Some 1, Some 2, Some 3]"
proof -
  have "cb_accepts (CircularBuffer 2) [Some 1, Some 2, Some 3]"
    by code_simp
  then show ?thesis
    using cb_put_appends [of "CircularBuffer 2" 3 "[Some 1, Some 2, Some 3]"]
    by (simp add: CircularBuffer_wf CircularBuffer_contents)
qed

text \<open>
  C27: when the buffer is full and \<open>in_\<close> points to the start of the block, a \<open>put\<close> grows the buffer
  but never copies the new bytes: the queue gains that many indeterminate bytes instead of the data.
\<close>

theorem cb_put_loses_data:
  assumes "cb_wf b" and "cb_full b" and "in_index b = 0" and "0 < n"
    and "unat n + unat (cb_capacity b) \<le> 2 ^ 31"
  shows "\<exists>b'. cb_put b src n = Inr b' \<and> cb_contents b' = cb_contents b @ replicate (unat n) None"
proof -
  have "unat (buffer_remaining b) = 0"
    using assms by (simp add: cb_wf_remaining cb_full_iff)
  then have "cb_put b src n = cb_resize b src n"
    using assms(4) by (simp add: cb_put_def unsigned_eq_0_iff)
  then show ?thesis
    using cb_resize_loses [of b n src] assms by (auto simp: cb_aligned_full_def)
qed

theorem cb_put_loses_data_witness:
  "\<exists>b'. bindr (cb_push (CircularBuffer 2) [Some 1, Some 2]) (\<lambda>b. cb_put b [Some 3] 1) = Inr b' \<and>
    cb_contents b' = [Some 1, Some 2, None]"
proof -
  have b: "cb_push (CircularBuffer 2) [Some 1, Some 2] =
      Inr \<lparr>cb_data = [Some 1, Some 2], cb_capacity = 2, cb_in = 2, cb_out = 0\<rparr>" (is "_ = Inr ?b")
    by code_simp
  have "cb_wf ?b" "cb_full ?b" "in_index ?b = 0" "cb_contents ?b = [Some 1, Some 2]"
    by code_simp+
  with cb_put_loses_data [of ?b 1 "[Some 3]"] b show ?thesis by simp
qed

text \<open>
  C29: the other end of \<open>resize\<close>: once the queue and the new bytes together exceed 2 GiB, the block
  that \<open>resize\<close> allocates is too small and the copy runs over its end.
\<close>

theorem cb_put_overruns:
  assumes "cb_wf b" and "\<not> (cb_full b \<and> in_index b = 0)"
    and "2 ^ 31 < unat n + unat (buffer_len b)"
  shows "cb_put b src n = Inl OutOfBounds"
proof -
  have "buffer_remaining b < n"
    using assms(3) cb_wf_max [OF assms(1)] cb_wf_len [OF assms(1)]
    by (simp add: word_less_nat_alt cb_wf_remaining assms(1))
  then show ?thesis
    using assms cb_resize_too_big [of b n src] by (simp add: cb_put_def cb_aligned_full_def)
qed

theorem cb_put_overruns_witness: "cb_put (CircularBuffer 1) [Some 1] 0x80000001 = Inl OutOfBounds"
proof -
  have "\<not> cb_full (CircularBuffer 1)" by code_simp
  then show ?thesis
    using cb_put_overruns [of "CircularBuffer 1" "0x80000001" "[Some 1]"] CircularBuffer_wf by simp
qed

text \<open>
  \<open>get\<close> copies the front of the queue, at most as many bytes as asked for and as are stored,
  to the start of the caller's block, leaves the rest of that block alone, returns their number and
  removes them.
\<close>

lemma cb_get_takes_front:
  assumes "cb_wf b" and "unat n \<le> length dst"
  shows "\<exists>b'. cb_get b dst n =
      Inr (take (unat n) (cb_contents b) @ drop (min (unat n) (unat (buffer_len b))) dst, min n (buffer_len b), b') \<and>
    cb_wf b' \<and> cb_contents b' = drop (unat n) (cb_contents b)"
proof -
  have "min n (buffer_len b) = of_nat (min (unat n) (unat (buffer_len b)))"
    by (simp add: min_def word_le_nat_alt)
  moreover have "take (min (unat n) (unat (buffer_len b))) (cb_contents b) = take (unat n) (cb_contents b)"
    and "drop (min (unat n) (unat (buffer_len b))) (cb_contents b) = drop (unat n) (cb_contents b)"
    by (simp_all add: min_def)
  ultimately show ?thesis
    using cb_get_ok [OF assms] by simp
qed

text \<open>
  C24: \<open>write_to_fd\<close> on a non-empty buffer offers the kernel exactly the stored bytes, in order,
  from inside the block; when the kernel takes \<open>n\<close> of them these are removed and \<open>n\<close> is returned,
  and when it reports an error nothing changes. On an empty buffer the call aborts.
\<close>

theorem write_to_fd_ships:
  assumes "cb_wf b" and "cb_contents b \<noteq> []" and "n \<le> int (unat (buffer_len b))" and "\<bar>n\<bar> < 2 ^ 31"
  shows "gather (cb_data b) (write_iov b) = cb_contents b \<and>
    (\<forall>(off, len) \<in> set (write_iov b). off + len \<le> length (cb_data b)) \<and>
    (if n < 0 then write_to_fd b n = Inr (n, b)
     else \<exists>b'. write_to_fd b n = Inr (n, b') \<and> cb_wf b' \<and> cb_contents b' = drop (nat n) (cb_contents b)) \<and>
    write_to_fd (cb_clear b) n = Inl AssertFailed"
proof -
  have "\<exists>b'. write_to_fd b n = Inr (n, b') \<and> cb_wf b' \<and> cb_contents b' = drop (nat n) (cb_contents b)"
    if "0 \<le> n"
    using write_to_fd_ok [OF assms(1,2) that] assms(3,4) that by (auto simp: nat_le_iff)
  moreover have "write_to_fd b n = Inr (n, b)" if "n < 0"
    using that assms(2,4)
    by (simp add: write_to_fd_def cb_empty_iff signed_of_int signed_take_bit_int_eq_self)
  moreover have "write_to_fd (cb_clear b) n = Inl AssertFailed"
    by (simp add: write_to_fd_def cb_empty_def cb_clear_def)
  ultimately show ?thesis
    using gather_write_iov [OF assms(1)] write_iov_in_bounds [OF assms(1)] by auto
qed

theorem write_to_fd_ships_witness:
  "\<exists>b'. write_to_fd \<lparr>cb_data = [Some 3, None, Some 1, Some 2], cb_capacity = 4, cb_in = 1, cb_out = 0xFFFFFFFE\<rparr> 2 =
      Inr (2, b') \<and> cb_wf b' \<and> cb_contents b' = [Some 3]"
proof -
  let ?b = "\<lparr>cb_data = [Some 3, None, Some 1, Some 2], cb_capacity = 4, cb_in = 1, cb_out = 0xFFFFFFFE\<rparr>"
  have "cb_wf ?b" "cb_contents ?b = [Some 1, Some 2, Some 3]" "buffer_len ?b = 3"
    by code_simp+
  with write_to_fd_ships [of ?b 2] show ?thesis by simp
qed

end
