(* ===== verification/Byte_Buffer.thy ===== *)
theory Byte_Buffer
  imports Mux_Prelude
begin

text \<open>
  The receive buffer: \<^verbatim>\<open>src/ByteBuffer.cpp\<close> and \<^verbatim>\<open>mutiplex/ByteBuffer.h\<close>. One block holds
  the capacity, four bytes in network order, followed by the data bytes. The C++ \<open>int\<close> fields are
  integers here: all sums stay below \<open>2 ^ 31\<close> in a well-formed buffer. A length that reaches
  \<open>memcpy\<close> is converted to \<open>size_t\<close>, so a negative one becomes huge.
\<close>

section \<open>Definitions\<close>

record byte_buffer =
  bb_limit :: int
  bb_mark :: int
  bb_position :: int
  bb_data :: "cell list"

definition size_t_of_int :: "int \<Rightarrow> nat" where
  "size_t_of_int n = nat (n mod 2 ^ 64)"

definition ByteBuffer :: "int \<Rightarrow> byte_buffer res" where
  "ByteBuffer capacity =
     bindr (assertr (capacity > 0)) (\<lambda>_.
     (let cap = htonl (word_of_int capacity)
      in bindr (memcpy (malloc (nat capacity + 4)) 0 (map Some (le_bytes cap)) 0 4) (\<lambda>data.
         Inr \<lparr>bb_limit = capacity, bb_mark = -1, bb_position = 0, bb_data = data\<rparr>)))"

definition bb_capacity :: "byte_buffer \<Rightarrow> int res" where
  "bb_capacity b =
     (if length (bb_data b) < 4 then Inl OutOfBounds
      else if None \<in> set (take 4 (bb_data b)) then Inl (Undefined ''indeterminate capacity'')
      else Inr (sint (ntohl (of_le_bytes (map the (take 4 (bb_data b)))))))"

definition bb_set_position :: "byte_buffer \<Rightarrow> int \<Rightarrow> byte_buffer res" where
  "bb_set_position b p =
     bindr (assertr (p \<le> bb_limit b \<and> p \<ge> 0)) (\<lambda>_.
     (let b = b\<lparr>bb_position := p\<rparr>
      in Inr (if bb_mark b > bb_position b then b\<lparr>bb_mark := -1\<rparr> else b)))"

definition bb_set_limit :: "byte_buffer \<Rightarrow> int \<Rightarrow> byte_buffer res" where
  "bb_set_limit b limit =
     bindr (bb_capacity b) (\<lambda>cap.
     bindr (assertr (limit \<le> cap \<and> limit \<ge> 0)) (\<lambda>_.
     (let b = b\<lparr>bb_limit := limit\<rparr>;
          b = (if bb_position b > bb_limit b then b\<lparr>bb_position := bb_limit b\<rparr> else b)
      in Inr (if bb_mark b > bb_limit b then b\<lparr>bb_mark := -1\<rparr> else b))))"

definition bb_set_mark :: "byte_buffer \<Rightarrow> byte_buffer" where
  "bb_set_mark b = b\<lparr>bb_mark := bb_position b\<rparr>"

definition bb_reset :: "byte_buffer \<Rightarrow> byte_buffer res" where
  "bb_reset b = bindr (assertr (bb_mark b \<ge> 0)) (\<lambda>_. Inr (b\<lparr>bb_position := bb_mark b\<rparr>))"

definition bb_clear :: "byte_buffer \<Rightarrow> byte_buffer res" where
  "bb_clear b = bindr (bb_capacity b) (\<lambda>cap. Inr (b\<lparr>bb_position := 0, bb_limit := cap, bb_mark := -1\<rparr>))"

definition bb_flip :: "byte_buffer \<Rightarrow> byte_buffer" where
  "bb_flip b = b\<lparr>bb_limit := bb_position b, bb_position := 0, bb_mark := -1\<rparr>"

definition bb_rewind :: "byte_buffer \<Rightarrow> byte_buffer" where
  "bb_rewind b = b\<lparr>bb_position := 0, bb_mark := -1\<rparr>"

definition bb_remaining :: "byte_buffer \<Rightarrow> int" where
  "bb_remaining b = bb_limit b - bb_position b"

definition bb_has_remaining :: "byte_buffer \<Rightarrow> bool" where
  "bb_has_remaining b \<longleftrightarrow> bb_position b < bb_limit b"

text \<open>\<open>data()\<close>: the offset in the block that the pointer names.\<close>

definition bb_ptr :: "byte_buffer \<Rightarrow> int" where
  "bb_ptr b = 4 + bb_position b"

definition bb_put :: "byte_buffer \<Rightarrow> cell list \<Rightarrow> int \<Rightarrow> byte_buffer res" where
  "bb_put b data len =
     bindr (assertr (len \<le> bb_remaining b)) (\<lambda>_.
     if bb_ptr b < 0 then Inl OutOfBounds
     else bindr (memcpy (bb_data b) (nat (bb_ptr b)) data 0 (size_t_of_int len)) (\<lambda>m.
          Inr (b\<lparr>bb_data := m, bb_position := bb_position b + len\<rparr>)))"

definition bb_get :: "byte_buffer \<Rightarrow> cell list \<Rightarrow> int \<Rightarrow> (cell list \<times> int \<times> byte_buffer) res" where
  "bb_get b buffer len =
     (let len = min len (bb_remaining b)
      in if bb_ptr b < 0 then Inl OutOfBounds
         else bindr (memcpy buffer 0 (bb_data b) (nat (bb_ptr b)) (size_t_of_int len)) (\<lambda>buffer.
              Inr (buffer, len, b\<lparr>bb_position := bb_position b + len\<rparr>)))"

definition bb_skip :: "byte_buffer \<Rightarrow> int \<Rightarrow> byte_buffer res" where
  "bb_skip b n = bindr (assertr (bb_remaining b \<ge> n)) (\<lambda>_. Inr (b\<lparr>bb_position := bb_position b + n\<rparr>))"

text \<open>The calls of a client, in one type, and their execution in sequence.\<close>

datatype bb_op =
    Set_position int | Set_limit int | Set_mark | Reset | Clear | Flip | Rewind
  | Skip int | Put "cell list" int | Get "cell list" int

fun bb_exec :: "bb_op \<Rightarrow> byte_buffer \<Rightarrow> byte_buffer res" where
  "bb_exec (Set_position p) b = bb_set_position b p"
| "bb_exec (Set_limit l) b = bb_set_limit b l"
| "bb_exec Set_mark b = Inr (bb_set_mark b)"
| "bb_exec Reset b = bb_reset b"
| "bb_exec Clear b = bb_clear b"
| "bb_exec Flip b = Inr (bb_flip b)"
| "bb_exec Rewind b = Inr (bb_rewind b)"
| "bb_exec (Skip n) b = bb_skip b n"
| "bb_exec (Put data len) b = bb_put b data len"
| "bb_exec (Get buffer len) b = bindr (bb_get b buffer len) (\<lambda>(_, _, b'). Inr b')"

fun bb_run :: "bb_op list \<Rightarrow> byte_buffer \<Rightarrow> byte_buffer res" where
  "bb_run [] b = Inr b"
| "bb_run (op # ops) b = bindr (bb_exec op b) (bb_run ops)"

text \<open>A call is proper when its length is not negative and the caller's block is long enough.\<close>

fun bb_proper :: "bb_op \<Rightarrow> bool" where
  "bb_proper (Skip n) \<longleftrightarrow> 0 \<le> n"
| "bb_proper (Put data len) \<longleftrightarrow> 0 \<le> len \<and> len \<le> int (length data)"
| "bb_proper (Get buffer len) \<longleftrightarrow> 0 \<le> len \<and> len \<le> int (length buffer)"
| "bb_proper _ \<longleftrightarrow> True"

section \<open>Well-formed buffers\<close>

definition bb_wf :: "byte_buffer \<Rightarrow> bool" where
  "bb_wf b \<longleftrightarrow> (case bb_capacity b of Inl e \<Rightarrow> False | Inr cap \<Rightarrow>
     0 < cap \<and> cap < 2 ^ 31 \<and> length (bb_data b) = nat cap + 4 \<and>
     0 \<le> bb_position b \<and> bb_position b \<le> bb_limit b \<and> bb_limit b \<le> cap \<and>
     -1 \<le> bb_mark b \<and> bb_mark b \<le> bb_position b)"

text \<open>The bytes between position and limit.\<close>

definition bb_content :: "byte_buffer \<Rightarrow> cell list" where
  "bb_content b = take (nat (bb_remaining b)) (drop (nat (bb_ptr b)) (bb_data b))"

lemmas bb_defs = bb_set_position_def bb_set_limit_def bb_set_mark_def bb_reset_def bb_clear_def
  bb_flip_def bb_rewind_def bb_remaining_def bb_has_remaining_def bb_ptr_def bb_skip_def Let_def

lemma bb_capacity_cong [simp]:
  "bb_capacity (b\<lparr>bb_limit := l\<rparr>) = bb_capacity b"
  "bb_capacity (b\<lparr>bb_position := p\<rparr>) = bb_capacity b"
  "bb_capacity (b\<lparr>bb_mark := m\<rparr>) = bb_capacity b"
  by (simp_all add: bb_capacity_def)

lemma bb_wfE:
  assumes "bb_wf b"
  obtains cap where "bb_capacity b = Inr cap" "0 < cap" "cap < 2 ^ 31" "length (bb_data b) = nat cap + 4"
    "0 \<le> bb_position b" "bb_position b \<le> bb_limit b" "bb_limit b \<le> cap"
    "-1 \<le> bb_mark b" "bb_mark b \<le> bb_position b"
  using assms by (auto simp: bb_wf_def split: sum.splits)

lemma size_t_of_int_nonneg: "0 \<le> n \<Longrightarrow> n < 2 ^ 64 \<Longrightarrow> size_t_of_int n = nat n"
  by (simp add: size_t_of_int_def)

lemma size_t_of_int_negative:
  assumes "n < 0" and "- (2 ^ 31) \<le> n"
  shows "2 ^ 63 \<le> size_t_of_int n"
proof -
  have "n mod 2 ^ 64 = (n + 2 ^ 64) mod 2 ^ 64" by simp
  also have "\<dots> = n + 2 ^ 64" using assms by (intro mod_pos_pos_trivial) auto
  finally show ?thesis using assms by (simp add: size_t_of_int_def)
qed

lemma bb_capacity_header:
  assumes "take 4 (bb_data b) = map Some bs" and "length bs = 4"
  shows "bb_capacity b = Inr (sint (ntohl (of_le_bytes bs)))"
proof -
  have "length (take 4 (bb_data b)) = 4" using assms by simp
  then have "\<not> length (bb_data b) < 4" by simp
  with assms show ?thesis by (auto simp: bb_capacity_def comp_def)
qed

lemma ByteBuffer_ok:
  assumes "0 < cap" and "cap < 2 ^ 31"
  shows "\<exists>b. ByteBuffer cap = Inr b \<and> bb_wf b \<and> bb_capacity b = Inr cap \<and> bb_remaining b = cap \<and>
    take 4 (bb_data b) = map Some (rev (le_bytes (word_of_int cap)))"
proof -
  let ?h = "htonl (word_of_int cap)"
  define b where "b = \<lparr>bb_limit = cap, bb_mark = -1, bb_position = 0,
    bb_data = map Some (le_bytes ?h) @ drop 4 (malloc (nat cap + 4))\<rparr>"
  have ctor: "ByteBuffer cap = Inr b"
    using assms(1) by (simp add: ByteBuffer_def Let_def memcpy_def b_def)
  have hd: "take 4 (bb_data b) = map Some (le_bytes ?h)" by (simp add: b_def)
  have "sint (word_of_int cap :: u32) = cap"
    using assms by (simp add: signed_of_int signed_take_bit_int_eq_self)
  then have "bb_capacity b = Inr cap"
    using bb_capacity_header [OF hd] by simp
  then show ?thesis
    using ctor hd assms by (simp add: bb_wf_def bb_remaining_def le_bytes_bswap32) (simp add: b_def)
qed

lemma ByteBuffer_nonpositive: "cap \<le> 0 \<Longrightarrow> ByteBuffer cap = Inl AssertFailed"
  by (simp add: ByteBuffer_def)

section \<open>The operations on a well-formed buffer\<close>

lemma bb_capacity_same_header:
  "take 4 d = take 4 (bb_data b) \<Longrightarrow> length d = length (bb_data b) \<Longrightarrow>
    bb_capacity (b\<lparr>bb_data := d\<rparr>) = bb_capacity b"
  by (simp add: bb_capacity_def)

lemma bb_put_eq:
  assumes wf: "bb_wf b" and len: "0 \<le> len" "len \<le> bb_remaining b" "len \<le> int (length src)"
  defines "p \<equiv> nat (bb_ptr b)"
  shows "bb_put b src len = Inr (b\<lparr>bb_data := take p (bb_data b) @ take (nat len) src @ drop (p + nat len) (bb_data b),
      bb_position := bb_position b + len\<rparr>)"
proof -
  from wf obtain cap where "cap < 2 ^ 31" "length (bb_data b) = nat cap + 4"
    "0 \<le> bb_position b" "bb_position b \<le> bb_limit b" "bb_limit b \<le> cap" by (rule bb_wfE)
  moreover from this len have "size_t_of_int len = nat len"
    by (intro size_t_of_int_nonneg) (auto simp: bb_remaining_def)
  ultimately show ?thesis
    using len by (auto simp: bb_put_def memcpy_def p_def bb_ptr_def bb_remaining_def)
qed

lemma bb_put_ok:
  assumes wf: "bb_wf b" and len: "0 \<le> len" "len \<le> bb_remaining b" "len \<le> int (length src)"
  shows "\<exists>b'. bb_put b src len = Inr b' \<and> bb_wf b' \<and> bb_capacity b' = bb_capacity b \<and>
    bb_position b' = bb_position b + len \<and> bb_limit b' = bb_limit b \<and> bb_mark b' = bb_mark b \<and>
    bb_data b' = take (nat (bb_ptr b)) (bb_data b) @ take (nat len) src @ drop (nat (bb_ptr b) + nat len) (bb_data b)"
proof -
  let ?p = "nat (bb_ptr b)"
  define d where "d = take ?p (bb_data b) @ take (nat len) src @ drop (?p + nat len) (bb_data b)"
  from wf obtain cap where c: "bb_capacity b = Inr cap" "0 < cap" "cap < 2 ^ 31"
    "length (bb_data b) = nat cap + 4" "0 \<le> bb_position b" "bb_position b \<le> bb_limit b"
    "bb_limit b \<le> cap" "-1 \<le> bb_mark b" "bb_mark b \<le> bb_position b" by (rule bb_wfE)
  then have l: "length d = length (bb_data b)" and "take 4 d = take 4 (bb_data b)"
    using len by (auto simp: d_def bb_remaining_def bb_ptr_def min_def)
  then have "bb_capacity (b\<lparr>bb_data := d\<rparr>) = Inr cap"
    using c by (simp only: bb_capacity_same_header)
  then have cap: "bb_capacity (b\<lparr>bb_data := d, bb_position := bb_position b + len\<rparr>) = Inr cap"
    by simp
  then have "bb_wf (b\<lparr>bb_data := d, bb_position := bb_position b + len\<rparr>)"
    using c l len by (simp add: bb_wf_def bb_remaining_def)
  then show ?thesis
    using cap c(1) by (simp add: bb_put_eq [OF wf len] d_def)
qed

lemma bb_put_full: "bb_remaining b < len \<Longrightarrow> bb_put b src len = Inl AssertFailed"
  by (simp add: bb_put_def)

lemma bb_get_ok:
  assumes wf: "bb_wf b" and len: "0 \<le> len" "len \<le> int (length dst)"
  defines "m \<equiv> min len (bb_remaining b)"
  shows "bb_get b dst len =
    Inr (take (nat m) (bb_content b) @ drop (nat m) dst, m, b\<lparr>bb_position := bb_position b + m\<rparr>)"
proof -
  from wf obtain cap where c: "0 < cap" "cap < 2 ^ 31"
    "length (bb_data b) = nat cap + 4" "0 \<le> bb_position b" "bb_position b \<le> bb_limit b"
    "bb_limit b \<le> cap" by (rule bb_wfE)
  then have m: "0 \<le> m" "m \<le> bb_remaining b" "m \<le> len"
    using len by (auto simp: m_def bb_remaining_def)
  then have "size_t_of_int m = nat m"
    using c by (intro size_t_of_int_nonneg) (auto simp: bb_remaining_def)
  moreover have "take (nat m) (bb_content b) = take (nat m) (drop (nat (bb_ptr b)) (bb_data b))"
    using m by (simp add: bb_content_def min_def nat_mono)
  moreover have "nat (bb_ptr b) + nat m \<le> length (bb_data b)" "nat m \<le> length dst" "\<not> bb_ptr b < 0"
    using c m len by (auto simp: bb_ptr_def bb_remaining_def)
  ultimately show ?thesis
    by (simp add: bb_get_def Let_def m_def [symmetric] memcpy_def)
qed

lemma bb_wf_move:
  assumes "bb_wf b" and "0 \<le> n" and "n \<le> bb_remaining b"
  shows "bb_wf (b\<lparr>bb_position := bb_position b + n\<rparr>)"
  using assms by (auto simp: bb_wf_def bb_remaining_def split: sum.splits)

lemma bb_content_move:
  assumes "bb_wf b" and "0 \<le> n" and "n \<le> bb_remaining b"
  shows "bb_content (b\<lparr>bb_position := bb_position b + n\<rparr>) = drop (nat n) (bb_content b)"
proof -
  from assms(1) have "0 \<le> bb_position b" by (rule bb_wfE)
  with assms show ?thesis
    by (simp add: bb_content_def bb_remaining_def bb_ptr_def drop_take nat_diff_distrib' nat_add_distrib algebra_simps)
qed

lemma length_bb_content: "bb_wf b \<Longrightarrow> length (bb_content b) = nat (bb_remaining b)"
  by (erule bb_wfE) (auto simp: bb_content_def bb_remaining_def bb_ptr_def min_def)

lemma bb_clear_ok:
  assumes "bb_wf b" and "bb_capacity b = Inr cap"
  shows "bb_clear b = Inr (b\<lparr>bb_position := 0, bb_limit := cap, bb_mark := -1\<rparr>)"
    and "bb_wf (b\<lparr>bb_position := 0, bb_limit := cap, bb_mark := -1\<rparr>)"
  using assms by (auto simp: bb_clear_def bb_wf_def)

lemma bb_exec_wf:
  assumes "bb_wf b" and "bb_proper op"
  shows "(\<exists>b'. bb_exec op b = Inr b' \<and> bb_wf b' \<and> bb_capacity b' = bb_capacity b) \<or>
    bb_exec op b = Inl AssertFailed"
proof -
  from assms(1) obtain cap where cap: "bb_capacity b = Inr cap" by (rule bb_wfE)
  show ?thesis
  proof (cases op)
    case (Put data len)
    with assms bb_put_ok [of b len data] bb_put_full [of b len data] show ?thesis
      by (cases "len \<le> bb_remaining b") auto
  next
    case (Get dst len)
    from assms(1) have "0 \<le> bb_remaining b" by (auto simp: bb_remaining_def elim: bb_wfE)
    with Get assms bb_get_ok [of b len dst] bb_wf_move [of b "min len (bb_remaining b)"] show ?thesis
      by auto
  next
    case (Skip n)
    with assms bb_wf_move [of b n] show ?thesis
      by (auto simp: bb_skip_def assertr_def)
  qed (use assms(1) cap in \<open>auto simp: bb_defs assertr_def bb_wf_def\<close>)
qed

lemma bb_run_wf:
  assumes "bb_wf b" and "list_all bb_proper ops"
  shows "(\<exists>b'. bb_run ops b = Inr b' \<and> bb_wf b' \<and> bb_capacity b' = bb_capacity b) \<or>
    bb_run ops b = Inl AssertFailed"
  using assms
proof (induction ops arbitrary: b)
  case Nil
  then show ?case by simp
next
  case (Cons op ops)
  from Cons.prems bb_exec_wf [of b op] consider
      b' where "bb_exec op b = Inr b'" "bb_wf b'" "bb_capacity b' = bb_capacity b"
    | "bb_exec op b = Inl AssertFailed" by auto
  then show ?case
  proof cases
    case (1 b')
    with Cons.IH [of b'] Cons.prems(2) show ?thesis by auto
  qed simp
qed

lemma bb_content_after_put:
  assumes wf: "bb_wf b" and len: "int (length xs) \<le> bb_remaining b"
    and put: "bb_put b xs (int (length xs)) = Inr b'"
  shows "take (length xs) (drop (nat (bb_ptr b)) (bb_data b')) = xs"
proof -
  from wf obtain cap where "length (bb_data b) = nat cap + 4" "0 \<le> bb_position b"
    "bb_position b \<le> bb_limit b" "bb_limit b \<le> cap" by (rule bb_wfE)
  moreover from bb_put_ok [OF wf _ len, of xs] put
  have "bb_data b' = take (nat (bb_ptr b)) (bb_data b) @ xs @ drop (nat (bb_ptr b) + length xs) (bb_data b)"
    by auto
  ultimately show ?thesis
    using len by (simp add: bb_ptr_def bb_remaining_def)
qed

section \<open>Properties\<close>

text \<open>
  The constructor stores the capacity in the first four bytes of the block in network order,
  and \<open>capacity()\<close> reads it back; a fresh buffer has all of it remaining. A capacity that is not
  positive aborts.
\<close>

lemma ByteBuffer_roundtrip:
  assumes "cap < 2 ^ 31"
  shows "if 0 < cap then \<exists>b. ByteBuffer cap = Inr b \<and> bb_wf b \<and> bb_capacity b = Inr cap \<and>
      bb_remaining b = cap \<and> take 4 (bb_data b) = map Some (rev (le_bytes (word_of_int cap)))
    else ByteBuffer cap = Inl AssertFailed"
  using ByteBuffer_ok [of cap] ByteBuffer_nonpositive [of cap] assms by simp

text \<open>
  C19: whatever sequence of calls a client makes, with lengths that are not negative and blocks of
  its own that are long enough, the buffer stays well formed
  (\<open>0 \<le> mark \<le> position \<le> limit \<le> capacity\<close> with \<open>-1\<close> for no mark, header intact), or a documented
  precondition fails and an assert stops the program: the buffer never touches memory outside its block.
\<close>

theorem bb_run_safe:
  assumes "ByteBuffer cap = Inr b" and "0 < cap" and "cap < 2 ^ 31" and "list_all bb_proper ops"
  shows "(\<exists>b'. bb_run ops b = Inr b' \<and> bb_wf b' \<and> bb_capacity b' = Inr cap) \<or>
    bb_run ops b = Inl AssertFailed"
  using bb_run_wf [OF _ assms(4), of b] ByteBuffer_ok [OF assms(2,3)] assms(1) by auto

theorem bb_run_safe_witness:
  "(\<exists>b b'. ByteBuffer 4 = Inr b \<and>
     bb_run [Put [Some 7, Some 0] 2, Flip, Get [None, None] 2, Rewind, Set_mark, Skip 1, Reset] b = Inr b' \<and> bb_wf b' \<and>
     bb_capacity b' = Inr 4)"
proof -
  let ?ops = "[Put [Some 7, Some 0] 2, Flip, Get [None, None] 2, Rewind, Set_mark, Skip 1, Reset]"
  let ?b = "\<lparr>bb_limit = 4, bb_mark = -1, bb_position = 0,
    bb_data = [Some 0, Some 0, Some 0, Some 4, None, None, None, None]\<rparr>"
  have "ByteBuffer 4 = Inr ?b" "bb_run ?ops ?b \<noteq> Inl AssertFailed" "list_all bb_proper ?ops"
    by code_simp+
  with bb_run_safe [of 4 ?b ?ops] show ?thesis by auto
qed

text \<open>
  C25: put, flip, get: bytes put at the start of a buffer are read back unchanged after \<open>flip\<close>, and
  then nothing remains.
\<close>

theorem bb_put_flip_get:
  assumes "bb_wf b" and "bb_position b = 0" and "int (length xs) \<le> bb_remaining b"
    and "length dst = length xs"
  shows "\<exists>b1 b2. bb_put b xs (int (length xs)) = Inr b1 \<and>
    bb_get (bb_flip b1) dst (int (length xs)) = Inr (xs, int (length xs), b2) \<and>
    bb_wf b2 \<and> bb_remaining b2 = 0"
proof -
  from bb_put_ok [OF assms(1) _ assms(3), of xs] obtain b1 where b1: "bb_put b xs (int (length xs)) = Inr b1"
    "bb_wf b1" "bb_position b1 = int (length xs)" by (auto simp: assms(2))
  let ?f = "bb_flip b1"
  have wf: "bb_wf ?f"
    using b1(2) by (auto simp: bb_flip_def bb_wf_def split: sum.splits)
  have rem: "bb_remaining ?f = int (length xs)" and ptr: "bb_ptr ?f = bb_ptr b"
    by (simp_all add: bb_flip_def bb_remaining_def bb_ptr_def b1 assms(2))
  have "bb_content ?f = xs"
    using bb_content_after_put [OF assms(1,3) b1(1)] rem ptr by (simp add: bb_content_def bb_flip_def)
  then show ?thesis
    using bb_get_ok [OF wf, of "int (length xs)" dst] bb_wf_move [OF wf, of "int (length xs)"] rem b1(1) assms(4)
    by (simp add: bb_remaining_def)
qed

theorem bb_put_flip_get_witness:
  "\<exists>b b1 b2. ByteBuffer 4 = Inr b \<and> bb_put b [Some 7, Some 9] 2 = Inr b1 \<and>
    bb_get (bb_flip b1) [None, None] 2 = Inr ([Some 7, Some 9], 2, b2) \<and> bb_wf b2 \<and> bb_remaining b2 = 0"
proof -
  let ?b = "\<lparr>bb_limit = 4, bb_mark = -1, bb_position = 0,
    bb_data = [Some 0, Some 0, Some 0, Some 4, None, None, None, None]\<rparr>"
  have "ByteBuffer 4 = Inr ?b" "bb_wf ?b" "bb_position ?b = 0" "bb_remaining ?b = 4"
    by code_simp+
  with bb_put_flip_get [of ?b "[Some 7, Some 9]" "[None, None]"] show ?thesis by auto
qed

text \<open>
  Mark, put, reset, get: after \<open>reset\<close> the bytes put since the mark are read again, which brings
  the buffer back to the state after the put.
\<close>

lemma bb_mark_reset:
  assumes "bb_wf b" and "int (length xs) \<le> bb_remaining b" and "length dst = length xs"
  shows "\<exists>b1 b2. bb_put (bb_set_mark b) xs (int (length xs)) = Inr b1 \<and> bb_reset b1 = Inr b2 \<and>
    bb_position b2 = bb_position b \<and> bb_get b2 dst (int (length xs)) = Inr (xs, int (length xs), b1)"
proof -
  let ?m = "bb_set_mark b" and ?n = "int (length xs)"
  have wfm: "bb_wf ?m" and pm: "bb_position ?m = bb_position b" "bb_mark ?m = bb_position b"
      and rm: "?n \<le> bb_remaining ?m"
    using assms(1,2) by (auto simp: bb_set_mark_def bb_wf_def bb_remaining_def split: sum.splits)
  from bb_put_ok [OF wfm _ rm, of xs] obtain b1 where b1: "bb_put ?m xs ?n = Inr b1" "bb_wf b1"
    "bb_position b1 = bb_position b + ?n" "bb_limit b1 = bb_limit ?m" "bb_mark b1 = bb_position b"
    by (auto simp: pm)
  define b2 where "b2 = b1\<lparr>bb_position := bb_position b\<rparr>"
  from assms(1) have p: "0 \<le> bb_position b" by (rule bb_wfE)
  then have reset: "bb_reset b1 = Inr b2" by (simp add: bb_reset_def b1 b2_def)
  have wf2: "bb_wf b2" using b1 p by (auto simp: b2_def bb_wf_def split: sum.splits)
  have rem: "?n \<le> bb_remaining b2" using rm b1 by (simp add: b2_def bb_remaining_def pm)
  then have "take (length xs) (bb_content b2) = take (length xs) (drop (nat (bb_ptr b2)) (bb_data b2))"
    by (simp add: bb_content_def min_absorb1 le_nat_iff)
  then have "take (length xs) (bb_content b2) = xs"
    using bb_content_after_put [OF wfm rm b1(1)] by (simp add: b2_def bb_ptr_def pm)
  moreover have "b2\<lparr>bb_position := bb_position b2 + ?n\<rparr> = b1"
    by (simp add: b2_def b1(3) [symmetric])
  ultimately show ?thesis
    using bb_get_ok [OF wf2, of ?n dst] rem b1(1) reset assms(3) by (auto simp: b2_def min_def)
qed

text \<open>
  C30: the asserts bound lengths from above only. A negative length passes them: then \<open>put\<close> and
  \<open>get\<close> copy far over the end of the block, and \<open>skip\<close> moves the position back, in front of the
  data when the length exceeds the position.
\<close>

theorem bb_negative_lengths:
  assumes "bb_wf b" and "- (2 ^ 31) \<le> len" and "len < 0" and "length dst < 2 ^ 63"
  shows "bb_put b src len = Inl OutOfBounds \<and> bb_get b dst len = Inl OutOfBounds \<and>
    bb_skip b len = Inr (b\<lparr>bb_position := bb_position b + len\<rparr>)"
proof -
  from assms(1) obtain cap where "cap < 2 ^ 31" "length (bb_data b) = nat cap + 4"
    "0 \<le> bb_position b" "bb_position b \<le> bb_limit b" by (rule bb_wfE)
  moreover have "2 ^ 63 \<le> size_t_of_int len"
    using assms by (intro size_t_of_int_negative) auto
  moreover from calculation have "min len (bb_remaining b) = len"
    using assms by (simp add: bb_remaining_def)
  ultimately show ?thesis
    using assms by (auto simp: bb_put_def bb_get_def bb_skip_def memcpy_def bb_ptr_def bb_remaining_def Let_def)
qed

theorem bb_negative_lengths_witness:
  "\<exists>b. ByteBuffer 4 = Inr b \<and> bb_put b [Some 1] (-1) = Inl OutOfBounds \<and> bb_get b [] (-1) = Inl OutOfBounds \<and>
    bb_skip b (-1) = Inr (b\<lparr>bb_position := -1\<rparr>)"
proof -
  let ?b = "\<lparr>bb_limit = 4, bb_mark = -1, bb_position = 0,
    bb_data = [Some 0, Some 0, Some 0, Some 4, None, None, None, None]\<rparr>"
  have "ByteBuffer 4 = Inr ?b" "bb_wf ?b" "bb_position ?b = 0"
    by code_simp+
  with bb_negative_lengths [of ?b "-1" "[]" "[Some 1]"] show ?thesis by auto
qed

end
