(* ===== verification/Inet_Address.thy ===== *)
theory Inet_Address
  imports Decimal
begin

text \<open>
  \<^verbatim>\<open>src/InetAddress.cpp\<close> and \<^verbatim>\<open>mutiplex/InetAddress.h\<close>: an IPv4 address and a port, both in
  network byte order, with their textual form. \<open>inet_pton\<close> and \<open>inet_ntop\<close> belong to the C library
  and are parameters; the locale \<open>inet_text\<close> states what the code relies on, and the dotted-decimal
  functions at the end of the definitions meet it.
\<close>

section \<open>Definitions\<close>

text \<open>\<open>atoi\<close>: the value of a number that does not fit an \<open>int\<close> is undefined (\<open>None\<close>).\<close>

definition atoi :: "string \<Rightarrow> int option" where
  "atoi s =
     (let s = dropWhile is_space s;
          v = (case s of [] \<Rightarrow> 0
               | c # cs \<Rightarrow> if c = CHR ''-'' then - int (digits_value 0 cs)
                          else if c = CHR ''+'' then int (digits_value 0 cs)
                          else int (digits_value 0 s))
      in if - (2 ^ 31) \<le> v \<and> v < 2 ^ 31 then Some v else None)"

record inet_address =
  ia_port :: u16
  ia_ip :: u32

definition InetAddress_default :: inet_address where
  "InetAddress_default = \<lparr>ia_port = 0, ia_ip = 0\<rparr>"

definition InetAddress_of :: "u32 \<Rightarrow> u16 \<Rightarrow> inet_address" where
  "InetAddress_of ip port = \<lparr>ia_port = port, ia_ip = ip\<rparr>"

fun find_char :: "char \<Rightarrow> string \<Rightarrow> nat option" where
  "find_char c [] = None"
| "find_char c (x # xs) = (if x = c then Some 0 else map_option Suc (find_char c xs))"

definition c_str :: "string \<Rightarrow> string" where
  "c_str s = takeWhile (\<lambda>c. c \<noteq> CHR 0x00) s"

definition InetAddress_parse :: "(string \<Rightarrow> u32 option) \<Rightarrow> string \<Rightarrow> inet_address res" where
  "InetAddress_parse inet_pton addr =
     (case find_char (CHR '':'') addr of
        None \<Rightarrow> Inl (Thrown ''invalid addr'')
      | Some p \<Rightarrow>
          (let ip = take p addr; port = drop (p + 1) addr
           in case inet_pton (c_str ip) of
                None \<Rightarrow> Inl (Thrown ''invalid ip'')
              | Some ip_ \<Rightarrow>
                  (case atoi (c_str port) of
                     None \<Rightarrow> Inl (Undefined ''atoi'')
                   | Some n \<Rightarrow> Inr \<lparr>ia_port = htons (word_of_int n), ia_ip = ip_\<rparr>)))"

definition host_port :: "inet_address \<Rightarrow> u16" where
  "host_port a = ntohs (ia_port a)"

definition ip_str :: "(u32 \<Rightarrow> string) \<Rightarrow> inet_address \<Rightarrow> string" where
  "ip_str inet_ntop a = inet_ntop (ia_ip a)"

definition ia_to_string :: "(u32 \<Rightarrow> string) \<Rightarrow> inet_address \<Rightarrow> string" where
  "ia_to_string inet_ntop a = take 31 (inet_ntop (ia_ip a) @ '':'' @ dec_string (unat (host_port a)))"

text \<open>
  \<open>resolve\<close> asks \<open>getaddrinfo\<close> for candidates and takes the first it can connect to. The list is
  \<open>None\<close> when the lookup fails; \<open>socket\<close> and \<open>connect\<close> are the answers for a candidate. The loop
  also counts the descriptors it opens and closes.
\<close>

record addrinfo =
  ai_family :: int
  ai_ip :: u32
  ai_port :: u16

definition AF_INET :: int where "AF_INET = 2"

fun resolve_loop :: "(addrinfo \<Rightarrow> int) \<Rightarrow> (addrinfo \<Rightarrow> int) \<Rightarrow> addrinfo list \<Rightarrow>
    addrinfo option \<times> nat \<times> nat" where
  "resolve_loop socket connect [] = (None, 0, 0)"
| "resolve_loop socket connect (rp # rps) =
     (if socket rp = -1 then resolve_loop socket connect rps
      else if connect rp \<noteq> -1 then (Some rp, 1, 1)
      else (case resolve_loop socket connect rps of (r, opened, closed) \<Rightarrow> (r, opened + 1, closed + 1)))"

definition resolve :: "(addrinfo \<Rightarrow> int) \<Rightarrow> (addrinfo \<Rightarrow> int) \<Rightarrow> addrinfo list option \<Rightarrow>
    inet_address \<Rightarrow> bool \<times> inet_address" where
  "resolve socket connect result addr =
     (case result of
        None \<Rightarrow> (False, addr)
      | Some ais \<Rightarrow>
          (case fst (resolve_loop socket connect ais) of
             None \<Rightarrow> (False, addr)
           | Some rp \<Rightarrow>
               if ai_family rp = AF_INET then (True, InetAddress_of (ai_ip rp) (ai_port rp))
               else (False, addr)))"

section \<open>Reading a port\<close>

lemma atoi_dec_string:
  assumes "n < 2 ^ 31"
  shows "atoi (dec_string n) = Some (int n)"
proof -
  obtain c cs where s: "dec_string n = c # cs"
    using dec_string_nonempty by (cases "dec_string n") auto
  then have c: "is_digit c" using dec_string_digits [of n] by simp
  have "digits_value 0 (c # cs) = n" using digits_value_dec_string [of n] s by simp
  then show ?thesis
    using assms digit_not_special [OF c] by (simp add: atoi_def s Let_def del: digits_value.simps)
qed

section \<open>What the code relies on in inet\_pton and inet\_ntop\<close>

locale inet_text =
  fixes inet_pton :: "string \<Rightarrow> u32 option"
    and inet_ntop :: "u32 \<Rightarrow> string"
  assumes pton_ntop: "inet_pton (inet_ntop ip) = Some ip"
    and ntop_chars: "CHR '':'' \<notin> set (inet_ntop ip)" "CHR 0x00 \<notin> set (inet_ntop ip)"
    and ntop_length: "length (inet_ntop ip) \<le> 15"
begin

lemma to_string_complete:
  "ia_to_string inet_ntop a = inet_ntop (ia_ip a) @ '':'' @ dec_string (unat (host_port a))"
proof -
  have "unat (host_port a) < 2 ^ LENGTH(16)" by (rule unsigned_less)
  then have "length (dec_string (unat (host_port a))) \<le> 5"
    by (intro length_dec_string) simp_all
  then show ?thesis
    using ntop_length [of "ia_ip a"] by (simp add: ia_to_string_def)
qed

end

lemma find_char_append: "c \<notin> set xs \<Longrightarrow> find_char c (xs @ c # ys) = Some (length xs)"
  by (induction xs) auto

lemma c_str_id: "CHR 0x00 \<notin> set s \<Longrightarrow> c_str s = s"
  unfolding c_str_def by (subst takeWhile_eq_all_conv) auto

lemma dec_string_c_str: "c_str (dec_string n) = dec_string n"
  using dec_string_digits [of n] digit_not_special(6) by (intro c_str_id) (auto simp: list_all_iff)

context inet_text
begin

lemma parse_to_string: "InetAddress_parse inet_pton (ia_to_string inet_ntop a) = Inr a"
proof -
  let ?n = "unat (host_port a)"
  have "?n < 2 ^ LENGTH(16)" by (rule unsigned_less)
  then have "atoi (dec_string ?n) = Some (int ?n)"
    by (intro atoi_dec_string) simp
  moreover have "word_of_int (int ?n) = host_port a" by simp
  ultimately show ?thesis
    using ntop_chars [of "ia_ip a"]
    by (simp add: to_string_complete InetAddress_parse_def find_char_append c_str_id pton_ntop
        dec_string_c_str host_port_def)
qed

end

section \<open>Dotted decimal\<close>

definition dotted_ntop :: "u32 \<Rightarrow> string" where
  "dotted_ntop ip =
     (case map (\<lambda>b. dec_string (unat b)) (le_bytes ip) of
        [a, b, c, d] \<Rightarrow> a @ ''.'' @ b @ ''.'' @ c @ ''.'' @ d
      | _ \<Rightarrow> [])"

fun split_on :: "char \<Rightarrow> string \<Rightarrow> string list" where
  "split_on c [] = [[]]"
| "split_on c (x # xs) =
     (if x = c then [] # split_on c xs
      else (case split_on c xs of [] \<Rightarrow> [[x]] | y # ys \<Rightarrow> (x # y) # ys))"

definition octet :: "string \<Rightarrow> u8 option" where
  "octet s =
     (if s \<noteq> [] \<and> list_all is_digit s \<and> length s \<le> 3 \<and> (1 < length s \<longrightarrow> hd s \<noteq> CHR ''0'') \<and>
         digits_value 0 s \<le> 255
      then Some (of_nat (digits_value 0 s)) else None)"

definition dotted_pton :: "string \<Rightarrow> u32 option" where
  "dotted_pton s =
     (case map octet (split_on (CHR ''.'') s) of
        [Some a, Some b, Some c, Some d] \<Rightarrow> Some (of_le_bytes [a, b, c, d])
      | _ \<Rightarrow> None)"

lemma split_on_plain: "c \<notin> set xs \<Longrightarrow> split_on c xs = [xs]"
  by (induction xs) auto

lemma split_on_append: "c \<notin> set xs \<Longrightarrow> split_on c (xs @ c # ys) = xs # split_on c ys"
  by (induction xs) auto

lemma dec_string_leading: "0 < n \<Longrightarrow> hd (dec_string n) \<noteq> CHR ''0''"
proof (induction n rule: dec_string.induct)
  case (1 n)
  show ?case
  proof (cases "n < 10")
    case True
    then have "hd (dec_string n) = char_of (48 + n)" by (subst dec_string.simps) simp
    moreover have "(of_char (char_of (48 + n) :: char) :: nat) \<noteq> of_char (CHR ''0'')"
      using True 1 by (simp add: of_char_digit)
    ultimately show ?thesis by metis
  next
    case False
    with 1 show ?thesis
      by (subst dec_string.simps) (simp add: dec_string_nonempty)
  qed
qed

lemma octet_dec_string: "octet (dec_string (unat b)) = Some b"
proof -
  have "unat b < 2 ^ LENGTH(8)" by (rule unsigned_less)
  then have b: "unat b < 256" by simp
  have "hd (dec_string (unat b)) \<noteq> CHR ''0''" if "1 < length (dec_string (unat b))"
  proof (rule dec_string_leading)
    show "0 < unat b"
      using that by (subst (asm) dec_string.simps) (auto simp: gr0I split: if_splits)
  qed
  moreover have "length (dec_string (unat b)) \<le> 3"
    using b by (intro length_dec_string) simp_all
  ultimately show ?thesis
    using b by (simp add: octet_def dec_string_nonempty dec_string_digits digits_value_dec_string)
qed

lemma dot_not_in_dec: "CHR ''.'' \<notin> set (dec_string n)" "CHR '':'' \<notin> set (dec_string n)"
    "CHR 0x00 \<notin> set (dec_string n)"
proof -
  have d: "\<forall>c \<in> set (dec_string n). is_digit c"
    using dec_string_digits by (simp add: list_all_iff)
  then show "CHR ''.'' \<notin> set (dec_string n)" using digit_not_special(5) by blast
  from d show "CHR '':'' \<notin> set (dec_string n)" using digit_not_special(4) by blast
  from d show "CHR 0x00 \<notin> set (dec_string n)" using digit_not_special(6) by blast
qed

interpretation dotted: inet_text dotted_pton dotted_ntop
proof
  fix ip
  obtain a b c d where le: "le_bytes ip = [a, b, c, d]" by (simp add: le_bytes_def)
  then have n: "dotted_ntop ip = dec_string (unat a) @ CHR ''.'' # dec_string (unat b) @ CHR ''.'' #
      dec_string (unat c) @ CHR ''.'' # dec_string (unat d)"
    by (simp add: dotted_ntop_def)
  have "of_le_bytes [a, b, c, d] = ip" by (simp only: le [symmetric] of_le_bytes_le_bytes)
  then show "dotted_pton (dotted_ntop ip) = Some ip"
    by (simp add: n dotted_pton_def split_on_append split_on_plain dot_not_in_dec octet_dec_string)
  show "CHR '':'' \<notin> set (dotted_ntop ip)" "CHR 0x00 \<notin> set (dotted_ntop ip)"
    by (simp_all add: n dot_not_in_dec)
  have "length (dec_string (unat x)) \<le> 3" for x :: u8
  proof (intro length_dec_string)
    have "unat x < 2 ^ LENGTH(8)" by (rule unsigned_less)
    then show "unat x < 10 ^ 3" by simp
  qed simp
  from this [of a] this [of b] this [of c] this [of d]
  show "length (dotted_ntop ip) \<le> 15" by (simp add: n)
qed

lemma find_char_None: "c \<notin> set xs \<Longrightarrow> find_char c xs = None"
  by (induction xs) auto

lemma resolve_loop_eq:
  "fst (resolve_loop socket connect ais) =
     (case filter (\<lambda>rp. socket rp \<noteq> -1 \<and> connect rp \<noteq> -1) ais of [] \<Rightarrow> None | rp # _ \<Rightarrow> Some rp)"
  "fst (snd (resolve_loop socket connect ais)) = snd (snd (resolve_loop socket connect ais))"
  by (induction ais) (auto split: prod.splits)

section \<open>Properties\<close>

text \<open>
  C22: the textual form round-trips: parsing \<open>to_string\<close> of an address gives that address back, the
  32-byte buffer of \<open>to_string\<close> never truncates, and the text is the dotted address, a colon and the
  port in host order.
\<close>

theorem inet_parse_print:
  assumes "inet_text inet_pton inet_ntop"
  shows "InetAddress_parse inet_pton (ia_to_string inet_ntop a) = Inr a \<and>
    ia_to_string inet_ntop a = ip_str inet_ntop a @ '':'' @ dec_string (unat (host_port a))"
  using inet_text.parse_to_string [OF assms] inet_text.to_string_complete [OF assms]
  by (simp add: ip_str_def)

theorem inet_parse_print_witness:
  "InetAddress_parse dotted_pton ''127.0.0.1:443'' = Inr \<lparr>ia_port = 0xBB01, ia_ip = 0x0100007F\<rparr>"
proof -
  let ?a = "\<lparr>ia_port = 0xBB01, ia_ip = 0x0100007F\<rparr>"
  have "ia_to_string dotted_ntop ?a = ''127.0.0.1:443''"
    by code_simp
  with inet_parse_print [OF dotted.inet_text_axioms, of ?a] show ?thesis by metis
qed

text \<open>
  The constructor from text fails in exactly the announced ways: \<open>invalid addr\<close> without a colon,
  \<open>invalid ip\<close> when what stands before the first colon is not an address.
\<close>

lemma inet_parse_errors:
  assumes "CHR '':'' \<notin> set h"
  shows "InetAddress_parse inet_pton h = Inl (Thrown ''invalid addr'') \<and>
    (InetAddress_parse inet_pton (h @ '':'' @ t) = Inl (Thrown ''invalid ip'') \<longleftrightarrow> inet_pton (c_str h) = None)"
  using assms by (auto simp: InetAddress_parse_def find_char_None find_char_append split: option.splits)

text \<open>
  A port is not checked: the number is reduced modulo \<open>2 ^ 16\<close>, so a port of 65536 or more, or a
  negative one, is accepted and becomes another port.
\<close>

lemma inet_port_truncated:
  assumes "CHR '':'' \<notin> set h" and "inet_pton (c_str h) = Some ip" and "n < 2 ^ 31"
  shows "\<exists>a. InetAddress_parse inet_pton (h @ '':'' @ dec_string n) = Inr a \<and> ia_ip a = ip \<and>
    unat (host_port a) = n mod 2 ^ 16"
proof -
  have "atoi (c_str (dec_string n)) = Some (int n)"
    using assms(3) by (simp add: dec_string_c_str atoi_dec_string)
  then show ?thesis
    using assms(1,2) by (simp add: InetAddress_parse_def find_char_append host_port_def unat_of_nat)
qed

text \<open>
  C31: \<open>resolve\<close> reports the first candidate that a socket can be opened for and connected to, and
  only an IPv4 one; otherwise it fails and leaves the address alone. Every descriptor it opens on the
  way is closed.
\<close>

theorem resolve_first_reachable:
  "resolve socket connect result addr =
     (case result of None \<Rightarrow> (False, addr) | Some ais \<Rightarrow>
       (case filter (\<lambda>rp. socket rp \<noteq> -1 \<and> connect rp \<noteq> -1) ais of
          [] \<Rightarrow> (False, addr)
        | rp # _ \<Rightarrow> if ai_family rp = AF_INET then (True, \<lparr>ia_port = ai_port rp, ia_ip = ai_ip rp\<rparr>) else (False, addr))) \<and>
   fst (snd (resolve_loop socket connect ais)) = snd (snd (resolve_loop socket connect ais))"
  by (simp add: resolve_def resolve_loop_eq InetAddress_of_def split: option.splits list.splits)

end
