(* ===== verification/Event_Source.thy ===== *)
theory Event_Source
  imports Mux_Prelude
begin

text \<open>
  \<^verbatim>\<open>src/EventSource.h\<close>, \<^verbatim>\<open>src/EventSource.cpp\<close> and the three \<open>epoll_ctl\<close> wrappers of
  \<^verbatim>\<open>src/EventLoop.cpp\<close>. The interest list of the epoll instance is kernel state: a map from
  descriptors to event masks, with the documented behaviour of \<open>epoll_ctl\<close> (adding a watched
  descriptor fails with \<open>EEXIST\<close>, changing or deleting an unwatched one with \<open>ENOENT\<close>, a negative
  descriptor with \<open>EBADF\<close>). The code only logs a failure and goes on.
\<close>

section \<open>The kernel side\<close>

type_synonym epoll = "int \<rightharpoonup> u32"

definition EPOLLIN :: u32 where "EPOLLIN = 0x001"
definition EPOLLOUT :: u32 where "EPOLLOUT = 0x004"
definition EPOLLERR :: u32 where "EPOLLERR = 0x008"
definition EPOLLHUP :: u32 where "EPOLLHUP = 0x010"

lemmas epoll_masks = EPOLLIN_def EPOLLOUT_def EPOLLERR_def EPOLLHUP_def

definition epoll_add :: "int \<Rightarrow> u32 \<Rightarrow> epoll \<Rightarrow> epoll" where
  "epoll_add fd ev k = (if 0 \<le> fd \<and> k fd = None then k(fd \<mapsto> ev) else k)"

definition epoll_mod :: "int \<Rightarrow> u32 \<Rightarrow> epoll \<Rightarrow> epoll" where
  "epoll_mod fd ev k = (if k fd = None then k else k(fd \<mapsto> ev))"

definition epoll_del :: "int \<Rightarrow> epoll \<Rightarrow> epoll" where
  "epoll_del fd k = k(fd := None)"

section \<open>Definitions\<close>

datatype es_state = StateNoEvent | StateRegistered

record 'cb event_source =
  es_state :: es_state
  es_fd :: int
  es_interest :: u32
  es_ready :: u32
  es_read_callback :: "'cb option"
  es_write_callback :: "'cb option"
  es_close_callback :: "'cb option"
  es_error_callback :: "'cb option"

definition EventSource :: "int \<Rightarrow> 'cb event_source" where
  "EventSource fd = \<lparr>es_state = StateNoEvent, es_fd = fd, es_interest = 0, es_ready = 0,
     es_read_callback = None, es_write_callback = None, es_close_callback = None, es_error_callback = None\<rparr>"

definition register_event :: "'cb event_source \<Rightarrow> epoll \<Rightarrow> epoll" where
  "register_event ev k = epoll_add (es_fd ev) (es_interest ev) k"

definition unregister_event :: "'cb event_source \<Rightarrow> epoll \<Rightarrow> epoll" where
  "unregister_event ev k = epoll_del (es_fd ev) k"

definition modify_event :: "'cb event_source \<Rightarrow> epoll \<Rightarrow> epoll" where
  "modify_event ev k = epoll_mod (es_fd ev) (es_interest ev) k"

definition enable_ops :: "u32 \<Rightarrow> 'cb event_source \<times> epoll \<Rightarrow> 'cb event_source \<times> epoll" where
  "enable_ops op = (\<lambda>(es, k).
     let es = es\<lparr>es_interest := es_interest es OR op\<rparr>
     in if es_interest es \<noteq> 0 then
          (if es_state es = StateNoEvent
           then (let es = es\<lparr>es_state := StateRegistered\<rparr> in (es, register_event es k))
           else (es, modify_event es k))
        else (es, k))"

definition disable_ops :: "u32 \<Rightarrow> 'cb event_source \<times> epoll \<Rightarrow> 'cb event_source \<times> epoll" where
  "disable_ops op = (\<lambda>(es, k).
     let es = es\<lparr>es_interest := es_interest es AND NOT op\<rparr>
     in if es_interest es = 0
        then (let k = unregister_event es k in (es\<lparr>es_state := StateNoEvent\<rparr>, k))
        else (es, modify_event es k))"

definition disable_all :: "'cb event_source \<times> epoll \<Rightarrow> 'cb event_source \<times> epoll" where
  "disable_all = (\<lambda>(es, k).
     let es = es\<lparr>es_interest := 0\<rparr>
     in if es_state es = StateRegistered
        then (let k = unregister_event es k in (es\<lparr>es_state := StateNoEvent\<rparr>, k))
        else (es, k))"

definition enable_reading :: "'cb event_source \<times> epoll \<Rightarrow> 'cb event_source \<times> epoll" where
  "enable_reading = enable_ops EPOLLIN"

definition disable_reading :: "'cb event_source \<times> epoll \<Rightarrow> 'cb event_source \<times> epoll" where
  "disable_reading = disable_ops EPOLLIN"

definition enable_writing :: "'cb event_source \<times> epoll \<Rightarrow> 'cb event_source \<times> epoll" where
  "enable_writing = enable_ops EPOLLOUT"

definition disable_writing :: "'cb event_source \<times> epoll \<Rightarrow> 'cb event_source \<times> epoll" where
  "disable_writing = disable_ops EPOLLOUT"

text \<open>The slots of the callbacks.\<close>

definition set_reading_callback :: "'cb \<Rightarrow> 'cb event_source \<Rightarrow> 'cb event_source" where
  [simp]: "set_reading_callback cb es = es\<lparr>es_read_callback := Some cb\<rparr>"

definition set_writing_callback :: "'cb \<Rightarrow> 'cb event_source \<Rightarrow> 'cb event_source" where
  [simp]: "set_writing_callback cb es = es\<lparr>es_write_callback := Some cb\<rparr>"

definition set_close_callback :: "'cb \<Rightarrow> 'cb event_source \<Rightarrow> 'cb event_source" where
  [simp]: "set_close_callback cb es = es\<lparr>es_close_callback := Some cb\<rparr>"

definition set_error_callback :: "'cb \<Rightarrow> 'cb event_source \<Rightarrow> 'cb event_source" where
  [simp]: "set_error_callback cb es = es\<lparr>es_error_callback := Some cb\<rparr>"

definition set_ready_ops :: "u32 \<Rightarrow> 'cb event_source \<Rightarrow> 'cb event_source" where
  "set_ready_ops ops es = es\<lparr>es_ready := ops\<rparr>"

definition set_interest_ops :: "u32 \<Rightarrow> 'cb event_source \<Rightarrow> 'cb event_source" where
  "set_interest_ops ops es = es\<lparr>es_interest := ops\<rparr>"

text \<open>
  \<open>handle_events\<close>: which callbacks run, in which order, and whether \<open>disable_all\<close> follows. The
  conditions read only \<open>ready_ops_\<close> and the callback slots, which no callback of the library writes.
\<close>

definition handle_events :: "'cb event_source \<Rightarrow> 'cb list \<times> bool" where
  "handle_events es =
     (if es_ready es AND EPOLLERR \<noteq> 0 \<and> es_error_callback es \<noteq> None
      then ([the (es_error_callback es)], True)
      else if es_ready es AND EPOLLHUP \<noteq> 0 \<and> es_close_callback es \<noteq> None
      then ([the (es_close_callback es)], True)
      else ((if es_ready es AND EPOLLIN \<noteq> 0 \<and> es_read_callback es \<noteq> None then [the (es_read_callback es)] else []) @
            (if es_ready es AND EPOLLOUT \<noteq> 0 \<and> es_write_callback es \<noteq> None then [the (es_write_callback es)] else []),
            False))"

lemmas es_ops_defs [mux_defs] = enable_reading_def disable_reading_def enable_writing_def
  disable_writing_def enable_ops_def disable_ops_def disable_all_def

section \<open>The registration contract\<close>

text \<open>
  What an event source relies on in the loop that registers it: each wrapper changes the entry of
  the source's own descriptor and no other. The client lemma: the flag \<open>state_\<close> and the mask
  \<open>interest_ops_\<close> of the source always describe the kernel's entry.
\<close>

locale registrar =
  fixes reg unreg modi :: "'cb event_source \<Rightarrow> 'k \<Rightarrow> 'k"
    and watched :: "'k \<Rightarrow> int \<Rightarrow> u32 option"
  assumes reg_watched: "0 \<le> es_fd es \<Longrightarrow> watched k (es_fd es) = None \<Longrightarrow>
      watched (reg es k) = (watched k)(es_fd es \<mapsto> es_interest es)"
    and modi_watched: "watched k (es_fd es) \<noteq> None \<Longrightarrow>
      watched (modi es k) = (watched k)(es_fd es \<mapsto> es_interest es)"
    and unreg_watched: "watched (unreg es k) = (watched k)(es_fd es := None)"

definition in_sync :: "('k \<Rightarrow> int \<Rightarrow> u32 option) \<Rightarrow> 'cb event_source \<Rightarrow> 'k \<Rightarrow> bool" where
  "in_sync watched es k \<longleftrightarrow> 0 \<le> es_fd es \<and>
     (case es_state es of
        StateNoEvent \<Rightarrow> es_interest es = 0 \<and> watched k (es_fd es) = None
      | StateRegistered \<Rightarrow> es_interest es \<noteq> 0 \<and> watched k (es_fd es) = Some (es_interest es))"

text \<open>The operations over any registrar, and the history of an event source.\<close>

datatype es_op = Enable u32 | Disable u32 | Disable_all

fun es_exec :: "('cb event_source \<Rightarrow> 'k \<Rightarrow> 'k) \<Rightarrow> ('cb event_source \<Rightarrow> 'k \<Rightarrow> 'k) \<Rightarrow>
    ('cb event_source \<Rightarrow> 'k \<Rightarrow> 'k) \<Rightarrow> es_op \<Rightarrow> 'cb event_source \<times> 'k \<Rightarrow> 'cb event_source \<times> 'k" where
  "es_exec reg unreg modi (Enable op) (es, k) =
     (let es = es\<lparr>es_interest := es_interest es OR op\<rparr>
      in if es_interest es \<noteq> 0 then
           (if es_state es = StateNoEvent
            then (let es = es\<lparr>es_state := StateRegistered\<rparr> in (es, reg es k))
            else (es, modi es k))
         else (es, k))"
| "es_exec reg unreg modi (Disable op) (es, k) =
     (let es = es\<lparr>es_interest := es_interest es AND NOT op\<rparr>
      in if es_interest es = 0
         then (let k = unreg es k in (es\<lparr>es_state := StateNoEvent\<rparr>, k))
         else (es, modi es k))"
| "es_exec reg unreg modi Disable_all (es, k) =
     (let es = es\<lparr>es_interest := 0\<rparr>
      in if es_state es = StateRegistered
         then (let k = unreg es k in (es\<lparr>es_state := StateNoEvent\<rparr>, k))
         else (es, k))"

context registrar
begin

lemma exec_in_sync:
  assumes "in_sync watched es k" and "es_exec reg unreg modi op (es, k) = (es', k')"
  shows "in_sync watched es' k' \<and> es_fd es' = es_fd es \<and> (\<forall>fd. fd \<noteq> es_fd es \<longrightarrow> watched k' fd = watched k fd)"
  using assms by (cases op; cases "es_state es")
    (auto simp: in_sync_def Let_def reg_watched modi_watched unreg_watched or_eq_0_iff split: if_splits)

end

interpretation epoll: registrar register_event unregister_event modify_event "\<lambda>k :: epoll. k"
  by unfold_locales
    (auto simp: register_event_def unregister_event_def modify_event_def epoll_add_def epoll_mod_def epoll_del_def)

abbreviation epoll_exec :: "es_op \<Rightarrow> 'cb event_source \<times> epoll \<Rightarrow> 'cb event_source \<times> epoll" where
  "epoll_exec \<equiv> es_exec register_event unregister_event modify_event"

abbreviation es_synced :: "'cb event_source \<Rightarrow> epoll \<Rightarrow> bool" where
  "es_synced \<equiv> in_sync (\<lambda>k :: epoll. k)"

lemma es_ops_exec:
  "enable_ops op p = epoll_exec (Enable op) p"
  "disable_ops op p = epoll_exec (Disable op) p"
  "disable_all p = epoll_exec Disable_all p"
  by (cases p; simp add: enable_ops_def disable_ops_def disable_all_def Let_def)+


fun es_call :: "es_op \<Rightarrow> 'cb event_source \<times> epoll \<Rightarrow> 'cb event_source \<times> epoll" where
  "es_call (Enable op) = enable_ops op"
| "es_call (Disable op) = disable_ops op"
| "es_call Disable_all = disable_all"

lemma es_call_exec: "es_call op p = epoll_exec op p"
  by (cases op) (simp_all add: es_ops_exec)

lemma es_call_synced:
  assumes "es_synced es k" and "es_call op (es, k) = (es', k')"
  shows "es_synced es' k'" and "es_fd es' = es_fd es" and "fd \<noteq> es_fd es \<Longrightarrow> k' fd = k fd"
  using epoll.exec_in_sync [of es k op es' k'] assms by (auto simp: es_call_exec)

text \<open>The mask a sequence of calls asks for.\<close>

fun mask_step :: "u32 \<Rightarrow> es_op \<Rightarrow> u32" where
  "mask_step m (Enable op) = m OR op"
| "mask_step m (Disable op) = m AND NOT op"
| "mask_step m Disable_all = 0"

lemma es_call_interest: "es_interest (fst (es_call op (es, k))) = mask_step (es_interest es) op"
  by (cases op) (auto simp: enable_ops_def disable_ops_def disable_all_def Let_def)

lemma es_history:
  assumes "es_synced es k" and "fold es_call ops (es, k) = (es', k')"
  shows "es_synced es' k' \<and> es_fd es' = es_fd es \<and> es_interest es' = foldl mask_step (es_interest es) ops \<and>
    (\<forall>fd. fd \<noteq> es_fd es \<longrightarrow> k' fd = k fd)"
  using assms
proof (induction ops arbitrary: es k)
  case Nil
  then show ?case by simp
next
  case (Cons op ops)
  obtain es1 k1 where s: "es_call op (es, k) = (es1, k1)" by fastforce
  note one = es_call_synced [OF Cons.prems(1) s]
  have "es_interest es1 = mask_step (es_interest es) op"
    using es_call_interest [of op es k] s by simp
  with Cons.IH [OF one(1), of] Cons.prems(2) s one(2,3) show ?case by simp
qed

section \<open>Properties\<close>

text \<open>
  C20: after any sequence of enabling and disabling calls on a fresh event source of an open descriptor, the kernel watches
  its descriptor with exactly the mask the calls asked for, and does not watch it when that mask is
  empty; the flag of the source agrees, and no other descriptor is affected.
\<close>

theorem es_kernel_agrees:
  assumes "0 \<le> fd" and "k fd = None" and "fold es_call ops (EventSource fd, k) = (es, k')"
  shows "let m = foldl mask_step 0 ops
    in k' = (if m = 0 then k else k(fd \<mapsto> m)) \<and> es_interest es = m \<and>
       (es_state es = StateRegistered \<longleftrightarrow> m \<noteq> 0)"
proof -
  have "es_synced (EventSource fd) k"
    using assms(1,2) by (simp add: in_sync_def EventSource_def)
  from es_history [OF this assms(3)]
  have h: "es_synced es k'" "es_fd es = fd" "es_interest es = foldl mask_step 0 ops" "\<forall>x. x \<noteq> fd \<longrightarrow> k' x = k x"
    by (simp_all add: EventSource_def)
  have "k' x = (if es_interest es = 0 then k else k(fd \<mapsto> es_interest es)) x" for x
    using h(1,2,4) assms(2) by (cases "x = fd"; cases "es_state es") (auto simp: in_sync_def)
  moreover have "es_state es = StateRegistered \<longleftrightarrow> es_interest es \<noteq> 0"
    using h(1) by (cases "es_state es") (auto simp: in_sync_def)
  ultimately show ?thesis
    using h(3) by (auto simp: Let_def fun_eq_iff)
qed

theorem es_kernel_agrees_witness:
  "snd (fold es_call [Enable EPOLLIN, Enable EPOLLOUT, Disable EPOLLIN] (EventSource 5 :: unit event_source, Map.empty)) =
    [5 \<mapsto> EPOLLOUT]"
proof -
  let ?ops = "[Enable EPOLLIN, Enable EPOLLOUT, Disable EPOLLIN]"
  obtain es k where r: "fold es_call ?ops (EventSource 5 :: unit event_source, Map.empty) = (es, k)" by fastforce
  have m: "foldl mask_step 0 ?ops = EPOLLOUT" "EPOLLOUT \<noteq> 0" by code_simp+
  have "k = [5 \<mapsto> EPOLLOUT]"
    using es_kernel_agrees [OF _ _ r] by (simp only: m Let_def) simp
  with r show ?thesis by simp
qed

end
