(* ===== verification/Loop_State.thy ===== *)
theory Loop_State
  imports Circular_Buffer Byte_Buffer Inet_Address Event_Source "HOL-Library.AList" "HOL-Library.Sublist"
begin

text \<open>
  The state that one event loop and its connections share, and the primitive operations on it: the
  members of \<open>EventLoop\<close> (\<^verbatim>\<open>mutiplex/EventLoop.h\<close>) and \<open>Connection\<close> (\<^verbatim>\<open>mutiplex/Connection.h\<close>),
  the queues of deferred callbacks, and the lifetime of connections.

  A connection object has an identity (\<open>cid\<close>). The heap maps it to its members while the object is
  alive. \<open>ConnectionPtr\<close>s are held by the map \<open>connections_\<close>, by queued callbacks that captured
  \<open>shared_from_this()\<close>, and by the application; when the last one goes, the destructor runs. The
  callbacks of \<open>Connection::write(const void*, uint32_t)\<close> capture the bare \<open>this\<close> and hold nothing.
\<close>

section \<open>Connections\<close>

type_synonym cid = nat

datatype conn_state = New | Receiving | Disconnecting | Closed

datatype event_cb =
    OnConnRead cid | OnConnWrite cid | OnConnError cid
  | OnAccept | OnConnected nat | OnConnectError nat | OnNotify

record connection =
  cn_fd :: int
  cn_state :: conn_state
  cn_buffer_size :: u32
  cn_event_source :: "event_cb event_source option"
  cn_local :: inet_address
  cn_peer :: inet_address
  cn_established_callback :: bool
  cn_read_callback :: bool
  cn_closed_callback :: bool
  cn_error_callback :: bool
  cn_buffer_out :: "circular_buffer option"

text \<open>
  The callback members are flags: whether the slot holds a function. What the application does when
  it is called is the parameter \<open>app\<close> below.
\<close>

definition Connection :: "int \<Rightarrow> inet_address \<Rightarrow> inet_address \<Rightarrow> connection" where
  "Connection fd local peer = \<lparr>cn_fd = fd, cn_state = New, cn_buffer_size = 1024, cn_event_source = None,
     cn_local = local, cn_peer = peer, cn_established_callback = False, cn_read_callback = False,
     cn_closed_callback = False, cn_error_callback = False, cn_buffer_out = None\<rparr>"

definition is_closed :: "connection \<Rightarrow> bool" where
  "is_closed c \<longleftrightarrow> cn_state c = Closed \<or> cn_state c = Disconnecting"

definition has_bytes_to_write :: "connection \<Rightarrow> bool" where
  "has_bytes_to_write c \<longleftrightarrow> (case cn_buffer_out c of None \<Rightarrow> False | Some b \<Rightarrow> \<not> cb_empty b)"

definition local_port :: "connection \<Rightarrow> int" where
  "local_port c = uint (host_port (cn_local c))"

definition peer_port :: "connection \<Rightarrow> int" where
  "peer_port c = uint (host_port (cn_peer c))"

section \<open>Deferred callbacks\<close>

datatype task =
    TClose cid                   \<comment> \<open>the lambda of \<open>Connection::close\<close>\<close>
  | TForceClose cid              \<comment> \<open>the lambda of \<open>Connection::force_close\<close>\<close>
  | TWriteBuf cid nat            \<comment> \<open>\<open>write(const ByteBufferPtr&)\<close>: self and a shared buffer\<close>
  | TWriteRaw cid byte_buffer    \<comment> \<open>\<open>write(const void*, uint32_t)\<close>: bare this and a copy\<close>
  | TUser nat                    \<comment> \<open>a callback the application posted\<close>

fun task_holds :: "task \<Rightarrow> cid option" where
  "task_holds (TClose c) = Some c"
| "task_holds (TForceClose c) = Some c"
| "task_holds (TWriteBuf c b) = Some c"
| "task_holds (TWriteRaw c b) = None"
| "task_holds (TUser n) = None"

text \<open>The calls of the library into the application.\<close>

datatype uevent =
    UEstablished cid | URead cid "cell list" | UClosed cid | UError cid | UConnectError | UTask nat

section \<open>The world of one loop\<close>

text \<open>
  Besides the members of \<open>EventLoop\<close>: \<open>w_callbacks\<close> is the local vector \<open>callbacks\<close> of \<open>run\<close> (it keeps
  its captures until the iteration ends), \<open>w_bufs\<close> the shared \<open>ByteBuffer\<close>s of the application,
  \<open>w_held\<close> the \<open>ConnectionPtr\<close>s it keeps, \<open>w_frame\<close> the \<open>ConnectionPtr\<close>s that are arguments or local
  variables of calls in progress, \<open>w_eventfd\<close> the counter of the eventfd, \<open>w_closed\<close> the
  descriptors passed to \<open>close\<close>, \<open>w_log\<close> the calls into the application, \<open>w_wire\<close> the bytes the kernel
  took from each connection and \<open>w_queued\<close> (a history variable) the bytes \<open>do_write\<close> put into its buffer.
\<close>

record world =
  w_running :: bool
  w_epoll :: epoll
  w_eventfd :: nat
  w_events_size :: nat
  w_pending :: "task list"
  w_tasks :: "task list"
  w_callbacks :: "task list"
  w_connections :: "(int \<times> cid) list"
  w_recv :: "byte_buffer option"
  w_heap :: "cid \<rightharpoonup> connection"
  w_next :: cid
  w_bufs :: "nat \<rightharpoonup> byte_buffer"
  w_held :: "cid list"
  w_frame :: "cid list"
  w_closed :: "int list"
  w_log :: "uevent list"
  w_wire :: "(cid \<times> cell list) list"
  w_queued :: "(cid \<times> cell list) list"

definition EventLoop_members :: world where
  "EventLoop_members = \<lparr>w_running = True, w_epoll = Map.empty, w_eventfd = 0, w_events_size = 64, w_pending = [],
     w_tasks = [], w_callbacks = [], w_connections = [], w_recv = None, w_heap = Map.empty, w_next = 0,
     w_bufs = Map.empty, w_held = [], w_frame = [], w_closed = [], w_log = [], w_wire = [], w_queued = []\<rparr>"

definition allocate_receive_buffer :: "u32 \<Rightarrow> world \<Rightarrow> world res" where
  "allocate_receive_buffer capacity w =
     bindr (ByteBuffer (sint capacity)) (\<lambda>b. Inr (w\<lparr>w_recv := Some b\<rparr>))"

definition notify_event :: "world \<Rightarrow> world" where
  "notify_event w = w\<lparr>w_eventfd := w_eventfd w + 1\<rparr>"

definition stop :: "world \<Rightarrow> world" where
  "stop w = notify_event (w\<lparr>w_running := False\<rparr>)"

text \<open>\<open>here\<close>: the caller runs on the thread of the loop.\<close>

definition post_callback :: "bool \<Rightarrow> task \<Rightarrow> world \<Rightarrow> world" where
  "post_callback here t w =
     (if here then w\<lparr>w_tasks := w_tasks w @ [t]\<rparr>
      else notify_event (w\<lparr>w_pending := w_pending w @ [t]\<rparr>))"

section \<open>Objects\<close>

definition get_conn :: "cid \<Rightarrow> world \<Rightarrow> connection res" where
  "get_conn c w = (case w_heap w c of None \<Rightarrow> Inl UseAfterFree | Some cn \<Rightarrow> Inr cn)"

definition set_conn :: "cid \<Rightarrow> connection \<Rightarrow> world \<Rightarrow> world" where
  "set_conn c cn w = w\<lparr>w_heap := (w_heap w)(c \<mapsto> cn)\<rparr>"

text \<open>A call on \<open>event_source_\<close>, which may be null.\<close>

definition on_source :: "cid \<Rightarrow> (event_cb event_source \<times> epoll \<Rightarrow> event_cb event_source \<times> epoll) \<Rightarrow> world \<Rightarrow> world res" where
  "on_source c f w =
     bindr (get_conn c w) (\<lambda>cn.
     case cn_event_source cn of
       None \<Rightarrow> Inl NullDeref
     | Some es \<Rightarrow> (case f (es, w_epoll w) of (es', k) \<Rightarrow>
         Inr (set_conn c (cn\<lparr>cn_event_source := Some es'\<rparr>) (w\<lparr>w_epoll := k\<rparr>))))"

definition referenced :: "cid \<Rightarrow> world \<Rightarrow> bool" where
  "referenced c w \<longleftrightarrow>
     c \<in> set (map snd (w_connections w)) \<or>
     Some c \<in> set (map task_holds (w_tasks w @ w_pending w @ w_callbacks w)) \<or>
     c \<in> set (w_held w) \<or> c \<in> set (w_frame w)"

text \<open>\<open>~Connection\<close>: the event source unregisters itself, then the descriptor is closed.\<close>

definition destroy :: "cid \<Rightarrow> connection \<Rightarrow> world \<Rightarrow> world" where
  "destroy c cn w =
     (let k = (case cn_event_source cn of None \<Rightarrow> w_epoll w | Some es \<Rightarrow> snd (disable_all (es, w_epoll w)))
      in w\<lparr>w_epoll := k(cn_fd cn := None), w_closed := w_closed w @ [cn_fd cn], w_heap := (w_heap w)(c := None)\<rparr>)"

text \<open>A \<open>ConnectionPtr\<close> to \<open>c\<close> has gone.\<close>

definition release :: "cid \<Rightarrow> world \<Rightarrow> world" where
  "release c w =
     (case w_heap w c of None \<Rightarrow> w | Some cn \<Rightarrow> if referenced c w then w else destroy c cn w)"

fun release_opt :: "cid option \<Rightarrow> world \<Rightarrow> world" where
  "release_opt None w = w"
| "release_opt (Some c) w = release c w"

text \<open>Erasing the entry of a descriptor drops the \<open>ConnectionPtr\<close> in it.\<close>

definition remove_connection :: "int \<Rightarrow> world \<Rightarrow> world" where
  "remove_connection fd w =
     release_opt (map_of (w_connections w) fd) (w\<lparr>w_connections := AList.delete fd (w_connections w)\<rparr>)"

text \<open>
  A \<open>ConnectionPtr\<close> that lives as long as a call: made from the object (\<open>shared_from_this\<close>), gone when
  the call returns.
\<close>

fun with_ref :: "cid option \<Rightarrow> (world \<Rightarrow> world res) \<Rightarrow> world \<Rightarrow> world res" where
  "with_ref None f w = f w"
| "with_ref (Some c) f w =
     bindr (get_conn c w) (\<lambda>_.
     bindr (f (w\<lparr>w_frame := c # w_frame w\<rparr>)) (\<lambda>w.
     Inr (release c (w\<lparr>w_frame := remove1 c (w_frame w)\<rparr>))))"

lemmas loop_defs [mux_defs] = notify_event_def stop_def post_callback_def remove_connection_def
  get_conn_def set_conn_def

text \<open>The bytes of one connection in a history variable.\<close>

definition bytes_of :: "cid \<Rightarrow> (cid \<times> cell list) list \<Rightarrow> cell list" where
  "bytes_of c xs = concat (map snd (filter (\<lambda>p. fst p = c) xs))"

lemma bytes_of_simps [simp]:
  "bytes_of c [] = []"
  "bytes_of c (xs @ ys) = bytes_of c xs @ bytes_of c ys"
  "bytes_of c ((d, b) # xs) = (if d = c then b else []) @ bytes_of c xs"
  by (simp_all add: bytes_of_def)

definition unsent :: "connection \<Rightarrow> cell list" where
  "unsent cn = (case cn_buffer_out cn of None \<Rightarrow> [] | Some b \<Rightarrow> cb_contents b)"

lemma unsent_simps [simp]:
  "unsent (cn\<lparr>cn_event_source := e\<rparr>) = unsent cn"
  "unsent (cn\<lparr>cn_state := st\<rparr>) = unsent cn"
  "unsent (cn\<lparr>cn_buffer_out := Some b\<rparr>) = cb_contents b"
  by (simp_all add: unsent_def)

lemma has_bytes_iff: "has_bytes_to_write cn \<longleftrightarrow> unsent cn \<noteq> []"
  by (simp add: has_bytes_to_write_def unsent_def cb_empty_iff split: option.splits)

section \<open>The invariant\<close>

text \<open>
  The event source of a registered connection agrees with the kernel; the one exception is a
  connection that \<open>force_close\<close> closed, whose mask was zeroed without telling the kernel.
\<close>

definition slots_ok :: "cid \<Rightarrow> event_cb event_source \<Rightarrow> bool" where
  "slots_ok c es \<longleftrightarrow> es_read_callback es = Some (OnConnRead c) \<and> es_write_callback es = Some (OnConnWrite c) \<and>
     es_error_callback es = Some (OnConnError c) \<and> es_close_callback es = None"

definition source_ok :: "cid \<Rightarrow> epoll \<Rightarrow> connection \<Rightarrow> bool" where
  "source_ok c k cn \<longleftrightarrow> (case cn_event_source cn of None \<Rightarrow> False | Some es \<Rightarrow>
     es_fd es = cn_fd cn \<and> 0 \<le> cn_fd cn \<and> slots_ok c es \<and>
     (es_synced es k \<or> cn_state cn = Closed \<and> es_state es = StateRegistered \<and> es_interest es = 0))"

text \<open>
  The output buffer is well formed and its capacity is bounded by what was queued (\<open>q\<close>); a closed
  connection has nothing to send.
\<close>

definition buffer_ok :: "cell list \<Rightarrow> connection \<Rightarrow> bool" where
  "buffer_ok q cn \<longleftrightarrow> (case cn_buffer_out cn of None \<Rightarrow> True | Some b \<Rightarrow>
     cb_wf b \<and> unat (cb_capacity b) \<le> 2 + 4 * length q) \<and> (cn_state cn = Closed \<longrightarrow> unsent cn = [])"

text \<open>
  A receiving connection with unsent bytes waits for the descriptor to become writable, unless it is
  about to be closed by force.
\<close>

definition wakeup_ok :: "bool \<Rightarrow> connection \<Rightarrow> bool" where
  "wakeup_ok forced cn \<longleftrightarrow> forced \<or> (cn_state cn = Receiving \<and> unsent cn \<noteq> [] \<longrightarrow>
     (case cn_event_source cn of None \<Rightarrow> False | Some es \<Rightarrow> es_interest es AND EPOLLOUT \<noteq> 0))"

text \<open>What was sent (\<open>s\<close>) and is still in the buffer is what was queued (\<open>q\<close>), in order.\<close>

definition stream_ok :: "cell list \<Rightarrow> cell list \<Rightarrow> connection \<Rightarrow> bool" where
  "stream_ok q s cn \<longleftrightarrow>
     (if cn_state cn = Closed then faithful s (take (length s) q) else faithful (s @ unsent cn) q)"

definition conn_ok :: "cid \<Rightarrow> epoll \<Rightarrow> bool \<Rightarrow> cell list \<Rightarrow> cell list \<Rightarrow> connection \<Rightarrow> bool" where
  "conn_ok c k forced q s cn \<longleftrightarrow> cn_state cn \<noteq> New \<and> source_ok c k cn \<and> buffer_ok q cn \<and>
     wakeup_ok forced cn \<and> stream_ok q s cn"

abbreviation conn_ok_in :: "world \<Rightarrow> cid \<Rightarrow> connection \<Rightarrow> bool" where
  "conn_ok_in w c \<equiv> conn_ok c (w_epoll w) (TForceClose c \<in> set (w_tasks w))
     (bytes_of c (w_queued w)) (bytes_of c (w_wire w))"

definition world_wf :: "world \<Rightarrow> bool" where
  "world_wf w \<longleftrightarrow>
     (\<forall>c. referenced c w \<longrightarrow> w_heap w c \<noteq> None) \<and>
     (\<forall>c cn. w_heap w c = Some cn \<longrightarrow> conn_ok_in w c cn) \<and>
     (\<forall>c d cn dn. w_heap w c = Some cn \<longrightarrow> w_heap w d = Some dn \<longrightarrow> cn_fd cn = cn_fd dn \<longrightarrow> c = d) \<and>
     (\<forall>fd c cn. (fd, c) \<in> set (w_connections w) \<longrightarrow> w_heap w c = Some cn \<longrightarrow> cn_fd cn = fd) \<and>
     (case w_recv w of None \<Rightarrow> True | Some b \<Rightarrow> bb_wf b) \<and>
     (\<forall>c. w_next w \<le> c \<longrightarrow> w_heap w c = None \<and> bytes_of c (w_queued w) = [] \<and> bytes_of c (w_wire w) = []) \<and>
     (\<forall>c. faithful (bytes_of c (w_wire w)) (take (length (bytes_of c (w_wire w))) (bytes_of c (w_queued w))))"

lemma world_wf_members: "world_wf EventLoop_members"
  by (simp add: world_wf_def EventLoop_members_def referenced_def)

lemma world_wfD:
  assumes "world_wf w"
  shows "referenced c w \<Longrightarrow> w_heap w c \<noteq> None"
    and "w_heap w c = Some cn \<Longrightarrow> conn_ok_in w c cn"
    and "w_heap w c = Some cn \<Longrightarrow> w_heap w d = Some dn \<Longrightarrow> cn_fd cn = cn_fd dn \<Longrightarrow> c = d"
    and "(fd, c) \<in> set (w_connections w) \<Longrightarrow> w_heap w c = Some cn \<Longrightarrow> cn_fd cn = fd"
    and "w_recv w = Some b \<Longrightarrow> bb_wf b"
    and "w_next w \<le> c \<Longrightarrow> w_heap w c = None \<and> bytes_of c (w_queued w) = [] \<and> bytes_of c (w_wire w) = []"
    and "faithful (bytes_of c (w_wire w)) (take (length (bytes_of c (w_wire w))) (bytes_of c (w_queued w)))"
  using assms unfolding world_wf_def by (blast | simp)+

lemma source_ok_cong:
  assumes "source_ok c k cn" and "k' (cn_fd cn) = k (cn_fd cn)"
  shows "source_ok c k' cn"
  using assms by (auto simp: source_ok_def in_sync_def split: option.splits es_state.splits)

lemma conn_ok_cong:
  "conn_ok c k f q s cn \<Longrightarrow> k' (cn_fd cn) = k (cn_fd cn) \<Longrightarrow> f \<longrightarrow> f' \<Longrightarrow> conn_ok c k' f' q s cn"
  by (auto simp: conn_ok_def wakeup_ok_def intro: source_ok_cong)

lemma stream_ok_prefix: "stream_ok q s cn \<Longrightarrow> faithful s (take (length s) q)"
  using faithful_take [of "s @ unsent cn" q "length s"] by (auto simp: stream_ok_def split: if_splits)

text \<open>Changing one connection, its history and the kernel's entry for its descriptor.\<close>

lemma world_wf_update:
  assumes wf: "world_wf w" and c: "w_heap w c = Some cn" and fd: "cn_fd cn' = cn_fd cn"
    and ok: "conn_ok c k (TForceClose c \<in> set (w_tasks w)) (bytes_of c qs) (bytes_of c ss) cn'"
    and k: "\<And>x. x \<noteq> cn_fd cn \<Longrightarrow> k x = w_epoll w x"
    and q: "\<And>d. d \<noteq> c \<Longrightarrow> bytes_of d qs = bytes_of d (w_queued w)"
    and s: "\<And>d. d \<noteq> c \<Longrightarrow> bytes_of d ss = bytes_of d (w_wire w)"
  shows "world_wf (w\<lparr>w_epoll := k, w_heap := (w_heap w)(c \<mapsto> cn'), w_queued := qs, w_wire := ss\<rparr>)"
proof -
  let ?w = "w\<lparr>w_epoll := k, w_heap := (w_heap w)(c \<mapsto> cn'), w_queued := qs, w_wire := ss\<rparr>"
  have other: "conn_ok d k (TForceClose d \<in> set (w_tasks w)) (bytes_of d qs) (bytes_of d ss) dn"
      "cn_fd dn \<noteq> cn_fd cn" if "w_heap w d = Some dn" "d \<noteq> c" for d dn
  proof -
    show "cn_fd dn \<noteq> cn_fd cn" using world_wfD(3) [OF wf that(1) c] that(2) by blast
    then show "conn_ok d k (TForceClose d \<in> set (w_tasks w)) (bytes_of d qs) (bytes_of d ss) dn"
      using conn_ok_cong [OF world_wfD(2) [OF wf that(1)], of k] that(2) by (simp add: k q s)
  qed
  have r: "referenced d ?w \<longleftrightarrow> referenced d w" for d by (simp add: referenced_def)
  have p: "faithful (bytes_of d ss) (take (length (bytes_of d ss)) (bytes_of d qs))" for d
    using ok world_wfD(7) [OF wf, of d] by (cases "d = c") (auto simp: conn_ok_def q s stream_ok_prefix)
  have n: "c < w_next w" using world_wfD(6) [OF wf, of c] c by (cases "c < w_next w") auto
  show ?thesis
    unfolding world_wf_def
  proof (intro conjI allI impI)
    fix a b an bn assume "w_heap ?w a = Some an" "w_heap ?w b = Some bn" "cn_fd an = cn_fd bn"
    then show "a = b"
      using world_wfD(3) [OF wf, of a an b bn] other(2) [of a an] other(2) [of b bn] fd
      by (auto split: if_splits)
  next
    fix x d dn assume "(x, d) \<in> set (w_connections ?w)" "w_heap ?w d = Some dn"
    then show "cn_fd dn = x" using world_wfD(4) [OF wf, of x d] c fd by (auto split: if_splits)
  next
    show "case w_recv ?w of None \<Rightarrow> True | Some b \<Rightarrow> bb_wf b" using wf by (simp add: world_wf_def)
  qed (use ok other p n world_wfD(1) [OF wf] world_wfD(6) [OF wf] in \<open>auto simp: r q s split: if_splits\<close>)
qed

lemma world_wf_set_conn:
  assumes "world_wf w" and "w_heap w c = Some cn" and "cn_fd cn' = cn_fd cn" and "conn_ok_in w c cn'"
  shows "world_wf (set_conn c cn' w)"
  using world_wf_update [OF assms(1-3), of "w_epoll w" "w_queued w" "w_wire w"] assms(4) by (simp add: set_conn_def)

text \<open>Fields the invariant does not mention, and queues that shrink.\<close>

lemma world_wf_fields:
  assumes "world_wf w"
  shows "world_wf (w\<lparr>w_log := x\<rparr>)" "world_wf (w\<lparr>w_bufs := z\<rparr>)" "world_wf (w\<lparr>w_running := r\<rparr>)"
    "world_wf (w\<lparr>w_eventfd := e\<rparr>)" "world_wf (w\<lparr>w_events_size := e\<rparr>)"
  using assms by (simp_all add: world_wf_def referenced_def)

lemma world_wf_recv: "world_wf w \<Longrightarrow> bb_wf b \<Longrightarrow> world_wf (w\<lparr>w_recv := Some b\<rparr>)"
  by (simp add: world_wf_def referenced_def)

lemma world_wf_post:
  assumes wf: "world_wf w" and t: "\<And>c. task_holds t = Some c \<Longrightarrow> w_heap w c \<noteq> None"
  shows "world_wf (post_callback here t w)"
proof -
  have "conn_ok_in (post_callback here t w) c cn" if "w_heap w c = Some cn" for c cn
    using conn_ok_cong [OF world_wfD(2) [OF wf that]]
    by (simp add: post_callback_def notify_event_def)
  then show ?thesis
    using wf t unfolding world_wf_def
    by (auto simp: referenced_def post_callback_def notify_event_def)
qed

text \<open>Fewer references, the same objects.\<close>

lemma world_wf_fewer:
  assumes "world_wf w" and "\<And>c. referenced c w' \<Longrightarrow> referenced c w"
    and "set (w_connections w') \<subseteq> set (w_connections w)"
    and "w_heap w' = w_heap w" "w_epoll w' = w_epoll w" "w_recv w' = w_recv w" "w_next w' = w_next w"
      "w_queued w' = w_queued w" "w_wire w' = w_wire w"
    and "\<And>c cn. TForceClose c \<in> set (w_tasks w) \<Longrightarrow> TForceClose c \<notin> set (w_tasks w') \<Longrightarrow>
      w_heap w c = Some cn \<Longrightarrow> cn_state cn \<noteq> Receiving"
  shows "world_wf w'"
proof -
  have "conn_ok_in w' c cn" if "w_heap w c = Some cn" for c cn
    using world_wfD(2) [OF assms(1) that] assms(10) [OF _ _ that] assms(4-9)
    by (auto simp: conn_ok_def wakeup_ok_def)
  moreover have "cn_fd cn = fd" if "(fd, c) \<in> set (w_connections w')" "w_heap w c = Some cn" for fd c cn
    using world_wfD(4) [OF assms(1) _ that(2)] that(1) assms(3) by blast
  ultimately show ?thesis
    using assms(1,2,4-9) unfolding world_wf_def by auto
qed

lemma disable_all_epoll: "snd (disable_all (es, k)) = k \<or> snd (disable_all (es, k)) = k(es_fd es := None)"
  by (auto simp: disable_all_def Let_def unregister_event_def epoll_del_def)

lemma destroy_epoll: "source_ok d k' cn \<Longrightarrow> w_epoll (destroy c cn w) = (w_epoll w)(cn_fd cn := None)"
  using disable_all_epoll [of "the (cn_event_source cn)" "w_epoll w"]
  by (auto simp: source_ok_def destroy_def split: option.splits)

lemma world_wf_destroy:
  assumes wf: "world_wf w" and c: "w_heap w c = Some cn" and nr: "\<not> referenced c w"
  shows "world_wf (destroy c cn w)"
proof -
  have k: "w_epoll (destroy c cn w) = (w_epoll w)(cn_fd cn := None)"
    using world_wfD(2) [OF wf c] by (auto simp: conn_ok_def intro: destroy_epoll)
  have "conn_ok_in (destroy c cn w) d dn" if "w_heap w d = Some dn" "d \<noteq> c" for d dn
  proof -
    have "cn_fd dn \<noteq> cn_fd cn" using world_wfD(3) [OF wf that(1) c] that(2) by blast
    then have "conn_ok d ((w_epoll w)(cn_fd cn := None)) (TForceClose d \<in> set (w_tasks w))
        (bytes_of d (w_queued w)) (bytes_of d (w_wire w)) dn"
      by (intro conn_ok_cong [OF world_wfD(2) [OF wf that(1)]]) simp_all
    then show ?thesis by (simp add: k) (simp add: destroy_def Let_def)
  qed
  then show ?thesis
    using wf nr unfolding world_wf_def
    by (auto simp: destroy_def Let_def referenced_def split: if_splits)
qed

lemma world_wf_release: "world_wf w \<Longrightarrow> world_wf (release c w)"
  by (auto simp: release_def world_wf_destroy split: option.splits)

lemma world_wf_release_opt: "world_wf w \<Longrightarrow> world_wf (release_opt r w)"
  by (cases r) (simp_all add: world_wf_release)

section \<open>How the world evolves\<close>

text \<open>
  What no operation undoes: the histories and the two callback queues grow at their end, a posted
  callback leaves the eventfd readable, a stopped loop stays stopped, a destroyed object stays
  destroyed, a connection keeps its descriptor and stays closed once it is closed, and the
  descriptors that belong to no connection stay registered as they are (those in \<open>X\<close> excepted).
\<close>

definition obj_grows :: "connection option \<Rightarrow> connection option \<Rightarrow> bool" where
  "obj_grows r r' \<longleftrightarrow> (case r' of None \<Rightarrow> True | Some cn' \<Rightarrow>
     (case r of None \<Rightarrow> False | Some cn \<Rightarrow>
        cn_fd cn' = cn_fd cn \<and> (cn_state cn = Closed \<longrightarrow> cn_state cn' = Closed)))"

lemma obj_grows_simps [simp]:
  "obj_grows r None" "obj_grows r r"
  "obj_grows (Some cn) (Some cn') \<longleftrightarrow> cn_fd cn' = cn_fd cn \<and> (cn_state cn = Closed \<longrightarrow> cn_state cn' = Closed)"
  "\<not> obj_grows None (Some cn)"
  by (simp_all add: obj_grows_def split: option.splits)

lemma obj_grows_trans: "obj_grows r r' \<Longrightarrow> obj_grows r' r'' \<Longrightarrow> obj_grows r r''"
  by (cases r; cases r'; cases r'') auto

definition grows :: "world \<Rightarrow> world \<Rightarrow> bool" where
  "grows w w' \<longleftrightarrow>
     prefix (w_log w) (w_log w') \<and> prefix (w_queued w) (w_queued w') \<and> prefix (w_wire w) (w_wire w') \<and>
     prefix (w_tasks w) (w_tasks w') \<and> w_callbacks w' = w_callbacks w \<and>
     prefix (w_pending w) (w_pending w') \<and> w_eventfd w \<le> w_eventfd w' \<and>
     (w_pending w' = w_pending w \<or> 0 < w_eventfd w') \<and> (w_running w' \<longrightarrow> w_running w) \<and>
     w_next w \<le> w_next w'"

definition unowned :: "int \<Rightarrow> world \<Rightarrow> bool" where
  "unowned fd w \<longleftrightarrow> (\<forall>c cn. w_heap w c = Some cn \<longrightarrow> cn_fd cn \<noteq> fd)"

definition objs_grow :: "int set \<Rightarrow> world \<Rightarrow> world \<Rightarrow> bool" where
  "objs_grow X w w' \<longleftrightarrow> (\<forall>c<w_next w. obj_grows (w_heap w c) (w_heap w' c)) \<and>
     (\<forall>fd. fd \<notin> X \<longrightarrow> unowned fd w \<longrightarrow> unowned fd w' \<and> w_epoll w' fd = w_epoll w fd)"

text \<open>The bound below which no output buffer comes near the limits of \<open>CircularBuffer\<close>.\<close>

definition within_quota :: "world \<Rightarrow> bool" where
  "within_quota w \<longleftrightarrow> (\<forall>c. length (bytes_of c (w_queued w)) \<le> 2 ^ 28)"

definition evolves_but :: "int set \<Rightarrow> world \<Rightarrow> world \<Rightarrow> bool" where
  "evolves_but X w w' \<longleftrightarrow>
     grows w w' \<and> (world_wf w \<longrightarrow> within_quota w' \<longrightarrow> world_wf w' \<and> objs_grow X w w')"

abbreviation evolves :: "world \<Rightarrow> world \<Rightarrow> bool" where
  "evolves \<equiv> evolves_but {}"

lemma grows_refl [simp]: "grows w w"
  by (simp add: grows_def)

lemma grows_trans: "grows w w' \<Longrightarrow> grows w' w'' \<Longrightarrow> grows w w''"
  unfolding grows_def by (auto intro: prefix_order.order_trans)

lemma objs_grow_refl [simp]: "objs_grow X w w"
  by (simp add: objs_grow_def)

lemma objs_grow_next_trans:
  assumes "w_next w \<le> w_next w'" "objs_grow X w w'" "objs_grow X w' w''"
  shows "objs_grow X w w''"
proof -
  have "obj_grows (w_heap w c) (w_heap w'' c)" if "c < w_next w" for c
    using assms that obj_grows_trans [of "w_heap w c" "w_heap w' c" "w_heap w'' c"] by (simp add: objs_grow_def)
  then show ?thesis using assms by (simp add: objs_grow_def)
qed

lemma objs_grow_trans: "grows w w' \<Longrightarrow> objs_grow X w w' \<Longrightarrow> objs_grow X w' w'' \<Longrightarrow> objs_grow X w w''"
  by (rule objs_grow_next_trans) (simp_all add: grows_def)

lemma objs_grow_mono: "objs_grow X w w' \<Longrightarrow> X \<subseteq> Y \<Longrightarrow> objs_grow Y w w'"
  by (auto simp: objs_grow_def)

lemma bytes_of_prefix: "prefix xs ys \<Longrightarrow> prefix (bytes_of c xs) (bytes_of c ys)"
  by (auto simp: prefix_def)

lemma within_quota_grows: "grows w w' \<Longrightarrow> within_quota w' \<Longrightarrow> within_quota w"
  unfolding grows_def within_quota_def by (meson bytes_of_prefix prefix_length_le order_trans)

lemma evolves_refl [simp]: "evolves_but X w w"
  by (simp add: evolves_but_def)

lemma evolves_trans [trans]: "evolves_but X w w' \<Longrightarrow> evolves_but X w' w'' \<Longrightarrow> evolves_but X w w''"
  unfolding evolves_but_def by (blast intro: grows_trans objs_grow_trans within_quota_grows)

lemma evolves_mono: "evolves w w' \<Longrightarrow> evolves_but X w w'"
  unfolding evolves_but_def by (blast intro: objs_grow_mono)

text \<open>An operation with a result \<open>r\<close> keeps the laws when it evolves the world or faults.\<close>

definition lawful_but :: "int set \<Rightarrow> world \<Rightarrow> world res \<Rightarrow> bool" where
  "lawful_but X w r \<longleftrightarrow> (\<forall>w'. r = Inr w' \<longrightarrow> evolves_but X w w')"

abbreviation lawful :: "world \<Rightarrow> world res \<Rightarrow> bool" where
  "lawful \<equiv> lawful_but {}"

lemma lawful_Inr [simp]: "lawful_but X w (Inr w') \<longleftrightarrow> evolves_but X w w'" and lawful_Inl [simp]: "lawful_but X w (Inl e)"
  by (simp_all add: lawful_but_def)

lemma lawful_bindr:
  "lawful_but X w m \<Longrightarrow> (\<And>w'. m = Inr w' \<Longrightarrow> lawful_but X w' (f w')) \<Longrightarrow> lawful_but X w (bindr m f)"
  unfolding lawful_but_def bindr_eq_Inr_iff by (blast intro: evolves_trans)

lemma lawful_trans: "evolves_but X w w' \<Longrightarrow> lawful_but X w' r \<Longrightarrow> lawful_but X w r"
  unfolding lawful_but_def by (blast intro: evolves_trans)

lemma lawful_mono: "lawful w r \<Longrightarrow> lawful_but X w r"
  unfolding lawful_but_def by (blast intro: evolves_mono)

subsection \<open>The primitives\<close>

lemma evolves_fields [simp]:
  "evolves w (w\<lparr>w_log := w_log w @ x\<rparr>)" "evolves w (w\<lparr>w_bufs := z\<rparr>)" "evolves w (w\<lparr>w_running := False\<rparr>)"
  "evolves w (w\<lparr>w_eventfd := w_eventfd w + n\<rparr>)" "evolves w (w\<lparr>w_events_size := n\<rparr>)"
  by (auto simp: evolves_but_def grows_def objs_grow_def unowned_def world_wf_fields)

lemma evolves_recv: "(world_wf w \<Longrightarrow> bb_wf b) \<Longrightarrow> evolves w (w\<lparr>w_recv := Some b\<rparr>)"
  by (auto simp: evolves_but_def grows_def objs_grow_def unowned_def world_wf_recv)

lemma evolves_stop: "evolves w (stop w)"
  unfolding stop_def notify_event_def using evolves_trans [OF evolves_fields(3) evolves_fields(4) [of _ 1]] by simp

lemma evolves_post:
  assumes "\<And>c. task_holds t = Some c \<Longrightarrow> w_heap w c \<noteq> None"
  shows "evolves w (post_callback here t w)"
  unfolding evolves_but_def using assms
  by (auto simp: world_wf_post) (auto simp: grows_def objs_grow_def unowned_def post_callback_def notify_event_def)

lemma release_objs:
  assumes "world_wf w"
  shows "objs_grow X w (release c w)"
proof (cases "w_heap w c = None \<or> referenced c w")
  case False
  then obtain cn where c: "w_heap w c = Some cn" and "release c w = destroy c cn w" by (auto simp: release_def)
  moreover have "w_epoll (destroy c cn w) = (w_epoll w)(cn_fd cn := None)"
    using world_wfD(2) [OF assms c] by (auto simp: conn_ok_def intro: destroy_epoll)
  moreover have "w_heap (destroy c cn w) = (w_heap w)(c := None)" by (simp add: destroy_def Let_def)
  ultimately show ?thesis by (auto simp: objs_grow_def unowned_def)
qed (auto simp: release_def split: option.splits)

lemma evolves_release: "evolves w (release c w)"
  unfolding evolves_but_def
  using world_wf_release [of w c] release_objs [of w "{}" c]
  by (auto simp: grows_def release_def destroy_def Let_def split: option.splits)

lemma evolves_release_opt: "evolves w (release_opt r w)"
  by (cases r) (simp_all add: evolves_release)

lemma world_wf_erase: "world_wf w \<Longrightarrow> world_wf (w\<lparr>w_connections := AList.delete fd (w_connections w)\<rparr>)"
  by (rule world_wf_fewer [of w]) (auto simp: referenced_def AList.delete_eq)

lemma evolves_remove: "evolves w (remove_connection fd w)"
proof -
  have "evolves w (w\<lparr>w_connections := AList.delete fd (w_connections w)\<rparr>)"
    unfolding evolves_but_def by (auto simp: world_wf_erase) (auto simp: grows_def objs_grow_def unowned_def)
  then show ?thesis unfolding remove_connection_def by (rule evolves_trans [OF _ evolves_release_opt])
qed

lemma evolves_hold: "w_heap w c \<noteq> None \<Longrightarrow>
    evolves w (w\<lparr>w_frame := c # w_frame w\<rparr>) \<and> evolves w (w\<lparr>w_held := c # w_held w\<rparr>)"
  unfolding evolves_but_def grows_def objs_grow_def unowned_def world_wf_def referenced_def by (auto split: option.splits)

lemma evolves_drop: "evolves w (w\<lparr>w_frame := remove1 c (w_frame w)\<rparr>)" "evolves w (w\<lparr>w_held := remove1 c (w_held w)\<rparr>)"
  unfolding evolves_but_def grows_def objs_grow_def unowned_def
  by (auto intro!: world_wf_fewer [of w] simp: referenced_def dest: subsetD [OF set_remove1_subset])

lemma lawful_with_ref:
  assumes "\<And>w. lawful w (f w)"
  shows "lawful w (with_ref r f w)"
proof (cases r)
  case (Some c)
  have "lawful w (bindr (f (w\<lparr>w_frame := c # w_frame w\<rparr>)) (\<lambda>w.
      Inr (release c (w\<lparr>w_frame := remove1 c (w_frame w)\<rparr>))))" if "w_heap w c \<noteq> None"
    using evolves_hold [OF that]
    by (intro lawful_trans [OF _ lawful_bindr [OF assms]])
      (auto intro: evolves_trans [OF evolves_drop(1) evolves_release])
  then show ?thesis by (auto simp: Some get_conn_def split: option.splits)
qed (use assms in simp)

text \<open>Changing one connection.\<close>

lemma evolves_update:
  assumes c: "w_heap w c = Some cn" and fd: "cn_fd cn' = cn_fd cn"
    and closed: "conn_ok_in w c cn \<Longrightarrow> cn_state cn = Closed \<Longrightarrow> cn_state cn' = Closed"
    and k: "\<And>x. world_wf w \<Longrightarrow> x \<noteq> cn_fd cn \<Longrightarrow> k x = w_epoll w x"
    and ok: "world_wf w \<Longrightarrow> conn_ok_in w c cn \<Longrightarrow>
      within_quota (w\<lparr>w_queued := w_queued w @ map (Pair c) qs\<rparr>) \<Longrightarrow>
      conn_ok c k (TForceClose c \<in> set (w_tasks w)) (bytes_of c (w_queued w) @ concat qs)
        (bytes_of c (w_wire w) @ concat ss) cn'"
  shows "evolves w (w\<lparr>w_epoll := k, w_heap := (w_heap w)(c \<mapsto> cn'),
    w_queued := w_queued w @ map (Pair c) qs, w_wire := w_wire w @ map (Pair c) ss\<rparr>)"
proof -
  have b: "bytes_of d (map (Pair c) xs) = (if d = c then concat xs else [])" for d and xs :: "cell list list"
    by (induction xs) auto
  let ?w = "w\<lparr>w_epoll := k, w_heap := (w_heap w)(c \<mapsto> cn'),
    w_queued := w_queued w @ map (Pair c) qs, w_wire := w_wire w @ map (Pair c) ss\<rparr>"
  have "world_wf ?w" if "world_wf w" "within_quota ?w"
    using that ok [OF that(1) world_wfD(2) [OF that(1) c]]
    by (intro world_wf_update [OF that(1) c fd]) (auto simp: b k within_quota_def)
  moreover have "objs_grow {} w ?w" if "world_wf w"
    using c fd closed [OF world_wfD(2) [OF that c]] k [OF that]
    by (auto simp: objs_grow_def unowned_def) metis
  ultimately show ?thesis unfolding evolves_but_def grows_def by auto
qed

lemma evolves_set_conn:
  assumes "w_heap w c = Some cn" and "cn_fd cn' = cn_fd cn"
    and "conn_ok_in w c cn \<Longrightarrow> cn_state cn = Closed \<Longrightarrow> cn_state cn' = Closed" and "conn_ok_in w c cn \<Longrightarrow> conn_ok_in w c cn'"
  shows "evolves w (set_conn c cn' w)"
  using evolves_update [OF assms(1-3), of "w_epoll w" "[]" "[]"] assms(4) by (simp add: set_conn_def)

subsection \<open>Calls on the event source of a connection\<close>

fun is_enable :: "es_op \<Rightarrow> bool" where
  "is_enable (Enable x) = True"
| "is_enable _ = False"

fun keeps_out :: "es_op \<Rightarrow> bool" where
  "keeps_out (Enable x) = True"
| "keeps_out (Disable x) = (x AND EPOLLOUT = 0)"
| "keeps_out Disable_all = False"

lemma es_ops_call:
  "enable_reading = es_call (Enable EPOLLIN)" "enable_writing = es_call (Enable EPOLLOUT)"
  "disable_reading = es_call (Disable EPOLLIN)" "disable_writing = es_call (Disable EPOLLOUT)"
  by (simp_all add: enable_reading_def enable_writing_def disable_reading_def disable_writing_def)

lemma es_call_slots:
  "es_read_callback (fst (es_call op (es, k))) = es_read_callback es \<and>
   es_write_callback (fst (es_call op (es, k))) = es_write_callback es \<and>
   es_error_callback (fst (es_call op (es, k))) = es_error_callback es \<and>
   es_close_callback (fst (es_call op (es, k))) = es_close_callback es"
  by (cases op) (auto simp: enable_ops_def disable_ops_def disable_all_def Let_def)

lemma source_call:
  assumes ok: "source_ok c k cn" and e: "cn_event_source cn = Some es" and f: "es_call op (es, k) = (es', k')"
    and op: "is_enable op \<Longrightarrow> cn_state cn \<noteq> Closed"
  shows "es_synced es' k'" and "es_fd es' = cn_fd cn" and "es_interest es' = mask_step (es_interest es) op"
    and "x \<noteq> cn_fd cn \<Longrightarrow> k' x = k x" and "slots_ok c es'"
proof -
  show "slots_ok c es'"
    using ok e f es_call_slots [of op es k] by (simp add: source_ok_def slots_ok_def)
  have fd: "es_fd es = cn_fd cn" using ok e by (simp add: source_ok_def)
  have "es_synced es' k' \<and> es_fd es' = es_fd es \<and> (\<forall>x. x \<noteq> es_fd es \<longrightarrow> k' x = k x)"
  proof (cases "es_synced es k")
    case True
    then show ?thesis using es_call_synced [OF True f] by blast
  next
    case False
    then have z: "cn_state cn = Closed" "es_state es = StateRegistered" "es_interest es = 0" "0 \<le> es_fd es"
      using ok e by (auto simp: source_ok_def)
    then have "\<not> is_enable op" using op by blast
    then show ?thesis using f z
      by (cases op) (auto simp: disable_ops_def disable_all_def Let_def in_sync_def unregister_event_def epoll_del_def)
  qed
  then show "es_synced es' k'" and "es_fd es' = cn_fd cn" and "x \<noteq> cn_fd cn \<Longrightarrow> k' x = k x"
    using fd by simp_all
  show "es_interest es' = mask_step (es_interest es) op" using es_call_interest [of op es k] f by simp
qed

lemma mask_keeps_out:
  assumes "keeps_out op" and "m AND EPOLLOUT \<noteq> 0"
  shows "mask_step m op AND EPOLLOUT \<noteq> 0"
proof (cases op)
  case (Enable x)
  then show ?thesis using assms by (simp add: bit.conj_disj_distrib2 or_eq_0_iff)
next
  case (Disable x)
  have "(m AND NOT x) AND EPOLLOUT = m AND EPOLLOUT"
  proof -
    have "m AND EPOLLOUT = m AND ((EPOLLOUT AND x) OR (EPOLLOUT AND NOT x))"
      by (simp flip: bit.conj_disj_distrib)
    then show ?thesis using assms(1) Disable by (simp add: ac_simps)
  qed
  then show ?thesis using assms(2) Disable by simp
qed (use assms in simp)

lemma on_source_Inr:
  assumes "on_source c f w = Inr w'"
  obtains cn es es' k where "w_heap w c = Some cn" "cn_event_source cn = Some es" "f (es, w_epoll w) = (es', k)"
    "w' = set_conn c (cn\<lparr>cn_event_source := Some es'\<rparr>) (w\<lparr>w_epoll := k\<rparr>)"
  using assms by (auto simp: on_source_def get_conn_def bindr_eq_Inr_iff split: option.splits prod.splits)


lemma lawful_on_source:
  assumes open': "\<And>cn. w_heap w c = Some cn \<Longrightarrow> is_enable op \<Longrightarrow> cn_state cn \<noteq> Closed"
    and wake: "\<And>cn. w_heap w c = Some cn \<Longrightarrow> cn_state cn = Receiving \<Longrightarrow> unsent cn \<noteq> [] \<Longrightarrow>
      TForceClose c \<notin> set (w_tasks w) \<Longrightarrow> keeps_out op"
  shows "lawful w (on_source c (es_call op) w)"
  unfolding lawful_but_def
proof (intro allI impI)
  fix w' assume "on_source c (es_call op) w = Inr w'"
  then obtain cn es es' k where c: "w_heap w c = Some cn" and e: "cn_event_source cn = Some es"
    and f: "es_call op (es, w_epoll w) = (es', k)"
    and w': "w' = set_conn c (cn\<lparr>cn_event_source := Some es'\<rparr>) (w\<lparr>w_epoll := k\<rparr>)"
    by (rule on_source_Inr)
  have src: "es_synced es' k" "es_fd es' = cn_fd cn" "es_interest es' = mask_step (es_interest es) op"
      "slots_ok c es'" "x \<noteq> cn_fd cn \<Longrightarrow> k x = w_epoll w x" if "conn_ok_in w c cn" for x
    using source_call(1-3,5) [OF _ e f] source_call(4) [OF _ e f, of c x] open' [OF c] that by (auto simp: conn_ok_def)
  have "conn_ok c k (TForceClose c \<in> set (w_tasks w)) (bytes_of c (w_queued w)) (bytes_of c (w_wire w))
      (cn\<lparr>cn_event_source := Some es'\<rparr>)" if ok: "conn_ok_in w c cn"
    using ok src [OF ok] wake [OF c] mask_keeps_out [of op "es_interest es"] e
    by (auto simp: conn_ok_def source_ok_def buffer_ok_def wakeup_ok_def stream_ok_def split: option.splits)
  then show "evolves w w'"
    using evolves_update [OF c, of "cn\<lparr>cn_event_source := Some es'\<rparr>" k "[]" "[]"] src(5) world_wfD(2) [OF _ c]
    by (simp add: w' set_conn_def)
qed

subsection \<open>New connections\<close>

definition fd_fresh :: "int \<Rightarrow> world \<Rightarrow> bool" where
  "fd_fresh fd w \<longleftrightarrow> 0 \<le> fd \<and> w_epoll w fd = None \<and> unowned fd w"

lemma evolves_spawn:
  assumes fd: "fd_fresh fd w" and cn: "cn_fd cn = fd" "cn_state cn = Receiving" "cn_buffer_out cn = None"
    and es: "cn_event_source cn = Some es" "es_synced es ((w_epoll w)(fd := m))" "es_fd es = fd" "slots_ok (w_next w) es"
  shows "evolves_but {fd} w (w\<lparr>w_epoll := (w_epoll w)(fd := m), w_heap := (w_heap w)(w_next w \<mapsto> cn),
    w_next := Suc (w_next w), w_frame := w_next w # w_frame w\<rparr>)" (is "evolves_but {fd} w ?w")
proof -
  have "conn_ok_in ?w (w_next w) cn" if wf: "world_wf w"
    using cn es fd world_wfD(6) [OF wf, of "w_next w"]
    by (simp add: conn_ok_def source_ok_def buffer_ok_def wakeup_ok_def stream_ok_def unsent_def fd_fresh_def unowned_def)
  moreover have "conn_ok_in ?w c cn'" if wf: "world_wf w" and c: "w_heap w c = Some cn'" for c cn'
    using conn_ok_cong [OF world_wfD(2) [OF wf c]] fd c by (simp add: fd_fresh_def unowned_def)
  moreover have "cn_fd dn \<noteq> cn_fd cn" if "w_heap w d = Some dn" for d dn
    using fd cn(1) that by (auto simp: fd_fresh_def unowned_def)
  moreover have "(x, w_next w) \<notin> set (w_connections w)" if wf: "world_wf w" for x
    using world_wfD(1,6) [OF wf, of "w_next w"] by (force simp: referenced_def)
  ultimately have "world_wf ?w" if wf: "world_wf w"
    using wf unfolding world_wf_def by (auto simp: referenced_def split: if_splits) blast
  then show ?thesis using fd cn(1) unfolding fd_fresh_def unowned_def evolves_but_def grows_def objs_grow_def unowned_def by auto
qed

lemma set_AList_update: "set (AList.update k v al) \<subseteq> insert (k, v) (set al)"
  by (induction al) auto

lemma AList_update_mem: "(k, v) \<in> set (AList.update k v al)"
  by (induction al) auto

lemma snd_AList_update: "snd ` set (AList.update k v al) \<subseteq> insert v (snd ` set al)"
  by (induction al) auto

lemma evolves_enter:
  assumes "w_heap w c = Some cn" and "cn_fd cn = fd"
  shows "evolves w (w\<lparr>w_connections := AList.update fd c (w_connections w)\<rparr>)" (is "evolves w ?w")
proof -
  have sub: "x \<in> set (AList.update fd c (w_connections w)) \<Longrightarrow> x = (fd, c) \<or> x \<in> set (w_connections w)" for x
    using set_AList_update [of fd c "w_connections w"] by blast
  have "world_wf ?w" if wf: "world_wf w"
  proof -
    have "referenced d ?w \<Longrightarrow> d = c \<or> referenced d w" for d
      using snd_AList_update [of fd c "w_connections w"] by (auto simp: referenced_def)
    then have "w_heap w d \<noteq> None" if "referenced d ?w" for d
      using world_wfD(1) [OF wf, of d] assms(1) that by auto
    moreover have "cn_fd dn = x" if "(x, d) \<in> set (AList.update fd c (w_connections w))" "w_heap w d = Some dn" for x d dn
      using sub [OF that(1)] world_wfD(4) [OF wf _ that(2)] that(2) assms by auto
    ultimately show ?thesis using wf unfolding world_wf_def by simp
  qed
  then show ?thesis unfolding evolves_but_def grows_def objs_grow_def unowned_def by auto
qed

text \<open>Descriptors that no connection owns.\<close>

lemma evolves_epoll:
  assumes "\<And>c cn. w_heap w c = Some cn \<Longrightarrow> k (cn_fd cn) = w_epoll w (cn_fd cn)"
    and "\<And>x. x \<notin> X \<Longrightarrow> k x = w_epoll w x"
  shows "evolves_but X w (w\<lparr>w_epoll := k\<rparr>)"
proof -
  have "world_wf (w\<lparr>w_epoll := k\<rparr>)" if wf: "world_wf w"
  proof -
    have "conn_ok_in (w\<lparr>w_epoll := k\<rparr>) c cn" if c: "w_heap w c = Some cn" for c cn
      using conn_ok_cong [OF world_wfD(2) [OF wf c], of k] assms(1) [OF c] by simp
    then show ?thesis using wf unfolding world_wf_def by (simp add: referenced_def)
  qed
  then show ?thesis using assms(2) unfolding evolves_but_def grows_def objs_grow_def unowned_def by auto
qed

lemma es_call_other:
  assumes "es_call op (es, k) = (es', k')" and "x \<noteq> es_fd es"
  shows "k' x = k x"
  using assms by (cases op) (auto simp: enable_ops_def disable_ops_def disable_all_def Let_def register_event_def
      modify_event_def unregister_event_def epoll_add_def epoll_mod_def epoll_del_def split: if_splits)

end
