(* ===== verification/Connection.thy ===== *)
theory Connection
  imports Loop_State
begin

text \<open>
  The operations of \<^verbatim>\<open>src/Connection.cpp\<close> on the state of the loop, the calls the application can
  make, and the deferred callbacks when they run.

  The application is a parameter: a function from the calls it has received so far and the one it
  receives now to the calls it makes in return. What the kernel answers to \<open>read\<close> and \<open>write\<close> is an
  argument of the operation.
\<close>

section \<open>Calls of the application\<close>

datatype api =
    AWrite cid "cell list" u32
  | AWriteBuf cid nat
  | AClose cid
  | AForceClose cid
  | AStop
  | APost nat
  | AHold cid
  | ADrop cid
  | ASetEstablished cid bool
  | ASetRead cid bool
  | ASetClosed cid bool
  | ASetError cid bool
  | ASetBufferSize cid u32
  | ANewBuf nat int
  | ABuf nat bb_op

type_synonym app = "uevent list \<Rightarrow> uevent \<Rightarrow> api list"

definition conn_close :: "bool \<Rightarrow> cid \<Rightarrow> world \<Rightarrow> world res" where
  "conn_close here c w = bindr (get_conn c w) (\<lambda>_. Inr (post_callback here (TClose c) w))"

definition conn_force_close :: "bool \<Rightarrow> cid \<Rightarrow> world \<Rightarrow> world res" where
  "conn_force_close here c w = bindr (get_conn c w) (\<lambda>_. Inr (post_callback here (TForceClose c) w))"

definition conn_write_buf :: "bool \<Rightarrow> cid \<Rightarrow> nat \<Rightarrow> world \<Rightarrow> (bool \<times> world) res" where
  "conn_write_buf here c buffer w =
     bindr (get_conn c w) (\<lambda>cn.
     if is_closed cn then Inr (False, w)
     else Inr (True, post_callback here (TWriteBuf c buffer) w))"

definition conn_write :: "bool \<Rightarrow> cid \<Rightarrow> cell list \<Rightarrow> u32 \<Rightarrow> world \<Rightarrow> (bool \<times> world) res" where
  "conn_write here c data len w =
     bindr (get_conn c w) (\<lambda>cn.
     if is_closed cn then Inr (False, w)
     else bindr (ByteBuffer (sint len)) (\<lambda>buffer.
          bindr (bb_put buffer data (sint len)) (\<lambda>buffer.
          Inr (True, post_callback here (TWriteRaw c (bb_flip buffer)) w))))"

text \<open>The setters of the connection, called through a pointer.\<close>

definition set_buffer_size :: "u32 \<Rightarrow> connection \<Rightarrow> connection" where
  [simp]: "set_buffer_size n cn = cn\<lparr>cn_buffer_size := n\<rparr>"

definition set_established_callback :: "bool \<Rightarrow> connection \<Rightarrow> connection" where
  [simp]: "set_established_callback cb cn = cn\<lparr>cn_established_callback := cb\<rparr>"

definition set_read_callback :: "bool \<Rightarrow> connection \<Rightarrow> connection" where
  [simp]: "set_read_callback cb cn = cn\<lparr>cn_read_callback := cb\<rparr>"

definition set_closed_callback :: "bool \<Rightarrow> connection \<Rightarrow> connection" where
  [simp]: "set_closed_callback cb cn = cn\<lparr>cn_closed_callback := cb\<rparr>"

definition error_callback :: "bool \<Rightarrow> connection \<Rightarrow> connection" where
  [simp]: "error_callback cb cn = cn\<lparr>cn_error_callback := cb\<rparr>"

definition set_callback :: "cid \<Rightarrow> (connection \<Rightarrow> connection) \<Rightarrow> world \<Rightarrow> world res" where
  "set_callback c f w = bindr (get_conn c w) (\<lambda>cn. Inr (set_conn c (f cn) w))"

fun exec_api :: "bool \<Rightarrow> api \<Rightarrow> world \<Rightarrow> world res" where
  "exec_api here (AWrite c data len) w = bindr (conn_write here c data len w) (\<lambda>(_, w). Inr w)"
| "exec_api here (AWriteBuf c b) w = bindr (conn_write_buf here c b w) (\<lambda>(_, w). Inr w)"
| "exec_api here (AClose c) w = conn_close here c w"
| "exec_api here (AForceClose c) w = conn_force_close here c w"
| "exec_api here AStop w = Inr (stop w)"
| "exec_api here (APost n) w = Inr (post_callback here (TUser n) w)"
| "exec_api here (AHold c) w = bindr (get_conn c w) (\<lambda>_. Inr (w\<lparr>w_held := c # w_held w\<rparr>))"
| "exec_api here (ADrop c) w = Inr (release c (w\<lparr>w_held := remove1 c (w_held w)\<rparr>))"
| "exec_api here (ASetEstablished c b) w = set_callback c (set_established_callback b) w"
| "exec_api here (ASetRead c b) w = set_callback c (set_read_callback b) w"
| "exec_api here (ASetClosed c b) w = set_callback c (set_closed_callback b) w"
| "exec_api here (ASetError c b) w = set_callback c (error_callback b) w"
| "exec_api here (ASetBufferSize c n) w = set_callback c (set_buffer_size n) w"
| "exec_api here (ANewBuf b n) w = bindr (ByteBuffer n) (\<lambda>buf. Inr (w\<lparr>w_bufs := (w_bufs w)(b \<mapsto> buf)\<rparr>))"
| "exec_api here (ABuf b op) w =
     (case w_bufs w b of
        None \<Rightarrow> Inl NullDeref
      | Some buf \<Rightarrow> bindr (bb_exec op buf) (\<lambda>buf. Inr (w\<lparr>w_bufs := (w_bufs w)(b \<mapsto> buf)\<rparr>)))"

fun exec_apis :: "bool \<Rightarrow> api list \<Rightarrow> world \<Rightarrow> world res" where
  "exec_apis here [] w = Inr w"
| "exec_apis here (a # as) w = bindr (exec_api here a w) (exec_apis here as)"

text \<open>
  The library calls the application: the call is logged, and the application's calls are made. The
  \<open>ConnectionPtr\<close> it passes keeps the connection alive until the call returns.
\<close>

fun uevent_conn :: "uevent \<Rightarrow> cid option" where
  "uevent_conn (UEstablished c) = Some c"
| "uevent_conn (URead c bytes) = Some c"
| "uevent_conn (UClosed c) = Some c"
| "uevent_conn (UError c) = Some c"
| "uevent_conn UConnectError = None"
| "uevent_conn (UTask n) = None"

definition user_call :: "app \<Rightarrow> uevent \<Rightarrow> world \<Rightarrow> world res" where
  "user_call app ev =
     with_ref (uevent_conn ev) (\<lambda>w. exec_apis True (app (w_log w) ev) (w\<lparr>w_log := w_log w @ [ev]\<rparr>))"

section \<open>Registration\<close>

definition conn_register_event :: "cid \<Rightarrow> world \<Rightarrow> world res" where
  "conn_register_event c w =
     bindr (get_conn c w) (\<lambda>cn.
     (case enable_reading (EventSource (cn_fd cn), w_epoll w) of (es, k) \<Rightarrow>
        (let es = set_error_callback (OnConnError c) (set_writing_callback (OnConnWrite c)
                     (set_reading_callback (OnConnRead c) es))
         in Inr (set_conn c (cn\<lparr>cn_event_source := Some es, cn_state := Receiving\<rparr>) (w\<lparr>w_epoll := k\<rparr>)))))"

definition on_new_connection :: "app \<Rightarrow> cid \<Rightarrow> world \<Rightarrow> world res" where
  "on_new_connection app c w =
     bindr (conn_register_event c w) (\<lambda>w.
     bindr (get_conn c w) (\<lambda>cn.
     (let old = map_of (w_connections w) (cn_fd cn);
          w = release_opt old (w\<lparr>w_connections := AList.update (cn_fd cn) c (w_connections w)\<rparr>)
      in if cn_established_callback cn then user_call app (UEstablished c) w else Inr w)))"

text \<open>
  The lambda that \<open>TcpServer::run\<close> gives to the acceptor, and the end of
  \<open>Connector::handle_connected\<close>: a \<open>ConnectionPtr\<close> in a local variable, its callbacks, and
  \<open>on_new_connection\<close>.
\<close>

record callbacks =
  has_established :: bool
  has_read :: bool
  has_closed :: bool

definition new_connection :: "app \<Rightarrow> callbacks \<Rightarrow> int \<Rightarrow> inet_address \<Rightarrow> inet_address \<Rightarrow> world \<Rightarrow> world res" where
  "new_connection app cbs fd local peer w =
     (let c = w_next w;
          cn = set_closed_callback (has_closed cbs) (set_read_callback (has_read cbs)
                 (set_established_callback (has_established cbs) (Connection fd local peer)))
      in bindr (on_new_connection app c
           (w\<lparr>w_next := Suc c, w_heap := (w_heap w)(c \<mapsto> cn), w_frame := c # w_frame w\<rparr>)) (\<lambda>w.
         Inr (release c (w\<lparr>w_frame := remove1 c (w_frame w)\<rparr>))))"

section \<open>Writing\<close>

definition out_buffer :: "connection \<Rightarrow> u32 \<Rightarrow> circular_buffer" where
  "out_buffer cn len = (case cn_buffer_out cn of None \<Rightarrow> CircularBuffer len | Some b \<Rightarrow> b)"

definition do_write :: "cid \<Rightarrow> cell list \<Rightarrow> u32 \<Rightarrow> world \<Rightarrow> world res" where
  "do_write c data len w =
     bindr (get_conn c w) (\<lambda>cn.
     if cn_state cn = Closed then conn_force_close True c w
     else bindr (cb_put (out_buffer cn len) data len) (\<lambda>b.
          on_source c enable_writing
            (set_conn c (cn\<lparr>cn_buffer_out := Some b\<rparr>)
              (w\<lparr>w_queued := w_queued w @ [(c, readable (unat len) data)]\<rparr>))))"

text \<open>
  The answer of the kernel to \<open>write\<close> and \<open>writev\<close>: \<open>-1\<close>, or the number of bytes taken, at most what it
  was offered and at most \<open>0x7ffff000\<close> (the limit of one transfer on Linux).
\<close>

definition write_answer :: "int \<Rightarrow> circular_buffer \<Rightarrow> int" where
  "write_answer n b = (if n < 0 then -1 else min (min n 0x7ffff000) (int (length (gather (cb_data b) (write_iov b)))))"

definition handle_write :: "app \<Rightarrow> cid \<Rightarrow> int \<Rightarrow> world \<Rightarrow> world res" where
  "handle_write app c answer w =
     bindr (get_conn c w) (\<lambda>cn.
     case cn_buffer_out cn of
       None \<Rightarrow> Inl NullDeref
     | Some b \<Rightarrow>
         bindr (assertr (\<not> cb_empty b)) (\<lambda>_.
         let n = write_answer answer b in
         bindr (write_to_fd b n) (\<lambda>(total, b').
         (let w = set_conn c (cn\<lparr>cn_buffer_out := Some b'\<rparr>)
                    (w\<lparr>w_wire := w_wire w @ [(c, take (nat n) (gather (cb_data b) (write_iov b)))]\<rparr>)
          in if total < 0 then
               bindr (conn_force_close True c w) (\<lambda>w.
               if cn_error_callback cn then user_call app (UError c) w else Inr w)
             else if total = 0 then conn_force_close True c w
             else if cn_state cn = Disconnecting then
               bindr (on_source c disable_writing w) (conn_close True c)
             else if cb_empty b' then on_source c disable_writing w
             else Inr w))))"

section \<open>Reading\<close>

text \<open>The answer of the kernel to \<open>read\<close>; it never delivers more bytes than the buffer has room for.\<close>

datatype read_result = ReadFail | ReadBytes "u8 list"

definition handle_read :: "app \<Rightarrow> cid \<Rightarrow> read_result \<Rightarrow> world \<Rightarrow> world res" where
  "handle_read app c answer w =
     bindr (get_conn c w) (\<lambda>cn.
     case w_recv w of
       None \<Rightarrow> Inl NullDeref
     | Some buffer \<Rightarrow>
         bindr (bb_clear buffer) (\<lambda>buffer.
         case answer of
           ReadFail \<Rightarrow>
             bindr (if cn_error_callback cn then user_call app (UError c) (w\<lparr>w_recv := Some buffer\<rparr>)
                    else Inr (w\<lparr>w_recv := Some buffer\<rparr>)) (conn_force_close True c)
         | ReadBytes available \<Rightarrow>
             let bytes = take (nat (bb_remaining buffer)) available in
             if bytes = [] then
               bindr (on_source c disable_reading (w\<lparr>w_recv := Some buffer\<rparr>)) (conn_close True c)
             else
               bindr (memcpy (bb_data buffer) (nat (bb_ptr buffer)) (map Some bytes) 0 (length bytes)) (\<lambda>m.
               bindr (bb_set_position (buffer\<lparr>bb_data := m\<rparr>) (int (length bytes))) (\<lambda>buffer.
               (let buffer = bb_flip buffer
                in if cn_read_callback cn
                   then user_call app (URead c (bb_content buffer)) (w\<lparr>w_recv := Some buffer\<rparr>)
                   else Inr (w\<lparr>w_recv := Some buffer\<rparr>))))))"

section \<open>The deferred callbacks\<close>

definition run_close :: "app \<Rightarrow> cid \<Rightarrow> world \<Rightarrow> world res" where
  "run_close app c w =
     bindr (get_conn c w) (\<lambda>cn.
     if \<not> has_bytes_to_write cn then
       bindr (if cn_closed_callback cn
              then user_call app (UClosed c) (set_conn c (cn\<lparr>cn_state := Closed\<rparr>) w)
              else Inr (set_conn c (cn\<lparr>cn_state := Closed\<rparr>) w)) (\<lambda>w.
       Inr (remove_connection (cn_fd cn) w))
     else Inr (set_conn c (cn\<lparr>cn_state := Disconnecting\<rparr>) w))"

definition run_force_close :: "app \<Rightarrow> cid \<Rightarrow> world \<Rightarrow> world res" where
  "run_force_close app c w =
     bindr (get_conn c w) (\<lambda>cn.
     case cn_buffer_out cn of
       None \<Rightarrow> Inl NullDeref
     | Some b \<Rightarrow>
         (case cn_event_source cn of
            None \<Rightarrow> Inl NullDeref
          | Some es \<Rightarrow>
              (let w = set_conn c (cn\<lparr>cn_state := Closed, cn_buffer_out := Some (cb_clear b),
                                   cn_event_source := Some (set_interest_ops 0 es)\<rparr>) w
               in if map_of (w_connections w) (cn_fd cn) \<noteq> None then
                    bindr (if cn_closed_callback cn then user_call app (UClosed c) w else Inr w) (\<lambda>w.
                    Inr (remove_connection (cn_fd cn) w))
                  else Inr w)))"

text \<open>The lambdas of the two \<open>write\<close> functions: \<open>do_write(buffer->data(), buffer->remaining())\<close>.\<close>

definition write_remaining :: "cid \<Rightarrow> byte_buffer \<Rightarrow> world \<Rightarrow> world res" where
  "write_remaining c buf w =
     (if bb_ptr buf < 0 then Inl OutOfBounds
      else do_write c (drop (nat (bb_ptr buf)) (bb_data buf)) (word_of_int (bb_remaining buf)) w)"

fun exec_task :: "app \<Rightarrow> task \<Rightarrow> world \<Rightarrow> world res" where
  "exec_task app (TClose c) w = run_close app c w"
| "exec_task app (TForceClose c) w = run_force_close app c w"
| "exec_task app (TWriteBuf c b) w =
     (case w_bufs w b of None \<Rightarrow> Inl NullDeref | Some buf \<Rightarrow> write_remaining c buf w)"
| "exec_task app (TWriteRaw c buf) w = write_remaining c buf w"
| "exec_task app (TUser n) w = user_call app (UTask n) w"

section \<open>The application's calls keep the laws\<close>

lemma lawful_get:
  assumes "\<And>cn. w_heap w c = Some cn \<Longrightarrow> lawful w (f cn)"
  shows "lawful w (bindr (get_conn c w) f)"
  using assms by (auto simp: get_conn_def split: option.splits)

lemma lawful_close: "lawful w (conn_close here c w)"
  and lawful_force_close: "lawful w (conn_force_close here c w)"
  unfolding conn_close_def conn_force_close_def by (auto intro!: lawful_get evolves_post)

lemma lawful_write_calls:
  "lawful w (bindr (conn_write here c data len w) (\<lambda>(_, w). Inr w))"
  "lawful w (bindr (conn_write_buf here c b w) (\<lambda>(_, w). Inr w))"
  unfolding conn_write_def conn_write_buf_def bindr_assoc
  by (auto simp: lawful_but_def bindr_eq_Inr_iff get_conn_def split: option.splits intro!: evolves_post)

lemma conn_ok_flags [simp]:
  "conn_ok c k f q s (cn\<lparr>cn_established_callback := b\<rparr>) = conn_ok c k f q s cn"
  "conn_ok c k f q s (cn\<lparr>cn_buffer_size := n\<rparr>) = conn_ok c k f q s cn"
  "conn_ok c k f q s (cn\<lparr>cn_read_callback := b\<rparr>) = conn_ok c k f q s cn"
  "conn_ok c k f q s (cn\<lparr>cn_closed_callback := b\<rparr>) = conn_ok c k f q s cn"
  "conn_ok c k f q s (cn\<lparr>cn_error_callback := b\<rparr>) = conn_ok c k f q s cn"
  by (simp_all add: conn_ok_def source_ok_def buffer_ok_def wakeup_ok_def stream_ok_def unsent_def cong: option.case_cong)

lemma lawful_set_callback:
  assumes "\<And>cn. cn_fd (f cn) = cn_fd cn \<and> cn_state (f cn) = cn_state cn"
    and "\<And>c k g q s cn. conn_ok c k g q s (f cn) = conn_ok c k g q s cn"
  shows "lawful w (set_callback c f w)"
  unfolding set_callback_def using assms by (auto intro!: lawful_get evolves_set_conn)

lemma lawful_exec_api: "lawful w (exec_api here a w)"
proof (cases a)
  case (ADrop c)
  then show ?thesis by (simp add: evolves_trans [OF evolves_drop(2) evolves_release])
next
  case (AHold c)
  then show ?thesis using evolves_hold by (auto intro!: lawful_get)
next
  case (ABuf b op)
  then show ?thesis by (auto simp: lawful_but_def bindr_eq_Inr_iff split: option.splits)
next
  case (ANewBuf b n)
  then show ?thesis by (auto simp: lawful_but_def bindr_eq_Inr_iff)
qed (auto simp: lawful_close lawful_force_close lawful_write_calls lawful_set_callback evolves_stop
    intro!: evolves_post)

lemma lawful_exec_apis: "lawful w (exec_apis here as w)"
  by (induction as arbitrary: w) (auto intro: lawful_bindr lawful_exec_api)

lemma lawful_user_call: "lawful w (user_call app ev w)"
  unfolding user_call_def
  by (rule lawful_with_ref) (rule lawful_trans [OF evolves_fields(1) lawful_exec_apis])

section \<open>The handlers keep the laws\<close>

lemma queue_bytes:
  assumes ok: "buffer_ok q cn" "stream_ok q s cn" and st: "cn_state cn \<noteq> Closed"
    and quota: "length q + unat len \<le> 2 ^ 28"
    and put: "cb_put (out_buffer cn len) data len = Inr b'"
  shows "buffer_ok (q @ readable (unat len) data) (cn\<lparr>cn_buffer_out := Some b', cn_event_source := e\<rparr>)"
    and "stream_ok (q @ readable (unat len) data) s (cn\<lparr>cn_buffer_out := Some b', cn_event_source := e\<rparr>)"
proof -
  let ?b = "out_buffer cn len"
  have wf: "cb_wf ?b" and u: "cb_contents ?b = unsent cn"
    using ok(1) by (auto simp: buffer_ok_def out_buffer_def unsent_def CircularBuffer_wf CircularBuffer_contents
        split: option.splits)
  have cap: "unat (cb_capacity ?b) \<le> 2 + 4 * (length q + unat len)"
    using ok(1) CircularBuffer_bound [of len] quota by (auto simp: buffer_ok_def out_buffer_def split: option.splits)
  then have size: "unat len + unat (cb_capacity ?b) \<le> 2 ^ 31" using quota by simp
  note e = cb_put_effect [OF wf size put]
  have str: "faithful (s @ unsent cn) q" using ok(2) st by (simp add: stream_ok_def)
  from str have "unat (buffer_len ?b) \<le> length q"
    using arg_cong [OF u, of length] faithful_length [OF str] by simp
  with e(1,3) cap st show "buffer_ok (q @ readable (unat len) data) (cn\<lparr>cn_buffer_out := Some b', cn_event_source := e\<rparr>)"
    by (simp add: buffer_ok_def)
  from e(2) faithful_append [OF str] st
  show "stream_ok (q @ readable (unat len) data) s (cn\<lparr>cn_buffer_out := Some b', cn_event_source := e\<rparr>)"
    by (auto simp: stream_ok_def u)
qed

lemma lawful_do_write: "lawful w (do_write c data len w)"
  unfolding do_write_def
proof (rule lawful_get)
  fix cn assume c: "w_heap w c = Some cn"
  let ?q = "readable (unat len) data"
  show "lawful w (if cn_state cn = Closed then conn_force_close True c w
     else bindr (cb_put (out_buffer cn len) data len) (\<lambda>b. on_source c enable_writing
       (set_conn c (cn\<lparr>cn_buffer_out := Some b\<rparr>) (w\<lparr>w_queued := w_queued w @ [(c, ?q)]\<rparr>))))"
  proof (cases "cn_state cn = Closed")
    case False
    have "evolves w w'" if put: "cb_put (out_buffer cn len) data len = Inr b"
      and r: "on_source c (es_call (Enable EPOLLOUT))
        (set_conn c (cn\<lparr>cn_buffer_out := Some b\<rparr>) (w\<lparr>w_queued := w_queued w @ [(c, ?q)]\<rparr>)) = Inr w'" for b w'
    proof -
      from r obtain es es' k where e: "cn_event_source cn = Some es"
        and f: "es_call (Enable EPOLLOUT) (es, w_epoll w) = (es', k)"
        and w': "w' = w\<lparr>w_epoll := k, w_heap := (w_heap w)(c \<mapsto> cn\<lparr>cn_buffer_out := Some b, cn_event_source := Some es'\<rparr>),
            w_queued := w_queued w @ map (Pair c) [?q], w_wire := w_wire w @ map (Pair c) []\<rparr>"
        by (auto elim!: on_source_Inr simp: set_conn_def)
      have src: "es_synced es' k" "es_fd es' = cn_fd cn" "es_interest es' = es_interest es OR EPOLLOUT"
          "slots_ok c es'" "x \<noteq> cn_fd cn \<Longrightarrow> k x = w_epoll w x" if "conn_ok_in w c cn" for x
        using source_call(1-3,5) [OF _ e f] source_call(4) [OF _ e f, of c x] False that by (auto simp: conn_ok_def)
      have "EPOLLOUT \<noteq> 0" by (simp add: EPOLLOUT_def)
      then show ?thesis
        unfolding w'
      proof (intro evolves_update [OF c])
        assume ok: "conn_ok_in w c cn"
        assume "within_quota (w\<lparr>w_queued := w_queued w @ map (Pair c) [?q]\<rparr>)"
        then have "length (bytes_of c (w_queued w)) + unat len \<le> 2 ^ 28"
          by (auto simp: within_quota_def dest: spec [of _ c])
        from queue_bytes [OF _ _ False this put, of "bytes_of c (w_wire w)" "Some es'"] ok src [OF ok] False e \<open>EPOLLOUT \<noteq> 0\<close>
        show "conn_ok c k (TForceClose c \<in> set (w_tasks w)) (bytes_of c (w_queued w) @ concat [?q])
            (bytes_of c (w_wire w) @ concat []) (cn\<lparr>cn_buffer_out := Some b, cn_event_source := Some es'\<rparr>)"
          by (simp add: conn_ok_def source_ok_def wakeup_ok_def bit.conj_disj_distrib2 or_eq_0_iff)
      qed (use src world_wfD(2) [OF _ c] in simp_all)
    qed
    then show ?thesis using False by (auto simp: lawful_but_def bindr_eq_Inr_iff es_ops_call)
  qed (simp add: lawful_force_close)
qed

lemma ship_bytes:
  assumes ok: "conn_ok c k f q s cn" and b: "cn_buffer_out cn = Some b" and ne: "\<not> cb_empty b"
    and wr: "write_to_fd b (write_answer n b) = Inr (r, b')"
  defines "out \<equiv> take (nat (write_answer n b)) (gather (cb_data b) (write_iov b))"
  shows "conn_ok c k f q (s @ out) (cn\<lparr>cn_buffer_out := Some b'\<rparr>)"
    and "r = write_answer n b" and "unsent cn = out @ cb_contents b'"
proof -
  have wf: "cb_wf b" and u: "unsent cn = cb_contents b" and nc: "cn_state cn \<noteq> Closed"
    using ok b ne by (auto simp: conn_ok_def buffer_ok_def unsent_def cb_empty_iff)
  have g: "gather (cb_data b) (write_iov b) = cb_contents b" by (rule gather_write_iov [OF wf])
  have fx: "r = write_answer n b \<and> cb_wf b' \<and> cb_capacity b' = cb_capacity b \<and>
      cb_contents b' = drop (nat (write_answer n b)) (cb_contents b)"
  proof (cases "n < 0")
    case True
    then show ?thesis using wr ne wf by (auto simp: write_to_fd_def write_answer_def)
  next
    case False
    then have a: "0 \<le> write_answer n b" "nat (write_answer n b) \<le> unat (buffer_len b)"
      by (simp_all add: write_answer_def g nat_le_iff)
    have "write_answer n b < 2 ^ 31" by (auto simp: write_answer_def)
    then have t: "sint (word_of_int (write_answer n b) :: u32) = write_answer n b" by (rule sint_of_small [OF a(1)])
    have "cb_capacity b' = cb_capacity b" using wr ne a(1) by (auto simp: write_to_fd_def)
    moreover have "r = write_answer n b" using wr ne a(1) t by (simp add: write_to_fd_def)
    ultimately show ?thesis using write_to_fd_ok [OF wf _ a] wr ne by (auto simp: cb_empty_iff)
  qed
  then show "r = write_answer n b" by simp
  show sp: "unsent cn = out @ cb_contents b'" using fx by (simp add: u out_def g)
  have "wakeup_ok f (cn\<lparr>cn_buffer_out := Some b'\<rparr>)"
    using ok u ne by (auto simp: conn_ok_def wakeup_ok_def cb_empty_iff)
  with ok fx nc sp b show "conn_ok c k f q (s @ out) (cn\<lparr>cn_buffer_out := Some b'\<rparr>)"
    by (auto simp: conn_ok_def source_ok_def buffer_ok_def stream_ok_def cong: option.case_cong)
qed

lemma lawful_disable_writing:
  "(\<And>cn. w_heap w c = Some cn \<Longrightarrow> cn_state cn = Receiving \<Longrightarrow> unsent cn = []) \<Longrightarrow>
    lawful w (on_source c disable_writing w)"
  unfolding es_ops_call by (rule lawful_on_source) auto

lemma lawful_disable_reading: "lawful w (on_source c disable_reading w)"
  unfolding es_ops_call by (rule lawful_on_source) (auto simp: epoll_masks)

lemma lawful_handle_write: "lawful w (handle_write app c answer w)"
  unfolding handle_write_def
proof (rule lawful_get)
  fix cn assume c: "w_heap w c = Some cn"
  have step: "lawful w (if r < 0 then
        bindr (conn_force_close True c w1) (\<lambda>w. if cn_error_callback cn then user_call app (UError c) w else Inr w)
      else if r = 0 then conn_force_close True c w1
      else if cn_state cn = Disconnecting then bindr (on_source c disable_writing w1) (conn_close True c)
      else if cb_empty b' then on_source c disable_writing w1 else Inr w1)"
    if b: "cn_buffer_out cn = Some b" and ne: "\<not> cb_empty b"
      and wr: "write_to_fd b (write_answer answer b) = Inr (r, b')"
      and w1: "w1 = set_conn c (cn\<lparr>cn_buffer_out := Some b'\<rparr>)
        (w\<lparr>w_wire := w_wire w @ [(c, take (nat (write_answer answer b)) (gather (cb_data b) (write_iov b)))]\<rparr>)"
    for b r b' w1
  proof -
    let ?out = "take (nat (write_answer answer b)) (gather (cb_data b) (write_iov b))"
    have "w1 = w\<lparr>w_epoll := w_epoll w, w_heap := (w_heap w)(c \<mapsto> cn\<lparr>cn_buffer_out := Some b'\<rparr>),
        w_queued := w_queued w @ map (Pair c) [], w_wire := w_wire w @ map (Pair c) [?out]\<rparr>"
      by (simp add: w1 set_conn_def)
    also have "evolves w \<dots>"
      by (rule evolves_update [OF c]) (use ship_bytes(1) [OF _ b ne wr] in simp_all)
    finally have "evolves w w1" .
    moreover have "lawful w1 (on_source c disable_writing w1)" if "cn_state cn = Disconnecting \<or> cb_empty b'"
      using that by (intro lawful_disable_writing) (auto simp: w1 set_conn_def cb_empty_iff)
    ultimately show ?thesis
      by (auto intro!: lawful_trans [of _ w w1] lawful_bindr lawful_close lawful_force_close lawful_user_call)
  qed
  show "lawful w (case cn_buffer_out cn of None \<Rightarrow> Inl NullDeref | Some b \<Rightarrow>
      bindr (assertr (\<not> cb_empty b)) (\<lambda>_. let n = write_answer answer b in
      bindr (write_to_fd b n) (\<lambda>(r, b'). let w = set_conn c (cn\<lparr>cn_buffer_out := Some b'\<rparr>)
        (w\<lparr>w_wire := w_wire w @ [(c, take (nat n) (gather (cb_data b) (write_iov b)))]\<rparr>)
      in if r < 0 then
          bindr (conn_force_close True c w) (\<lambda>w. if cn_error_callback cn then user_call app (UError c) w else Inr w)
        else if r = 0 then conn_force_close True c w
        else if cn_state cn = Disconnecting then bindr (on_source c disable_writing w) (conn_close True c)
        else if cb_empty b' then on_source c disable_writing w else Inr w)))"
    (is "lawful w ?r")
  proof (cases "\<exists>b. cn_buffer_out cn = Some b \<and> \<not> cb_empty b")
    case True
    then obtain b where b: "cn_buffer_out cn = Some b" "\<not> cb_empty b" by blast
    then obtain r b' where "write_to_fd b (write_answer answer b) = Inr (r, b')"
      by (cases "write_to_fd b (write_answer answer b)") (auto simp: write_to_fd_def split: if_splits)
    with step [OF b this refl] b show ?thesis by (simp add: Let_def)
  qed (auto split: option.splits)
qed

text \<open>The read path: the bytes the application sees are the bytes the kernel delivered.\<close>

lemma read_buffer:
  assumes wf: "bb_wf b" and cl: "bb_clear b = Inr b1" and bytes: "int (length bytes) \<le> bb_remaining b1"
  shows "\<exists>m b2. memcpy (bb_data b1) (nat (bb_ptr b1)) (map Some bytes) 0 (length bytes) = Inr m \<and>
    bb_set_position (b1\<lparr>bb_data := m\<rparr>) (int (length bytes)) = Inr b2 \<and>
    bb_wf (bb_flip b2) \<and> bb_content (bb_flip b2) = map Some bytes"
proof -
  from wf obtain cap where c: "bb_capacity b = Inr cap" "0 < cap" "cap < 2 ^ 31"
    "length (bb_data b) = nat cap + 4" by (rule bb_wfE)
  have b1: "b1 = b\<lparr>bb_position := 0, bb_limit := cap, bb_mark := -1\<rparr>" using cl c(1) by (simp add: bb_clear_def)
  have n: "int (length bytes) \<le> cap" using bytes by (simp add: b1 bb_remaining_def)
  define m where "m = take 4 (bb_data b) @ map Some bytes @ drop (4 + length bytes) (bb_data b)"
  have "bb_capacity (b\<lparr>bb_data := m\<rparr>) = Inr cap"
    using c n bb_capacity_same_header [of m b] by (simp add: m_def)
  then show ?thesis
    using c n by (intro exI [of _ m] exI [of _ "b\<lparr>bb_data := m, bb_position := int (length bytes), bb_limit := cap, bb_mark := -1\<rparr>"])
      (auto simp: b1 memcpy_def bb_set_position_def bb_ptr_def bb_flip_def bb_wf_def bb_content_def
        bb_remaining_def m_def bb_capacity_def Let_def)
qed

lemma bb_clear_wf: "bb_wf b \<Longrightarrow> bb_clear b = Inr b1 \<Longrightarrow> bb_wf b1"
  by (erule bb_wfE) (auto simp: bb_clear_def bb_wf_def)

lemma lawful_handle_read: "lawful w (handle_read app c answer w)"
proof -
  have "lawful w (handle_read app c answer w)"
    if c: "w_heap w c = Some cn" and b: "w_recv w = Some buffer" and cl: "bb_clear buffer = Inr b1" for cn buffer b1
  proof -
    note wf = world_wfD(5) [OF _ b]
    have e1: "evolves w (w\<lparr>w_recv := Some b1\<rparr>)"
      by (rule evolves_recv) (use bb_clear_wf [OF wf cl] in blast)
    note rules = lawful_bindr lawful_close lawful_force_close lawful_user_call lawful_disable_reading
    show ?thesis
    proof (cases answer)
      case ReadFail
      then show ?thesis using c b cl e1
        by (auto simp: handle_read_def get_conn_def intro!: lawful_trans [OF e1] rules lawful_bindr [of _ w])
    next
      case (ReadBytes available)
      let ?bytes = "take (nat (bb_remaining b1)) available"
      have e2: "evolves w (w\<lparr>w_recv := Some (bb_flip b2)\<rparr>)"
        if "memcpy (bb_data b1) (nat (bb_ptr b1)) (map Some ?bytes) 0 (length ?bytes) = Inr m"
          "bb_set_position (b1\<lparr>bb_data := m\<rparr>) (int (length ?bytes)) = Inr b2" for m b2
      proof (rule evolves_recv)
        assume "world_wf w"
        then have "bb_wf buffer" by (rule wf)
        moreover from bb_clear_wf [OF this cl] have "0 \<le> bb_remaining b1" by (rule bb_wfE) (simp add: bb_remaining_def)
        ultimately show "bb_wf (bb_flip b2)" using read_buffer [OF _ cl, of ?bytes] that by auto
      qed
      have "lawful w (bindr (on_source c disable_reading (w\<lparr>w_recv := Some b1\<rparr>)) (conn_close True c))"
        by (intro lawful_trans [OF e1] rules)
      moreover have "lawful w (bindr (memcpy (bb_data b1) (nat (bb_ptr b1)) (map Some ?bytes) 0 (length ?bytes)) (\<lambda>m.
          bindr (bb_set_position (b1\<lparr>bb_data := m\<rparr>) (int (length ?bytes))) (\<lambda>b2.
          if cn_read_callback cn then user_call app (URead c (bb_content (bb_flip b2))) (w\<lparr>w_recv := Some (bb_flip b2)\<rparr>)
          else Inr (w\<lparr>w_recv := Some (bb_flip b2)\<rparr>))))"
        using e2 lawful_trans [OF e2 lawful_user_call] by (fastforce simp: lawful_but_def bindr_eq_Inr_iff)
      ultimately show ?thesis
        using ReadBytes c b cl by (simp add: handle_read_def get_conn_def Let_def)
    qed
  qed
  then show ?thesis
    by (cases "w_heap w c"; cases "w_recv w"; cases "bb_clear (the (w_recv w))") (auto simp: handle_read_def get_conn_def)
qed

lemma conn_ok_closing:
  assumes ok: "conn_ok c k f q s cn"
    and st: "st = Closed \<and> unsent cn = [] \<or> st = Disconnecting \<and> unsent cn \<noteq> []"
  shows "conn_ok c k f q s (cn\<lparr>cn_state := st\<rparr>)" and "cn_state cn = Closed \<Longrightarrow> st = Closed"
proof -
  show cl: "cn_state cn = Closed \<Longrightarrow> st = Closed" using ok st by (auto simp: conn_ok_def buffer_ok_def)
  have "source_ok c k (cn\<lparr>cn_state := st\<rparr>)"
    using ok cl by (auto simp: conn_ok_def source_ok_def split: option.splits)
  moreover have "stream_ok q s (cn\<lparr>cn_state := st\<rparr>)"
    using ok cl st stream_ok_prefix [of q s cn] by (auto simp: conn_ok_def stream_ok_def split: if_splits)
  ultimately show "conn_ok c k f q s (cn\<lparr>cn_state := st\<rparr>)"
    using ok st by (auto simp: conn_ok_def buffer_ok_def wakeup_ok_def)
qed

lemma lawful_run_close: "lawful w (run_close app c w)"
  unfolding run_close_def
proof (rule lawful_get)
  fix cn assume c: "w_heap w c = Some cn"
  have st: "evolves w (set_conn c (cn\<lparr>cn_state := st\<rparr>) w)"
    if "st = Closed \<and> unsent cn = [] \<or> st = Disconnecting \<and> unsent cn \<noteq> []" for st
    using conn_ok_closing [OF _ that] by (intro evolves_set_conn [OF c]) simp_all
  show "lawful w (if \<not> has_bytes_to_write cn then
       bindr (if cn_closed_callback cn then user_call app (UClosed c) (set_conn c (cn\<lparr>cn_state := Closed\<rparr>) w)
              else Inr (set_conn c (cn\<lparr>cn_state := Closed\<rparr>) w)) (\<lambda>w. Inr (remove_connection (cn_fd cn) w))
     else Inr (set_conn c (cn\<lparr>cn_state := Disconnecting\<rparr>) w))"
    using st [of Closed] st [of Disconnecting]
    by (auto simp: has_bytes_iff intro!: lawful_bindr [of _ w] evolves_remove lawful_trans [OF _ lawful_user_call]
        dest: evolves_trans [OF _ evolves_remove])
qed

lemma evolves_force_close:
  assumes c: "w_heap w c = Some cn" "cn_buffer_out cn = Some b" "cn_event_source cn = Some es"
  shows "evolves w (set_conn c (cn\<lparr>cn_state := Closed, cn_buffer_out := Some (cb_clear b),
      cn_event_source := Some (set_interest_ops 0 es)\<rparr>) w)"
  using c(2,3) cb_clear_wf [of b] cb_clear_empty [of b] stream_ok_prefix
  by (intro evolves_set_conn [OF c(1)])
    (auto simp: conn_ok_def source_ok_def buffer_ok_def wakeup_ok_def stream_ok_def cb_empty_iff set_interest_ops_def
      slots_ok_def in_sync_def cb_clear_def split: es_state.splits)

lemma lawful_run_force_close: "lawful w (run_force_close app c w)"
  unfolding run_force_close_def
proof (rule lawful_get)
  fix cn assume c: "w_heap w c = Some cn"
  show "lawful w (case cn_buffer_out cn of None \<Rightarrow> Inl NullDeref | Some b \<Rightarrow>
      (case cn_event_source cn of None \<Rightarrow> Inl NullDeref | Some es \<Rightarrow>
        (let w = set_conn c (cn\<lparr>cn_state := Closed, cn_buffer_out := Some (cb_clear b),
                cn_event_source := Some (set_interest_ops 0 es)\<rparr>) w
         in if map_of (w_connections w) (cn_fd cn) \<noteq> None then
              bindr (if cn_closed_callback cn then user_call app (UClosed c) w else Inr w) (\<lambda>w.
              Inr (remove_connection (cn_fd cn) w))
            else Inr w)))"
    using evolves_force_close [OF c] by (auto simp: Let_def split: option.splits
        intro!: lawful_bindr [of _ w] evolves_remove lawful_trans [OF _ lawful_user_call]
        dest: evolves_trans [OF _ evolves_remove])
qed

lemma lawful_write_remaining: "lawful w (write_remaining c buf w)"
  by (simp add: write_remaining_def lawful_do_write)

lemma lawful_exec_task: "lawful w (exec_task app t w)"
  by (cases t) (auto simp: lawful_run_close lawful_run_force_close lawful_write_remaining lawful_user_call
      split: option.splits)

lemma register_new:
  assumes fd: "fd_fresh (cn_fd cn) w" and cn: "cn_state cn = New" "cn_buffer_out cn = None"
    and w0: "w0 = w\<lparr>w_next := Suc (w_next w), w_heap := (w_heap w)(w_next w \<mapsto> cn), w_frame := w_next w # w_frame w\<rparr>"
  shows "\<exists>w1 cn1. conn_register_event (w_next w) w0 = Inr w1 \<and> evolves_but {cn_fd cn} w w1 \<and> w_heap w1 (w_next w) = Some cn1 \<and>
    cn_fd cn1 = cn_fd cn"
proof -
  let ?c = "w_next w"
  define es where "es = (EventSource (cn_fd cn))\<lparr>es_interest := EPOLLIN, es_state := StateRegistered,
    es_read_callback := Some (OnConnRead ?c), es_write_callback := Some (OnConnWrite ?c),
    es_error_callback := Some (OnConnError ?c)\<rparr>"
  define cn1 where "cn1 = cn\<lparr>cn_event_source := Some es, cn_state := Receiving\<rparr>"
  define w1 where "w1 = w\<lparr>w_epoll := (w_epoll w)(cn_fd cn := Some EPOLLIN), w_heap := (w_heap w)(?c \<mapsto> cn1),
    w_next := Suc ?c, w_frame := ?c # w_frame w\<rparr>"
  have "EPOLLIN \<noteq> 0" by (simp add: EPOLLIN_def)
  then have "conn_register_event ?c w0 = Inr w1"
    using fd by (simp add: conn_register_event_def get_conn_def w0 w1_def cn1_def es_def enable_reading_def enable_ops_def
        EventSource_def register_event_def epoll_add_def fd_fresh_def set_conn_def Let_def)
  moreover have "evolves_but {cn_fd cn} w w1"
    unfolding w1_def
    by (rule evolves_spawn [OF fd]) (use cn fd \<open>EPOLLIN \<noteq> 0\<close> in
      \<open>auto simp: cn1_def es_def slots_ok_def EventSource_def in_sync_def fd_fresh_def unowned_def\<close>)
  ultimately show ?thesis by (auto simp: w1_def cn1_def)
qed

lemma lawful_new_connection:
  assumes "fd_fresh fd w"
  shows "lawful_but {fd} w (new_connection app cbs fd local peer w)"
proof -
  define cn where "cn = set_closed_callback (has_closed cbs) (set_read_callback (has_read cbs)
    (set_established_callback (has_established cbs) (Connection fd local peer)))"
  let ?w0 = "w\<lparr>w_next := Suc (w_next w), w_heap := (w_heap w)(w_next w \<mapsto> cn), w_frame := w_next w # w_frame w\<rparr>"
  from register_new [of cn w ?w0] assms obtain w1 cn1 where r: "conn_register_event (w_next w) ?w0 = Inr w1"
      "evolves_but {fd} w w1" "w_heap w1 (w_next w) = Some cn1"
    by (auto simp: cn_def Connection_def)
  have "lawful_but {fd} w (on_new_connection app (w_next w) ?w0)"
    unfolding on_new_connection_def r(1) bindr_simps get_conn_def r(3) option.case Let_def
    using evolves_trans [OF evolves_trans [OF r(2) evolves_mono [OF evolves_enter [OF r(3) refl]]]
        evolves_mono [OF evolves_release_opt]]
    by (auto intro: lawful_trans lawful_mono [OF lawful_user_call])
  then show ?thesis
    unfolding new_connection_def Let_def cn_def [symmetric]
    by (rule lawful_bindr) (simp add: evolves_mono [OF evolves_trans [OF evolves_drop(1) evolves_release]])
qed

section \<open>After a forced close\<close>

lemma run_force_close_Inr:
  assumes "run_force_close app c w = Inr w'"
  obtains cn b es w0 where "w_heap w c = Some cn" "cn_buffer_out cn = Some b" "cn_event_source cn = Some es"
    "w0 = set_conn c (cn\<lparr>cn_state := Closed, cn_buffer_out := Some (cb_clear b),
       cn_event_source := Some (set_interest_ops 0 es)\<rparr>) w"
    "evolves w0 w'"
proof -
  from assms obtain cn b es where c: "w_heap w c = Some cn" "cn_buffer_out cn = Some b" "cn_event_source cn = Some es"
    by (auto simp: run_force_close_def get_conn_def bindr_eq_Inr_iff split: option.splits)
  define w0 where "w0 = set_conn c (cn\<lparr>cn_state := Closed, cn_buffer_out := Some (cb_clear b),
       cn_event_source := Some (set_interest_ops 0 es)\<rparr>) w"
  have "lawful w0 (if map_of (w_connections w0) (cn_fd cn) \<noteq> None then
      bindr (if cn_closed_callback cn then user_call app (UClosed c) w0 else Inr w0) (\<lambda>w. Inr (remove_connection (cn_fd cn) w))
      else Inr w0)"
    by (auto intro!: lawful_bindr [of _ w0] lawful_user_call evolves_remove)
  with assms c have "evolves w0 w'"
    by (simp add: run_force_close_def get_conn_def w0_def [symmetric] lawful_but_def Let_def)
  with c w0_def that show ?thesis by blast
qed

lemma run_force_close_closed:
  assumes "run_force_close app c w = Inr w'" and "world_wf w" and "within_quota w'" and "w_heap w' c = Some cn'"
  shows "cn_state cn' = Closed"
proof -
  from assms(1) obtain cn b es w0 where c: "w_heap w c = Some cn" "cn_buffer_out cn = Some b" "cn_event_source cn = Some es"
    and w0: "w0 = set_conn c (cn\<lparr>cn_state := Closed, cn_buffer_out := Some (cb_clear b),
       cn_event_source := Some (set_interest_ops 0 es)\<rparr>) w" and e: "evolves w0 w'"
    by (rule run_force_close_Inr)
  have "evolves w w0" unfolding w0 by (rule evolves_force_close [OF c])
  moreover have "within_quota w0" using e assms(3) within_quota_grows by (auto simp: evolves_but_def)
  ultimately have wf: "world_wf w0" using assms(2) by (simp add: evolves_but_def)
  have c0: "w_heap w0 c = Some (cn\<lparr>cn_state := Closed, cn_buffer_out := Some (cb_clear b),
       cn_event_source := Some (set_interest_ops 0 es)\<rparr>)" by (simp add: w0 set_conn_def)
  with world_wfD(6) [OF wf, of c] have "c < w_next w0" by (cases "c < w_next w0") auto
  with e wf assms(3,4) c0 show ?thesis by (auto simp: evolves_but_def objs_grow_def)
qed

section \<open>A new connection, evaluated\<close>

text \<open>
  With an application that makes no calls when it hears of the connection. The descriptor is not
  watched yet and has no entry in \<open>connections_\<close>; it may be invalid.
\<close>

definition new_conn :: "callbacks \<Rightarrow> int \<Rightarrow> inet_address \<Rightarrow> inet_address \<Rightarrow> cid \<Rightarrow> connection" where
  "new_conn cbs fd local peer c = (Connection fd local peer)\<lparr>cn_state := Receiving,
     cn_established_callback := has_established cbs, cn_read_callback := has_read cbs, cn_closed_callback := has_closed cbs,
     cn_event_source := Some ((EventSource fd)\<lparr>es_interest := EPOLLIN, es_state := StateRegistered,
       es_read_callback := Some (OnConnRead c), es_write_callback := Some (OnConnWrite c),
       es_error_callback := Some (OnConnError c)\<rparr>)\<rparr>"

lemma new_connection_eval:
  assumes k: "w_epoll w fd = None" and m: "map_of (w_connections w) fd = None"
    and app: "\<And>log. app log (UEstablished (w_next w)) = []"
  shows "new_connection app cbs fd local peer w = Inr (w\<lparr>
    w_epoll := (if 0 \<le> fd then (w_epoll w)(fd \<mapsto> EPOLLIN) else w_epoll w),
    w_heap := (w_heap w)(w_next w \<mapsto> new_conn cbs fd local peer (w_next w)), w_next := Suc (w_next w),
    w_connections := AList.update fd (w_next w) (w_connections w),
    w_log := w_log w @ (if has_established cbs then [UEstablished (w_next w)] else [])\<rparr>)"
proof -
  let ?c = "w_next w"
  have nz: "EPOLLIN \<noteq> 0" by (simp add: EPOLLIN_def)
  have ref: "?c \<in> snd ` set (AList.update fd ?c (w_connections w))"
    using AList_update_mem [of fd ?c "w_connections w"] by (rule rev_image_eqI) simp
  have rel: "release ?c v = v" if "w_connections v = AList.update fd ?c (w_connections w)" for v
    using ref that by (simp add: release_def referenced_def split: option.splits)
  show ?thesis
    using k m nz
    by (simp add: new_connection_def on_new_connection_def conn_register_event_def get_conn_def set_conn_def Let_def
        enable_reading_def enable_ops_def EventSource_def register_event_def epoll_add_def new_conn_def Connection_def
        user_call_def app rel)
qed

end
