(* ===== verification/Acceptor.thy ===== *)
theory Acceptor
  imports Connection
begin

text \<open>
  \<^verbatim>\<open>src/ServerSocket.cpp\<close> and \<^verbatim>\<open>src/Acceptor.cpp\<close>: the listening socket, and the event source that
  accepts one connection each time the socket is readable. What the kernel answers to \<open>socket\<close>,
  \<open>bind\<close> and \<open>accept4\<close> is an argument.
\<close>

section \<open>The server socket\<close>

record sockaddr_in =
  sin_family :: int
  sin_port :: u16
  sin_addr :: u32

definition sockaddr_of :: "inet_address \<Rightarrow> sockaddr_in" where
  "sockaddr_of addr = \<lparr>sin_family = AF_INET, sin_port = ia_port addr, sin_addr = ia_ip addr\<rparr>"

text \<open>
  The socket with the options the kernel keeps for it. A failing \<open>socket\<close> is only logged; the
  descriptor is then negative.
\<close>

record server_socket =
  ss_fd :: int
  so_reuseaddr :: bool
  so_reuseport :: bool

definition ServerSocket :: "int \<Rightarrow> server_socket" where
  "ServerSocket fd = \<lparr>ss_fd = fd, so_reuseaddr = False, so_reuseport = False\<rparr>"

definition ss_reuse_address :: "bool \<Rightarrow> server_socket \<Rightarrow> server_socket" where
  "ss_reuse_address on ss = ss\<lparr>so_reuseaddr := on\<rparr>"

definition ss_reuse_port :: "bool \<Rightarrow> server_socket \<Rightarrow> server_socket" where
  "ss_reuse_port on ss = ss\<lparr>so_reuseport := on\<rparr>"

definition ss_destroy :: "server_socket \<Rightarrow> world \<Rightarrow> world" where
  "ss_destroy ss w = w\<lparr>w_epoll := (w_epoll w)(ss_fd ss := None), w_closed := w_closed w @ [ss_fd ss]\<rparr>"

text \<open>A failing \<open>bind\<close> throws; a failing \<open>listen\<close> is only logged.\<close>

type_synonym bind_call = "server_socket \<Rightarrow> sockaddr_in \<Rightarrow> int"

definition ss_bind :: "bind_call \<Rightarrow> (u32 \<Rightarrow> string) \<Rightarrow> server_socket \<Rightarrow> inet_address \<Rightarrow> unit res" where
  "ss_bind bind inet_ntop ss addr =
     (if bind ss (sockaddr_of addr) < 0 then Inl (Thrown (''invalid addr '' @ ia_to_string inet_ntop addr))
      else Inr ())"

datatype accept_answer = AcceptFail | Accepted int u32 u16

text \<open>When \<open>accept4\<close> fails the address structure is still all zero.\<close>

fun ss_accept :: "accept_answer \<Rightarrow> int \<times> inet_address" where
  "ss_accept AcceptFail = (-1, InetAddress_of 0 0)"
| "ss_accept (Accepted fd ip port) = (fd, InetAddress_of ip port)"

section \<open>The acceptor\<close>

record acceptor =
  ac_socket :: server_socket
  ac_source :: "event_cb event_source"
  ac_peer :: inet_address
  ac_local :: inet_address
  ac_on_new_connection :: "callbacks option"

definition Acceptor :: "bind_call \<Rightarrow> (u32 \<Rightarrow> string) \<Rightarrow> int \<Rightarrow> inet_address \<Rightarrow> world \<Rightarrow> (acceptor \<times> world) res" where
  "Acceptor bind inet_ntop fd addr w =
     (let ss = ss_reuse_port True (ServerSocket fd)
      in bindr (ss_bind bind inet_ntop ss addr) (\<lambda>_.
         (case enable_reading (EventSource (ss_fd ss), w_epoll w) of (es, k) \<Rightarrow>
            Inr (\<lparr>ac_socket = ss, ac_source = set_reading_callback OnAccept es, ac_peer = InetAddress_default,
                  ac_local = addr, ac_on_new_connection = None\<rparr>, w\<lparr>w_epoll := k\<rparr>))))"

definition Acceptor_of_string :: "(string \<Rightarrow> u32 option) \<Rightarrow> bind_call \<Rightarrow> (u32 \<Rightarrow> string) \<Rightarrow> int \<Rightarrow> string \<Rightarrow> world \<Rightarrow>
    (acceptor \<times> world) res" where
  "Acceptor_of_string inet_pton bind inet_ntop fd addr_str w =
     bindr (InetAddress_parse inet_pton addr_str) (\<lambda>addr. Acceptor bind inet_ntop fd addr w)"

definition new_connection_callback :: "callbacks \<Rightarrow> acceptor \<Rightarrow> acceptor" where
  "new_connection_callback cbs a = a\<lparr>ac_on_new_connection := Some cbs\<rparr>"

text \<open>The reading callback.\<close>

definition accept_ready :: "app \<Rightarrow> accept_answer \<Rightarrow> acceptor \<Rightarrow> world \<Rightarrow> (acceptor \<times> world) res" where
  "accept_ready app answer a w =
     (case ss_accept answer of (fd, peer) \<Rightarrow>
        let a = a\<lparr>ac_peer := peer\<rparr>
        in case ac_on_new_connection a of
             None \<Rightarrow> Inr (a, w)
           | Some cbs \<Rightarrow> bindr (new_connection app cbs fd (ac_local a) (ac_peer a) w) (\<lambda>w. Inr (a, w)))"

text \<open>\<open>~Acceptor\<close>: the event source unregisters itself, then the socket is closed.\<close>

definition acceptor_destroy :: "acceptor \<Rightarrow> world \<Rightarrow> world" where
  "acceptor_destroy a w =
     ss_destroy (ac_socket a) (w\<lparr>w_epoll := snd (disable_all (ac_source a, w_epoll w))\<rparr>)"

section \<open>Laws\<close>

lemmas acceptor_socket = Let_def ss_reuse_port_def ServerSocket_def

definition accept_ok :: "accept_answer \<Rightarrow> world \<Rightarrow> bool" where
  "accept_ok answer w \<longleftrightarrow> (case answer of AcceptFail \<Rightarrow> False | Accepted fd ip port \<Rightarrow> fd_fresh fd w)"

fun accepted_fds :: "accept_answer \<Rightarrow> int set" where
  "accepted_fds AcceptFail = {-1}"
| "accepted_fds (Accepted fd ip port) = {fd}"

lemma accept_ready_evolves:
  assumes "accept_ok answer w" and "accept_ready app answer a w = Inr (a', w')"
  shows "evolves_but (accepted_fds answer) w w'" and "ac_source a' = ac_source a" and "ac_socket a' = ac_socket a"
proof -
  from assms(1) obtain fd ip port where a: "answer = Accepted fd ip port" and f: "fd_fresh fd w"
    by (auto simp: accept_ok_def split: accept_answer.splits)
  from lawful_new_connection [OF f] assms(2) show "evolves_but (accepted_fds answer) w w'"
    by (auto simp: accept_ready_def a Let_def bindr_eq_Inr_iff lawful_but_def split: option.splits)
  from assms(2) show "ac_source a' = ac_source a" "ac_socket a' = ac_socket a"
    by (auto simp: accept_ready_def a Let_def bindr_eq_Inr_iff split: option.splits)
qed

section \<open>A failed accept\<close>

text \<open>
  C39: the acceptor does not look at the descriptor. When \<open>accept4\<close> fails, a connection object with
  descriptor \<open>-1\<close> and the zero address is made, entered in \<open>connections_\<close> and reported to the
  application as established, while the kernel watches nothing for it.
\<close>

theorem accept_failure_connects:
  assumes "ac_on_new_connection a = Some cbs" and "w_epoll w (-1) = None" and "map_of (w_connections w) (-1) = None"
    and "\<And>log. app log (UEstablished (w_next w)) = []"
  shows "\<exists>w' cn. accept_ready app AcceptFail a w = Inr (a\<lparr>ac_peer := InetAddress_of 0 0\<rparr>, w') \<and>
    map_of (w_connections w') (-1) = Some (w_next w) \<and> w_heap w' (w_next w) = Some cn \<and>
    cn_fd cn = -1 \<and> cn_state cn = Receiving \<and> cn_peer cn = InetAddress_of 0 0 \<and> w_epoll w' = w_epoll w \<and>
    w_log w' = w_log w @ (if has_established cbs then [UEstablished (w_next w)] else [])"
  using assms(1) new_connection_eval [where fd = "-1" and app = app and cbs = cbs, OF assms(2-4)]
  by (simp add: accept_ready_def new_conn_def Connection_def update_conv')

definition demo_acceptor :: acceptor where
  "demo_acceptor = \<lparr>ac_socket = ServerSocket 4, ac_source = EventSource 4, ac_peer = InetAddress_default, ac_local = InetAddress_default,
     ac_on_new_connection = Some \<lparr>has_established = True, has_read = True, has_closed = True\<rparr>\<rparr>"

theorem accept_failure_connects_witness:
  "\<exists>a w' cn. accept_ready (\<lambda>_ _. []) AcceptFail demo_acceptor EventLoop_members = Inr (a, w') \<and>
    w_heap w' 0 = Some cn \<and> cn_fd cn = -1 \<and> w_log w' = [UEstablished 0]"
proof -
  have "ac_on_new_connection demo_acceptor = Some \<lparr>has_established = True, has_read = True, has_closed = True\<rparr>"
    and "w_epoll EventLoop_members (-1) = None" and "map_of (w_connections EventLoop_members) (-1) = None"
    and "w_next EventLoop_members = 0" and "w_log EventLoop_members = []"
    by (simp_all add: demo_acceptor_def EventLoop_members_def)
  with accept_failure_connects [where app = "\<lambda>_ _. []", OF this(1-3)] show ?thesis by auto
qed

end
