(* ===== verification/Connector.thy ===== *)
theory Connector
  imports Acceptor
begin

text \<open>
  \<^verbatim>\<open>src/Connector.cpp\<close>: an outgoing connection. The connector owns a socket until the connect
  completes; then the socket belongs to the new \<open>Connection\<close>. The connector's own event source only
  waits for the socket to become writable.
\<close>

section \<open>Definitions\<close>

record connector =
  ct_fd :: int
  ct_local :: inet_address
  ct_peer :: inet_address
  ct_source :: "event_cb event_source option"
  ct_connect_error_callback :: bool
  ct_callbacks :: callbacks

definition Connector :: "int \<Rightarrow> inet_address \<Rightarrow> connector res" where
  "Connector fd peer =
     (if fd < 0 then Inl (Thrown ''create socket error'')
      else Inr \<lparr>ct_fd = fd, ct_local = InetAddress_default, ct_peer = peer, ct_source = None,
                ct_connect_error_callback = False,
                ct_callbacks = \<lparr>has_established = False, has_read = False, has_closed = False\<rparr>\<rparr>)"

definition ct_set_connect_error_callback :: "bool \<Rightarrow> connector \<Rightarrow> connector" where
  "ct_set_connect_error_callback b ct = ct\<lparr>ct_connect_error_callback := b\<rparr>"

definition ct_set_established_callback :: "bool \<Rightarrow> connector \<Rightarrow> connector" where
  "ct_set_established_callback b ct = ct\<lparr>ct_callbacks := (ct_callbacks ct)\<lparr>has_established := b\<rparr>\<rparr>"

definition ct_set_read_callback :: "bool \<Rightarrow> connector \<Rightarrow> connector" where
  "ct_set_read_callback b ct = ct\<lparr>ct_callbacks := (ct_callbacks ct)\<lparr>has_read := b\<rparr>\<rparr>"

definition ct_set_closed_callback :: "bool \<Rightarrow> connector \<Rightarrow> connector" where
  "ct_set_closed_callback b ct = ct\<lparr>ct_callbacks := (ct_callbacks ct)\<lparr>has_closed := b\<rparr>\<rparr>"

definition EINPROGRESS :: int where "EINPROGRESS = 115"

text \<open>\<open>connect\<close> answers with its return value and \<open>errno\<close>.\<close>

definition do_connect :: "(sockaddr_in \<Rightarrow> int \<times> int) \<Rightarrow> connector \<Rightarrow> bool" where
  "do_connect connect ct =
     (case connect (sockaddr_of (ct_peer ct)) of (ret, err) \<Rightarrow> \<not> (ret < 0 \<and> err \<noteq> EINPROGRESS))"

definition handle_error :: "app \<Rightarrow> connector \<Rightarrow> world \<Rightarrow> world res" where
  "handle_error app ct w =
     bindr (if ct_connect_error_callback ct then user_call app UConnectError w else Inr w) (\<lambda>w.
     Inr (w\<lparr>w_epoll := (w_epoll w)(ct_fd ct := None), w_closed := w_closed w @ [ct_fd ct]\<rparr>))"

definition start_connect :: "app \<Rightarrow> (sockaddr_in \<Rightarrow> int \<times> int) \<Rightarrow> nat \<Rightarrow> connector \<Rightarrow> world \<Rightarrow> (connector \<times> world) res" where
  "start_connect app connect i ct w =
     (let es = set_error_callback (OnConnectError i) (set_writing_callback (OnConnected i) (EventSource (ct_fd ct)))
      in if \<not> do_connect connect ct
         then bindr (handle_error app ct w) (\<lambda>w. Inr (ct\<lparr>ct_source := Some es\<rparr>, w))
         else (case enable_writing (es, w_epoll w) of (es, k) \<Rightarrow>
                 Inr (ct\<lparr>ct_source := Some es\<rparr>, w\<lparr>w_epoll := k\<rparr>)))"

text \<open>
  The kernel's answers when the socket is writable: the pending error (\<open>SO_ERROR\<close>) and the local
  address, all zero when \<open>getsockname\<close> fails.
\<close>

record connect_answer =
  so_error :: int
  sockname :: "(u32 \<times> u16) option"

definition handle_connected :: "app \<Rightarrow> connect_answer \<Rightarrow> connector \<Rightarrow> world \<Rightarrow> (connector \<times> world) res" where
  "handle_connected app answer ct w =
     (case ct_source ct of
        None \<Rightarrow> Inl NullDeref
      | Some es \<Rightarrow>
          (case disable_writing (es, w_epoll w) of (es, k) \<Rightarrow>
             let ct = ct\<lparr>ct_source := Some es\<rparr>; w = w\<lparr>w_epoll := k\<rparr>
             in if so_error answer \<noteq> 0
                then bindr (handle_error app ct w) (\<lambda>w. Inr (ct, w))
                else
                  (let ct = ct\<lparr>ct_local := (case sockname answer of None \<Rightarrow> InetAddress_of 0 0
                                           | Some (ip, port) \<Rightarrow> InetAddress_of ip port)\<rparr>
                   in bindr (new_connection app (ct_callbacks ct) (ct_fd ct) (ct_local ct) (ct_peer ct) w) (\<lambda>w.
                      Inr (ct, w)))))"

text \<open>\<open>~Connector\<close>.\<close>

definition connector_destroy :: "connector \<Rightarrow> world \<Rightarrow> world" where
  "connector_destroy ct w =
     (case ct_source ct of None \<Rightarrow> w | Some es \<Rightarrow> w\<lparr>w_epoll := snd (disable_all (es, w_epoll w))\<rparr>)"

section \<open>Laws\<close>

text \<open>A connector that waits for its socket: only its own source watches the descriptor.\<close>

definition connecting :: "connector \<Rightarrow> world \<Rightarrow> bool" where
  "connecting ct w \<longleftrightarrow> unowned (ct_fd ct) w \<and>
     (case ct_source ct of None \<Rightarrow> False | Some es \<Rightarrow>
        es_fd es = ct_fd ct \<and> es_interest es = EPOLLOUT \<and> es_synced es (w_epoll w))"

lemma evolves_unowned:
  assumes "evolves w w'" and "world_wf w" and "within_quota w'" and "unowned fd w"
  shows "unowned fd w' \<and> w_epoll w' fd = w_epoll w fd"
  using assms by (simp add: evolves_but_def objs_grow_def)

lemma unowned_epoll [simp]: "unowned fd (w\<lparr>w_epoll := k\<rparr>) = unowned fd w"
  by (simp add: unowned_def)

lemma evolves_close_fd:
  assumes "unowned fd w"
  shows "evolves_but {fd} w (w\<lparr>w_epoll := (w_epoll w)(fd := None), w_closed := cl\<rparr>)"
proof -
  have "evolves_but {fd} w (w\<lparr>w_epoll := (w_epoll w)(fd := None)\<rparr>)"
    by (rule evolves_epoll) (use assms in \<open>auto simp: unowned_def\<close>)
  then show ?thesis
    unfolding evolves_but_def grows_def objs_grow_def unowned_def world_wf_def within_quota_def referenced_def by simp
qed

lemma lawful_handle_error:
  assumes u: "unowned (ct_fd ct) w"
  shows "lawful_but {ct_fd ct} w (handle_error app ct w)"
proof -
  have "evolves_but {ct_fd ct} w (w1\<lparr>w_epoll := (w_epoll w1)(ct_fd ct := None), w_closed := cl\<rparr>)"
    if e: "evolves w w1" for w1 cl
  proof -
    let ?w = "w1\<lparr>w_epoll := (w_epoll w1)(ct_fd ct := None), w_closed := cl\<rparr>"
    have q: "within_quota ?w = within_quota w1" by (simp add: within_quota_def)
    have "evolves_but {ct_fd ct} w1 ?w" if "world_wf w" "within_quota ?w"
      using evolves_unowned [OF e that(1) _ u] that(2) by (intro evolves_close_fd) (simp add: q)
    moreover have "grows w ?w" using e by (simp add: evolves_but_def grows_def)
    ultimately show ?thesis
      using evolves_trans [OF evolves_mono [OF e], of "{ct_fd ct}" ?w] unfolding evolves_but_def by blast
  qed
  with lawful_user_call [of w app UConnectError] show ?thesis
    by (auto simp: handle_error_def lawful_but_def bindr_eq_Inr_iff)
qed

lemma disable_writing_done:
  assumes "connecting ct w" and "ct_source ct = Some es" and "disable_writing (es, w_epoll w) = (es', k)"
  shows "k = (w_epoll w)(ct_fd ct := None)" and "0 \<le> ct_fd ct"
proof -
  have "EPOLLOUT AND NOT EPOLLOUT = (0 :: u32)" by simp
  with assms show "k = (w_epoll w)(ct_fd ct := None)" and "0 \<le> ct_fd ct"
    by (auto simp: connecting_def disable_writing_def disable_ops_def unregister_event_def epoll_del_def in_sync_def)
qed

lemma handle_connected_evolves:
  assumes c: "connecting ct w" and r: "handle_connected app answer ct w = Inr (ct', w')"
  shows "evolves_but {ct_fd ct} w w'"
proof -
  from c obtain es where es: "ct_source ct = Some es" and u: "unowned (ct_fd ct) w"
    by (auto simp: connecting_def split: option.splits)
  obtain es' k where d: "disable_writing (es, w_epoll w) = (es', k)" by fastforce
  note k = disable_writing_done [OF c es d]
  let ?w = "w\<lparr>w_epoll := k\<rparr>"
  have e: "evolves_but {ct_fd ct} w ?w"
    by (rule evolves_epoll) (use u in \<open>auto simp: k(1) unowned_def\<close>)
  have fresh: "fd_fresh (ct_fd ct) ?w" using u k by (simp add: fd_fresh_def)
  show ?thesis
    using r e lawful_handle_error [of "ct\<lparr>ct_source := Some es'\<rparr>" ?w app] lawful_new_connection [OF fresh] u
    by (auto simp: handle_connected_def es d Let_def bindr_eq_Inr_iff lawful_but_def split: if_splits
        intro: evolves_trans [OF e])
qed

lemma handle_error_unowned:
  assumes "unowned (ct_fd ct) w" and "handle_error app ct w = Inr w'" and "world_wf w" and "within_quota w'"
  shows "unowned (ct_fd ct) w'"
proof -
  have "lawful w (if ct_connect_error_callback ct then user_call app UConnectError w else Inr w)"
    by (simp add: lawful_user_call)
  with assms(2) obtain w1 cl where w1: "evolves w w1"
    and w': "w' = w1\<lparr>w_epoll := (w_epoll w1)(ct_fd ct := None), w_closed := cl\<rparr>"
    unfolding handle_error_def lawful_but_def bindr_eq_Inr_iff by blast
  have "within_quota w1" using assms(4) by (simp add: w' within_quota_def)
  from evolves_unowned [OF w1 assms(3) this assms(1)] show ?thesis by (simp add: w' unowned_def)
qed

section \<open>The outcome of a connect\<close>

text \<open>
  C21: a connector whose socket became writable decides on the pending error. With an error, the error
  callback runs and the socket is closed; no connection is made. Without one, the socket goes to a new
  receiving connection with the peer's address, which the kernel watches for reading only and which is
  not closed. Either way the connector's own source watches nothing afterwards, and the destructor
  \<open>~Connector\<close> leaves the kernel's list alone.
\<close>

theorem connect_outcome:
  assumes c: "connecting ct w" and es: "ct_source ct = Some es" and m: "map_of (w_connections w) (ct_fd ct) = None"
    and app: "\<And>log. app log (UEstablished (w_next w)) = []" "\<And>log. app log UConnectError = []"
  shows "\<exists>ct' es' w'. handle_connected app answer ct w = Inr (ct', w') \<and> ct_source ct' = Some es' \<and>
    es_state es' = StateNoEvent \<and> connector_destroy ct' w' = w' \<and>
    (if so_error answer \<noteq> 0
     then w' = w\<lparr>w_epoll := (w_epoll w)(ct_fd ct := None), w_closed := w_closed w @ [ct_fd ct],
       w_log := w_log w @ (if ct_connect_error_callback ct then [UConnectError] else [])\<rparr>
     else map_of (w_connections w') (ct_fd ct) = Some (w_next w) \<and> w_closed w' = w_closed w \<and>
       w_epoll w' = (w_epoll w)(ct_fd ct \<mapsto> EPOLLIN) \<and>
       (\<exists>cn. w_heap w' (w_next w) = Some cn \<and> cn_fd cn = ct_fd ct \<and> cn_state cn = Receiving \<and> cn_peer cn = ct_peer ct))"
proof -
  obtain es' k where d: "disable_writing (es, w_epoll w) = (es', k)" by fastforce
  note k = disable_writing_done [OF c es d]
  have no: "es_state es' = StateNoEvent"
    using d c es by (auto simp: connecting_def disable_writing_def disable_ops_def in_sync_def Let_def split: if_splits es_state.splits)
  then have da: "snd (disable_all (es', e)) = e" for e by (simp add: disable_all_def)
  let ?w = "w\<lparr>w_epoll := k\<rparr>"
  have "w_epoll ?w (ct_fd ct) = None" "map_of (w_connections ?w) (ct_fd ct) = None"
    "\<And>log. app log (UEstablished (w_next ?w)) = []" using k m app by simp_all
  note nc = new_connection_eval [where app = app and cbs = "ct_callbacks ct" and peer = "ct_peer ct", OF this, unfolded k(1)]
  show ?thesis
    using k(2) no
    by (cases "so_error answer = 0")
      (simp_all add: handle_connected_def es d Let_def nc new_conn_def Connection_def update_conv' handle_error_def user_call_def app
        connector_destroy_def da k(1))
qed

definition demo_connector :: connector where
  "demo_connector = \<lparr>ct_fd = 5, ct_local = InetAddress_default, ct_peer = InetAddress_of 1 2,
     ct_source = Some ((EventSource 5)\<lparr>es_interest := EPOLLOUT, es_state := StateRegistered,
       es_write_callback := Some (OnConnected 0), es_error_callback := Some (OnConnectError 0)\<rparr>),
     ct_connect_error_callback = True, ct_callbacks = \<lparr>has_established = True, has_read = True, has_closed = True\<rparr>\<rparr>"

theorem connect_outcome_witness:
  "\<exists>ct w' cn. handle_connected (\<lambda>_ _. []) \<lparr>so_error = 0, sockname = None\<rparr> demo_connector
      (EventLoop_members\<lparr>w_epoll := [5 \<mapsto> EPOLLOUT]\<rparr>) = Inr (ct, w') \<and>
    w_heap w' 0 = Some cn \<and> cn_fd cn = 5 \<and> cn_peer cn = InetAddress_of 1 2 \<and> w_epoll w' 5 = Some EPOLLIN"
proof -
  let ?w = "EventLoop_members\<lparr>w_epoll := [5 \<mapsto> EPOLLOUT]\<rparr>" and ?es = "the (ct_source demo_connector)"
  have "EPOLLOUT \<noteq> 0" by (simp add: epoll_masks)
  then have "connecting demo_connector ?w" and "ct_source demo_connector = Some ?es"
    and "map_of (w_connections ?w) (ct_fd demo_connector) = None"
    by (simp_all add: connecting_def unowned_def demo_connector_def EventLoop_members_def EventSource_def in_sync_def)
  from connect_outcome [where app = "\<lambda>_ _. []" and answer = "\<lparr>so_error = 0, sockname = None\<rparr>", OF this]
  show ?thesis by (auto simp: demo_connector_def EventLoop_members_def)
qed

end
