(* ===== verification/Event_Loop.thy ===== *)
theory Event_Loop
  imports Connector
begin

text \<open>
  \<^verbatim>\<open>src/EventLoop.cpp\<close>: \<open>EventLoop::run\<close> as a machine. Its phases are the program points of the loop:
  the test of \<open>running_\<close>, waiting in \<open>epoll_wait\<close>, the loop over the active events, the loop over the
  callbacks that other threads posted, and the loop that drains the task queue. One step runs one
  handler, one callback or one task. Other threads may act between any two steps.
\<close>

section \<open>State\<close>

datatype src = SNotify | SAccept | SConnector nat | SConn cid

text \<open>
  An event of \<open>epoll_wait\<close>: the event source (\<open>data.ptr\<close>), its mask, and the answers of the kernel
  to the system calls that the handlers of this event make.
\<close>

record ready =
  rd_src :: src
  rd_ops :: u32
  rd_read :: read_result
  rd_write :: int
  rd_accept :: accept_answer
  rd_connect :: connect_answer

datatype phase = Test | Poll | Dispatch "ready list" | Batch "task list" | Drain | Exit

record loop =
  lp_world :: world
  lp_notify :: "event_cb event_source"
  lp_acceptor :: "acceptor option"
  lp_connectors :: "nat \<rightharpoonup> connector"
  lp_phase :: phase

definition EventLoop :: "int \<Rightarrow> loop" where
  "EventLoop notify_fd =
     (case enable_reading (EventSource notify_fd, w_epoll EventLoop_members) of (es, k) \<Rightarrow>
        \<lparr>lp_world = EventLoop_members\<lparr>w_epoll := k\<rparr>, lp_notify = set_reading_callback OnNotify es,
         lp_acceptor = None, lp_connectors = Map.empty, lp_phase = Test\<rparr>)"

definition on_world :: "(world \<Rightarrow> world res) \<Rightarrow> loop \<Rightarrow> loop res" where
  "on_world f l = bindr (f (lp_world l)) (\<lambda>w. Inr (l\<lparr>lp_world := w\<rparr>))"

section \<open>Event sources\<close>

fun source_of :: "src \<Rightarrow> loop \<Rightarrow> event_cb event_source res" where
  "source_of SNotify l = Inr (lp_notify l)"
| "source_of SAccept l = (case lp_acceptor l of None \<Rightarrow> Inl UseAfterFree | Some a \<Rightarrow> Inr (ac_source a))"
| "source_of (SConnector i) l =
     (case lp_connectors l i of None \<Rightarrow> Inl UseAfterFree | Some ct \<Rightarrow>
        (case ct_source ct of None \<Rightarrow> Inl UseAfterFree | Some es \<Rightarrow> Inr es))"
| "source_of (SConn c) l =
     bindr (get_conn c (lp_world l)) (\<lambda>cn.
     case cn_event_source cn of None \<Rightarrow> Inl UseAfterFree | Some es \<Rightarrow> Inr es)"

fun put_source :: "src \<Rightarrow> event_cb event_source \<Rightarrow> loop \<Rightarrow> loop" where
  "put_source SNotify es l = l\<lparr>lp_notify := es\<rparr>"
| "put_source SAccept es l = l\<lparr>lp_acceptor := map_option (\<lambda>a. a\<lparr>ac_source := es\<rparr>) (lp_acceptor l)\<rparr>"
| "put_source (SConnector i) es l =
     l\<lparr>lp_connectors := (lp_connectors l)(i := map_option (\<lambda>ct. ct\<lparr>ct_source := Some es\<rparr>) (lp_connectors l i))\<rparr>"
| "put_source (SConn c) es l =
     l\<lparr>lp_world := (lp_world l)\<lparr>w_heap := (w_heap (lp_world l))(c := map_option (\<lambda>cn. cn\<lparr>cn_event_source := Some es\<rparr>)
        (w_heap (lp_world l) c))\<rparr>\<rparr>"

definition mark_ready :: "ready \<Rightarrow> loop \<Rightarrow> loop res" where
  "mark_ready r l = bindr (source_of (rd_src r) l) (\<lambda>es. Inr (put_source (rd_src r) (set_ready_ops (rd_ops r) es) l))"

fun mark_all :: "ready list \<Rightarrow> loop \<Rightarrow> loop res" where
  "mark_all [] l = Inr l"
| "mark_all (r # rs) l = bindr (mark_ready r l) (mark_all rs)"

text \<open>
  \<open>pull_events\<close> and the test of its result: \<open>epoll_wait\<close> fails (\<open>None\<close>) and the loop is left, or it
  stores at most as many events as the array holds, and a full array is doubled.
\<close>

definition pull_events :: "ready list option \<Rightarrow> loop \<Rightarrow> loop res" where
  "pull_events answer l =
     (case answer of
        None \<Rightarrow> Inr (l\<lparr>lp_phase := Exit\<rparr>)
      | Some rs \<Rightarrow>
          (let events = take (w_events_size (lp_world l)) rs
           in bindr (mark_all events l) (\<lambda>l.
              let w = lp_world l;
                  w = (if length events = w_events_size w then w\<lparr>w_events_size := length events * 2\<rparr> else w)
              in Inr (l\<lparr>lp_world := w, lp_phase := Dispatch events\<rparr>))))"

text \<open>The callbacks in the slots of the event sources.\<close>

fun call_back :: "app \<Rightarrow> ready \<Rightarrow> event_cb \<Rightarrow> loop \<Rightarrow> loop res" where
  "call_back app r OnNotify l = Inr (l\<lparr>lp_world := (lp_world l)\<lparr>w_eventfd := 0\<rparr>\<rparr>)"
| "call_back app r (OnConnRead c) l = on_world (handle_read app c (rd_read r)) l"
| "call_back app r (OnConnWrite c) l = on_world (handle_write app c (rd_write r)) l"
| "call_back app r (OnConnError c) l = on_world (conn_force_close True c) l"
| "call_back app r OnAccept l =
     (case lp_acceptor l of None \<Rightarrow> Inl UseAfterFree | Some a \<Rightarrow>
        bindr (accept_ready app (rd_accept r) a (lp_world l)) (\<lambda>(a, w).
        Inr (l\<lparr>lp_acceptor := Some a, lp_world := w\<rparr>)))"
| "call_back app r (OnConnected i) l =
     (case lp_connectors l i of None \<Rightarrow> Inl UseAfterFree | Some ct \<Rightarrow>
        bindr (handle_connected app (rd_connect r) ct (lp_world l)) (\<lambda>(ct, w).
        Inr (l\<lparr>lp_connectors := (lp_connectors l)(i \<mapsto> ct), lp_world := w\<rparr>)))"
| "call_back app r (OnConnectError i) l =
     (case lp_connectors l i of None \<Rightarrow> Inl UseAfterFree | Some ct \<Rightarrow> on_world (handle_error app ct) l)"

text \<open>
  \<open>handle_events\<close> on a source. After every callback but the last possible one (the writing callback)
  the function reads a member of the source again.
\<close>

fun last_callback :: "event_cb \<Rightarrow> bool" where
  "last_callback (OnConnWrite c) = True"
| "last_callback (OnConnected i) = True"
| "last_callback _ = False"

fun call_backs :: "app \<Rightarrow> ready \<Rightarrow> event_cb list \<Rightarrow> loop \<Rightarrow> loop res" where
  "call_backs app r [] l = Inr l"
| "call_backs app r (cb # cbs) l =
     bindr (call_back app r cb l) (\<lambda>l.
     if last_callback cb then call_backs app r cbs l
     else bindr (source_of (rd_src r) l) (\<lambda>_. call_backs app r cbs l))"

definition disable_source :: "src \<Rightarrow> loop \<Rightarrow> loop res" where
  "disable_source s l =
     bindr (source_of s l) (\<lambda>es.
     case disable_all (es, w_epoll (lp_world l)) of (es, k) \<Rightarrow>
       Inr (put_source s es (l\<lparr>lp_world := (lp_world l)\<lparr>w_epoll := k\<rparr>\<rparr>)))"

definition dispatch :: "app \<Rightarrow> ready \<Rightarrow> loop \<Rightarrow> loop res" where
  "dispatch app r l =
     bindr (source_of (rd_src r) l) (\<lambda>es.
     case handle_events es of (cbs, disable) \<Rightarrow>
       bindr (call_backs app r cbs l) (\<lambda>l. if disable then disable_source (rd_src r) l else Inr l))"

section \<open>The machine\<close>

text \<open>The end of the loop body: the vector \<open>callbacks\<close> goes, and with it what its elements captured.\<close>

fun drop_callbacks :: "task list \<Rightarrow> world \<Rightarrow> world" where
  "drop_callbacks [] w = w\<lparr>w_callbacks := []\<rparr>"
| "drop_callbacks (t # ts) w = drop_callbacks ts (release_opt (task_holds t) (w\<lparr>w_callbacks := ts\<rparr>))"

definition drain_one :: "app \<Rightarrow> task \<Rightarrow> world \<Rightarrow> world res" where
  "drain_one app t w =
     bindr (exec_task app t w) (\<lambda>w. Inr (release_opt (task_holds t) (w\<lparr>w_tasks := tl (w_tasks w)\<rparr>)))"

datatype label = LForeign api | LPoll "ready list option" | LStep

definition set_phase :: "phase \<Rightarrow> loop \<Rightarrow> loop" where
  "set_phase p l = l\<lparr>lp_phase := p\<rparr>"

definition run_step :: "app \<Rightarrow> loop \<Rightarrow> loop res" where
  "run_step app l =
     (let w = lp_world l in
      case lp_phase l of
        Test \<Rightarrow> Inr (set_phase (if w_running w then Poll else Exit) l)
      | Poll \<Rightarrow> Inr l
      | Dispatch (r # rs) \<Rightarrow> bindr (dispatch app r l) (\<lambda>l. Inr (set_phase (Dispatch rs) l))
      | Dispatch [] \<Rightarrow>
          Inr (set_phase (Batch (w_pending w)) (l\<lparr>lp_world := w\<lparr>w_callbacks := w_pending w, w_pending := []\<rparr>\<rparr>))
      | Batch (t # ts) \<Rightarrow> bindr (on_world (exec_task app t) l) (\<lambda>l. Inr (set_phase (Batch ts) l))
      | Batch [] \<Rightarrow> Inr (set_phase Drain l)
      | Drain \<Rightarrow>
          (case w_tasks w of
             [] \<Rightarrow> Inr (set_phase Test (l\<lparr>lp_world := drop_callbacks (w_callbacks w) w\<rparr>))
           | t # ts \<Rightarrow> on_world (drain_one app t) l)
      | Exit \<Rightarrow> Inr l)"

fun loop_step :: "app \<Rightarrow> label \<Rightarrow> loop \<Rightarrow> loop res" where
  "loop_step app (LForeign a) l = on_world (exec_api False a) l"
| "loop_step app (LPoll answer) l =
     (if lp_phase l = Poll then pull_events answer l else Inr l)"
| "loop_step app LStep l = run_step app l"

fun loop_run :: "app \<Rightarrow> label list \<Rightarrow> loop \<Rightarrow> loop res" where
  "loop_run app [] l = Inr l"
| "loop_run app (x # xs) l = bindr (loop_step app x l) (loop_run app xs)"

section \<open>The invariant of the loop\<close>

text \<open>A source that only waits for its descriptor to become readable.\<close>

definition watch_ok :: "event_cb event_source \<Rightarrow> event_cb \<Rightarrow> world \<Rightarrow> bool" where
  "watch_ok es cb w \<longleftrightarrow> unowned (es_fd es) w \<and> es_synced es (w_epoll w) \<and> es_interest es = EPOLLIN \<and>
     es_read_callback es = Some cb \<and> es_write_callback es = None \<and> es_error_callback es = None \<and>
     es_close_callback es = None"

definition connector_slots :: "nat \<Rightarrow> connector \<Rightarrow> bool" where
  "connector_slots i ct \<longleftrightarrow> (case ct_source ct of None \<Rightarrow> True | Some es \<Rightarrow>
     es_read_callback es = None \<and> es_write_callback es = Some (OnConnected i) \<and>
     es_error_callback es = Some (OnConnectError i) \<and> es_close_callback es = None)"

definition base_inv :: "loop \<Rightarrow> bool" where
  "base_inv l \<longleftrightarrow> world_wf (lp_world l) \<and> watch_ok (lp_notify l) OnNotify (lp_world l) \<and>
     (\<forall>a. lp_acceptor l = Some a \<longrightarrow> watch_ok (ac_source a) OnAccept (lp_world l)) \<and>
     (\<forall>i ct. lp_connectors l i = Some ct \<longrightarrow> connector_slots i ct)"

text \<open>What one handler does to the loop.\<close>

definition hist :: "world \<Rightarrow> world \<Rightarrow> bool" where
  "hist w w' \<longleftrightarrow> prefix (w_log w) (w_log w') \<and> prefix (w_queued w) (w_queued w') \<and> prefix (w_wire w) (w_wire w') \<and>
     prefix (w_tasks w) (w_tasks w') \<and> prefix (w_pending w) (w_pending w') \<and> w_callbacks w' = w_callbacks w \<and>
     (w_running w' \<longrightarrow> w_running w) \<and> w_next w \<le> w_next w'"

definition advances :: "loop \<Rightarrow> loop \<Rightarrow> bool" where
  "advances l l' \<longleftrightarrow> hist (lp_world l) (lp_world l') \<and> lp_phase l' = lp_phase l \<and>
     (base_inv l \<longrightarrow> within_quota (lp_world l') \<longrightarrow> base_inv l' \<and> objs_grow UNIV (lp_world l) (lp_world l'))"

lemma grows_hist: "grows w w' \<Longrightarrow> hist w w'"
  by (simp add: grows_def hist_def)

lemma hist_quota: "hist w w' \<Longrightarrow> within_quota w' \<Longrightarrow> within_quota w"
  unfolding hist_def within_quota_def by (meson bytes_of_prefix prefix_length_le order_trans)

lemma advances_refl [simp]: "advances l l"
  by (simp add: advances_def hist_def)

lemma hist_trans: "hist w w' \<Longrightarrow> hist w' w'' \<Longrightarrow> hist w w''"
  unfolding hist_def by (auto intro: prefix_order.order_trans)

lemma advances_trans:
  assumes "advances l l'" and "advances l' l''"
  shows "advances l l''"
proof -
  have h: "hist (lp_world l) (lp_world l')" "hist (lp_world l') (lp_world l'')"
    and n: "w_next (lp_world l) \<le> w_next (lp_world l')"
    using assms by (simp_all add: advances_def hist_def)
  have "base_inv l'' \<and> objs_grow UNIV (lp_world l) (lp_world l'')" if "base_inv l" "within_quota (lp_world l'')"
    using assms that hist_quota [OF h(2) that(2)] objs_grow_next_trans [OF n, of UNIV] by (simp add: advances_def)
  then show ?thesis using assms hist_trans [OF h] by (simp add: advances_def)
qed

lemma watch_ok_objs: "objs_grow X w w' \<Longrightarrow> watch_ok es cb w \<Longrightarrow> es_fd es \<notin> X \<Longrightarrow> watch_ok es cb w'"
  by (auto simp: watch_ok_def objs_grow_def in_sync_def split: es_state.splits)

lemma watch_ok_evolves:
  assumes "evolves_but X w w'" and "world_wf w" and "within_quota w'" and "watch_ok es cb w" and "es_fd es \<notin> X"
  shows "watch_ok es cb w'"
  using assms watch_ok_objs by (auto simp: evolves_but_def)

lemma advances_world:
  assumes e: "evolves_but X (lp_world l) w'" and X: "base_inv l \<Longrightarrow> es_fd (lp_notify l) \<notin> X"
    "\<And>a. base_inv l \<Longrightarrow> lp_acceptor l = Some a \<Longrightarrow> es_fd (ac_source a) \<notin> X"
  shows "advances l (l\<lparr>lp_world := w'\<rparr>)"
proof -
  have "base_inv (l\<lparr>lp_world := w'\<rparr>) \<and> objs_grow UNIV (lp_world l) w'" if b: "base_inv l" and q: "within_quota w'"
  proof -
    have wf: "world_wf (lp_world l)" using b by (simp add: base_inv_def)
    note W = watch_ok_evolves [OF e wf q]
    have "watch_ok (lp_notify l) OnNotify w'" using b X(1) [OF b] W by (simp add: base_inv_def)
    moreover have "watch_ok (ac_source a) OnAccept w'" if "lp_acceptor l = Some a" for a
      using b X(2) [OF b that] W that by (simp add: base_inv_def)
    ultimately show ?thesis
      using b e wf q objs_grow_mono [of X _ _ UNIV] by (auto simp: base_inv_def evolves_but_def)
  qed
  then show ?thesis using e grows_hist by (auto simp: advances_def evolves_but_def)
qed

lemma advances_on_world: "lawful (lp_world l) (f (lp_world l)) \<Longrightarrow> on_world f l = Inr l' \<Longrightarrow> advances l l'"
  by (auto simp: on_world_def bindr_eq_Inr_iff lawful_but_def intro!: advances_world [of "{}"])

section \<open>Dispatching\<close>

text \<open>
  What the kernel and the owners of the sources promise about an event: a descriptor that \<open>accept4\<close>
  returns is new, and a connector is reported only while it waits for its own socket.
\<close>

definition event_ok :: "ready \<Rightarrow> loop \<Rightarrow> bool" where
  "event_ok r l \<longleftrightarrow> (case rd_src r of
       SAccept \<Rightarrow> accept_ok (rd_accept r) (lp_world l)
     | SConnector i \<Rightarrow> (\<forall>ct. lp_connectors l i = Some ct \<longrightarrow> connecting ct (lp_world l))
     | _ \<Rightarrow> True)"

lemma source_masks: "EPOLLIN \<noteq> 0" "EPOLLOUT \<noteq> 0" "EPOLLIN \<noteq> EPOLLOUT"
  by (simp_all add: epoll_masks)

lemma watch_ok_watched: "watch_ok es cb w \<Longrightarrow> w_epoll w (es_fd es) = Some EPOLLIN"
  using source_masks by (auto simp: watch_ok_def in_sync_def split: es_state.splits)

lemma connecting_watched: "connecting ct w \<Longrightarrow> w_epoll w (ct_fd ct) = Some EPOLLOUT"
  using source_masks by (auto simp: connecting_def in_sync_def split: es_state.splits option.splits)

lemma not_connecting_fd:
  assumes "connecting ct (lp_world l)" and "base_inv l"
  shows "es_fd (lp_notify l) \<notin> {ct_fd ct}" and "lp_acceptor l = Some a \<Longrightarrow> es_fd (ac_source a) \<notin> {ct_fd ct}"
  using connecting_watched [OF assms(1)] assms(2) source_masks
  by (auto simp: base_inv_def dest!: watch_ok_watched)

text \<open>The callbacks of a connection.\<close>

definition conn_cb :: "cid \<Rightarrow> event_cb \<Rightarrow> bool" where
  "conn_cb c cb \<longleftrightarrow> cb \<in> {OnConnRead c, OnConnWrite c, OnConnError c}"

lemma conn_cb_advances: "conn_cb c cb \<Longrightarrow> call_back app r cb l = Inr l' \<Longrightarrow> advances l l'"
  by (auto simp: conn_cb_def intro: advances_on_world lawful_handle_read lawful_handle_write lawful_force_close)

lemma conn_cbs_advance:
  "\<forall>cb\<in>set cbs. conn_cb c cb \<Longrightarrow> call_backs app r cbs l = Inr l' \<Longrightarrow> advances l l'"
proof (induction cbs arbitrary: l)
  case (Cons cb cbs)
  then obtain l1 where "call_back app r cb l = Inr l1" "call_backs app r cbs l1 = Inr l'"
    by (auto simp: bindr_eq_Inr_iff split: if_splits)
  with Cons show ?case by (auto intro: advances_trans [OF conn_cb_advances])
qed simp

lemma handle_events_conn:
  assumes "slots_ok c es" and "handle_events es = (cbs, disable)"
  shows "(\<forall>cb\<in>set cbs. conn_cb c cb) \<and> (disable \<longrightarrow> cbs = [OnConnError c])"
  using assms by (auto simp: handle_events_def slots_ok_def conn_cb_def split: if_splits)

lemma disable_conn:
  assumes "disable_source (SConn c) l = Inr l'"
  shows "on_world (on_source c (es_call Disable_all)) l = Inr l'"
  using assms by (auto simp: disable_source_def on_world_def on_source_def set_conn_def get_conn_def bindr_eq_Inr_iff
      split: option.splits prod.splits)

lemma dispatch_Inr:
  assumes d: "dispatch app r l = Inr l'"
  obtains es cbs dis l1 where "source_of (rd_src r) l = Inr es" "handle_events es = (cbs, dis)"
    "call_backs app r cbs l = Inr l1" "(if dis then disable_source (rd_src r) l1 else Inr l1) = Inr l'"
proof -
  from d obtain es where es: "source_of (rd_src r) l = Inr es"
    by (cases "source_of (rd_src r) l") (simp_all add: dispatch_def)
  obtain cbs dis where h: "handle_events es = (cbs, dis)" by fastforce
  from d obtain l1 where "call_backs app r cbs l = Inr l1" "(if dis then disable_source (rd_src r) l1 else Inr l1) = Inr l'"
    by (auto simp: dispatch_def es h bindr_eq_Inr_iff)
  with es h that show ?thesis by blast
qed

lemma dispatch_conn:
  assumes src: "rd_src r = SConn c" and d: "dispatch app r l = Inr l'" and b: "base_inv l"
  shows "advances l l'"
proof -
  from d obtain es cbs dis l1 where es: "source_of (SConn c) l = Inr es" and h: "handle_events es = (cbs, dis)"
    and l1: "call_backs app r cbs l = Inr l1"
    and l': "(if dis then disable_source (SConn c) l1 else Inr l1) = Inr l'"
    using src by (metis dispatch_Inr)
  have "slots_ok c es"
    using es b world_wfD(2) [of "lp_world l" c]
    by (auto simp: base_inv_def get_conn_def conn_ok_def source_ok_def bindr_eq_Inr_iff split: option.splits)
  note cbs = handle_events_conn [OF this h]
  have a: "advances l l1" using conn_cbs_advance [OF _ l1] cbs by blast
  show ?thesis
  proof (cases dis)
    case True
    then have "on_world (conn_force_close True c) l = Inr l1"
      using cbs l1 by (auto simp: bindr_eq_Inr_iff)
    then have "TForceClose c \<in> set (w_tasks (lp_world l1))"
      by (auto simp: on_world_def conn_force_close_def bindr_eq_Inr_iff post_callback_def)
    then have "lawful (lp_world l1) (on_source c (es_call Disable_all) (lp_world l1))"
      by (intro lawful_on_source) auto
    with True l' disable_conn [of c l1 l'] have "advances l1 l'" by (auto intro: advances_on_world)
    with a show ?thesis by (rule advances_trans)
  qed (use a l' in simp)
qed

text \<open>The notifier, the acceptor and the connectors.\<close>

lemma advances_world_and:
  assumes e: "evolves_but X (lp_world l) (lp_world l')" and X: "base_inv l \<Longrightarrow> es_fd (lp_notify l) \<notin> X"
    "\<And>a. base_inv l \<Longrightarrow> lp_acceptor l = Some a \<Longrightarrow> es_fd (ac_source a) \<notin> X"
    and l': "lp_phase l' = lp_phase l" "lp_notify l' = lp_notify l"
      "\<And>a'. lp_acceptor l' = Some a' \<Longrightarrow> \<exists>a. lp_acceptor l = Some a \<and> ac_source a' = ac_source a"
      "\<And>i ct. base_inv l \<Longrightarrow> lp_connectors l' i = Some ct \<Longrightarrow> connector_slots i ct"
  shows "advances l l'"
proof -
  have "advances l (l\<lparr>lp_world := lp_world l'\<rparr>)" by (rule advances_world [OF e X])
  moreover have "base_inv (l\<lparr>lp_world := lp_world l'\<rparr>) \<Longrightarrow> base_inv l \<Longrightarrow> base_inv l'"
    using l'(2-4) unfolding base_inv_def by fastforce
  ultimately show ?thesis using l'(1) by (auto simp: advances_def)
qed

lemma dispatch_notify:
  assumes src: "rd_src r = SNotify" and d: "dispatch app r l = Inr l'" and b: "base_inv l"
  shows "advances l l'"
proof -
  have "l' = l \<or> l' = l\<lparr>lp_world := (lp_world l)\<lparr>w_eventfd := 0\<rparr>\<rparr>"
    using d b by (auto simp: dispatch_def src handle_events_def base_inv_def watch_ok_def split: if_splits)
  moreover have "advances l (l\<lparr>lp_world := (lp_world l)\<lparr>w_eventfd := 0\<rparr>\<rparr>)"
    by (auto simp: advances_def hist_def base_inv_def world_wf_fields watch_ok_def unowned_def objs_grow_def)
  ultimately show ?thesis by auto
qed

lemma dispatch_accept:
  assumes src: "rd_src r = SAccept" and d: "dispatch app r l = Inr l'" and b: "base_inv l" and ok: "event_ok r l"
  shows "advances l l'"
proof -
  from d obtain a where a: "lp_acceptor l = Some a" by (auto simp: dispatch_def src split: option.splits)
  have w: "watch_ok (ac_source a) OnAccept (lp_world l)" "watch_ok (lp_notify l) OnNotify (lp_world l)"
    using b a by (simp_all add: base_inv_def)
  have acc: "accept_ok (rd_accept r) (lp_world l)" using ok by (simp add: event_ok_def src)
  have "l' = l \<or> (\<exists>a' w'. accept_ready app (rd_accept r) a (lp_world l) = Inr (a', w') \<and>
      l' = l\<lparr>lp_acceptor := Some a', lp_world := w'\<rparr>)"
    using d w(1) by (auto simp: dispatch_def src a handle_events_def watch_ok_def bindr_eq_Inr_iff split: if_splits)
  moreover have "advances l (l\<lparr>lp_acceptor := Some a', lp_world := w'\<rparr>)"
    if "accept_ready app (rd_accept r) a (lp_world l) = Inr (a', w')" for a' w'
    using accept_ready_evolves [OF acc that] acc w a b
    by (intro advances_world_and [of "accepted_fds (rd_accept r)"])
      (auto simp: accept_ok_def fd_fresh_def base_inv_def split: accept_answer.splits dest!: watch_ok_watched)
  ultimately show ?thesis by auto
qed

lemma connector_error:
  assumes ct: "lp_connectors l i = Some ct" "connecting ct (lp_world l)" and b: "base_inv l"
    and l1: "on_world (handle_error app ct) l = Inr l1" and q: "within_quota (lp_world l1)"
    and d: "disable_source (SConnector i) l1 = Inr l'"
  shows "advances l l1" and "advances l1 l'"
proof -
  from l1 obtain w1 where w1: "handle_error app ct (lp_world l) = Inr w1" and l1_def: "l1 = l\<lparr>lp_world := w1\<rparr>"
    by (auto simp: on_world_def bindr_eq_Inr_iff)
  from ct(2) obtain es where es: "ct_source ct = Some es" "es_fd es = ct_fd ct" and u: "unowned (ct_fd ct) (lp_world l)"
    by (auto simp: connecting_def split: option.splits)
  have e: "evolves_but {ct_fd ct} (lp_world l) w1"
    using lawful_handle_error [OF u] w1 by (simp add: lawful_but_def)
  show "advances l l1"
    unfolding l1_def by (rule advances_world [OF e]) (use not_connecting_fd [OF ct(2) b] in auto)
  obtain es' k where k: "disable_all (es, w_epoll w1) = (es', k)" by fastforce
  have l': "l' = l1\<lparr>lp_world := w1\<lparr>w_epoll := k\<rparr>, lp_connectors := (lp_connectors l)(i \<mapsto> ct\<lparr>ct_source := Some es'\<rparr>)\<rparr>"
    using d by (simp add: disable_source_def l1_def ct(1) es(1) k)
  have "world_wf (lp_world l)" using b by (simp add: base_inv_def)
  with handle_error_unowned [OF u w1] q have u1: "unowned (ct_fd ct) w1" by (simp add: l1_def)
  have other: "x \<noteq> ct_fd ct \<Longrightarrow> k x = w_epoll w1 x" for x
    using es_call_other [of Disable_all es "w_epoll w1" es' k x] k es(2) by simp
  have "connector_slots i ct" using b ct(1) by (simp add: base_inv_def)
  then have "connector_slots i (ct\<lparr>ct_source := Some es'\<rparr>)"
    using es(1) es_call_slots [of Disable_all es "w_epoll w1"] k by (simp add: connector_slots_def)
  moreover have "evolves_but {ct_fd ct} w1 (w1\<lparr>w_epoll := k\<rparr>)"
    by (rule evolves_epoll) (use other u1 in \<open>auto simp: unowned_def\<close>)
  ultimately show "advances l1 l'"
    unfolding l' by (intro advances_world_and [of "{ct_fd ct}"])
      (use not_connecting_fd [OF ct(2) b] in \<open>auto simp: l1_def base_inv_def split: if_splits\<close>)
qed

lemma handle_connected_slots:
  assumes "handle_connected app answer ct w = Inr (ct', w')" and "connector_slots i ct"
  shows "connector_slots i ct'"
proof -
  from assms(1) obtain es where es: "ct_source ct = Some es" by (auto simp: handle_connected_def split: option.splits)
  obtain es' k where d: "disable_writing (es, w_epoll w) = (es', k)" by fastforce
  have "ct_source ct' = Some es'"
    using assms(1) by (auto simp: handle_connected_def es d Let_def bindr_eq_Inr_iff split: if_splits)
  then show ?thesis
    using assms(2) es d es_call_slots [of "Disable EPOLLOUT" es "w_epoll w"]
    by (simp add: connector_slots_def es_ops_call)
qed

lemma dispatch_connector:
  assumes src: "rd_src r = SConnector i" and d: "dispatch app r l = Inr l'" and b: "base_inv l" and ok: "event_ok r l"
    and q: "within_quota (lp_world l')"
  shows "advances l l'"
proof -
  from d src obtain es cbs dis l1 where s: "source_of (SConnector i) l = Inr es" and h: "handle_events es = (cbs, dis)"
    and l1: "call_backs app r cbs l = Inr l1"
    and l': "(if dis then disable_source (SConnector i) l1 else Inr l1) = Inr l'" by (metis dispatch_Inr)
  from s obtain ct where ct: "lp_connectors l i = Some ct" "ct_source ct = Some es" by (auto split: option.splits)
  have c: "connecting ct (lp_world l)" using ok ct(1) by (simp add: event_ok_def src)
  have slots: "connector_slots i ct" using b ct(1) by (simp add: base_inv_def)
  then have "cbs = [] \<and> \<not> dis \<or> cbs = [OnConnected i] \<and> \<not> dis \<or> cbs = [OnConnectError i] \<and> dis"
    using h ct(2) by (auto simp: handle_events_def connector_slots_def split: if_splits)
  then consider "l' = l" | "cbs = [OnConnected i]" "\<not> dis" | "cbs = [OnConnectError i]" "dis"
    using l1 l' by auto
  then show ?thesis
  proof cases
    case 2
    with l1 l' ct obtain ct' w' where r: "handle_connected app (rd_connect r) ct (lp_world l) = Inr (ct', w')"
      and l': "l' = l\<lparr>lp_connectors := (lp_connectors l)(i \<mapsto> ct'), lp_world := w'\<rparr>"
      by (auto simp: bindr_eq_Inr_iff)
    show ?thesis
      unfolding l' using handle_connected_evolves [OF c r] handle_connected_slots [OF r slots]
        not_connecting_fd [OF c b] b
      by (intro advances_world_and [of "{ct_fd ct}"]) (auto simp: base_inv_def split: if_splits)
  next
    case 3
    then have e: "on_world (handle_error app ct) l = Inr l1" using l1 ct(1) by (auto simp: bindr_eq_Inr_iff)
    from 3 l' have d': "disable_source (SConnector i) l1 = Inr l'" by simp
    have "w_queued (lp_world l') = w_queued (lp_world l1)"
      using d' by (cases "source_of (SConnector i) l1") (auto simp: disable_source_def case_prod_beta)
    then have "within_quota (lp_world l1)" using q by (simp add: within_quota_def)
    from connector_error [OF ct(1) c b e this d'] show ?thesis by (rule advances_trans)
  qed simp
qed

lemma dispatch_advances:
  assumes "dispatch app r l = Inr l'" and "base_inv l" and "event_ok r l" and "within_quota (lp_world l')"
  shows "advances l l'"
  using assms dispatch_conn dispatch_notify dispatch_accept dispatch_connector by (cases "rd_src r") blast+

text \<open>\<open>pull_events\<close> stores the masks.\<close>

lemma conn_ok_ready:
  "conn_ok c k f q s (cn\<lparr>cn_event_source := Some (set_ready_ops m es)\<rparr>) \<longleftrightarrow>
    conn_ok c k f q s (cn\<lparr>cn_event_source := Some es\<rparr>)"
  by (simp add: conn_ok_def source_ok_def buffer_ok_def wakeup_ok_def stream_ok_def set_ready_ops_def slots_ok_def
      in_sync_def cong: es_state.case_cong)

lemma watch_ok_ready: "watch_ok (set_ready_ops m es) cb w = watch_ok es cb w"
  by (simp add: watch_ok_def set_ready_ops_def in_sync_def cong: es_state.case_cong)

lemma mark_ready_advances:
  assumes "mark_ready r l = Inr l'"
  shows "advances l l'"
proof (cases "rd_src r")
  case SNotify
  with assms show ?thesis
    by (auto simp: mark_ready_def advances_def hist_def base_inv_def watch_ok_ready)
next
  case SAccept
  with assms show ?thesis
    by (auto simp: mark_ready_def advances_def hist_def base_inv_def watch_ok_ready split: option.splits)
next
  case (SConnector i)
  with assms obtain ct es where ct: "lp_connectors l i = Some ct" "ct_source ct = Some es"
    and l': "l' = l\<lparr>lp_connectors := (lp_connectors l)(i \<mapsto> ct\<lparr>ct_source := Some (set_ready_ops (rd_ops r) es)\<rparr>)\<rparr>"
    by (auto simp: mark_ready_def split: option.splits)
  have "connector_slots i ct \<Longrightarrow> connector_slots i (ct\<lparr>ct_source := Some (set_ready_ops (rd_ops r) es)\<rparr>)"
    using ct(2) by (simp add: connector_slots_def set_ready_ops_def)
  with ct(1) show ?thesis by (auto simp: l' advances_def hist_def base_inv_def)
next
  case (SConn c)
  with assms obtain cn es where c: "w_heap (lp_world l) c = Some cn" "cn_event_source cn = Some es"
    and l': "l' = l\<lparr>lp_world := set_conn c (cn\<lparr>cn_event_source := Some (set_ready_ops (rd_ops r) es)\<rparr>) (lp_world l)\<rparr>"
    by (auto simp: mark_ready_def get_conn_def set_conn_def bindr_eq_Inr_iff split: option.splits)
  have "cn\<lparr>cn_event_source := Some es\<rparr> = cn" using c(2) by simp
  then have "evolves (lp_world l) (lp_world l')"
    unfolding l' using conn_ok_ready [of c] by (auto intro!: evolves_set_conn [OF c(1)])
  then show ?thesis unfolding l' by (auto intro!: advances_world [of "{}"])
qed

lemma mark_all_advances: "mark_all rs l = Inr l' \<Longrightarrow> advances l l'"
  by (induction rs arbitrary: l) (auto simp: bindr_eq_Inr_iff intro: advances_trans [OF mark_ready_advances])

section \<open>The steps of the loop keep the invariant\<close>

text \<open>
  The callbacks of the current batch stay in the vector until the body ends. Outside the loop over
  the active events, a callback of another thread that waits in \<open>pending_callbacks_\<close> leaves the
  eventfd readable, so the next \<open>epoll_wait\<close> returns at once.
\<close>

definition phase_ok :: "phase \<Rightarrow> world \<Rightarrow> bool" where
  "phase_ok p w \<longleftrightarrow> (case p of Batch ts \<Rightarrow> suffix ts (w_callbacks w) | Drain \<Rightarrow> True | _ \<Rightarrow> w_callbacks w = []) \<and>
     (case p of Dispatch rs \<Rightarrow> True | _ \<Rightarrow> w_pending w \<noteq> [] \<longrightarrow> 0 < w_eventfd w)"

definition loop_inv :: "loop \<Rightarrow> bool" where
  "loop_inv l \<longleftrightarrow> base_inv l \<and> phase_ok (lp_phase l) (lp_world l)"

definition label_ok :: "label \<Rightarrow> loop \<Rightarrow> bool" where
  "label_ok x l \<longleftrightarrow> (case (x, lp_phase l) of (LStep, Dispatch (r # rs)) \<Rightarrow> event_ok r l | _ \<Rightarrow> True)"

definition loop_hist :: "world \<Rightarrow> world \<Rightarrow> bool" where
  "loop_hist w w' \<longleftrightarrow> prefix (w_log w) (w_log w') \<and> prefix (w_queued w) (w_queued w') \<and>
     prefix (w_wire w) (w_wire w') \<and> (w_running w' \<longrightarrow> w_running w) \<and> w_next w \<le> w_next w'"

text \<open>Dropping references: the histories stay, objects may go.\<close>

definition sheds :: "world \<Rightarrow> world \<Rightarrow> bool" where
  "sheds w w' \<longleftrightarrow> w_log w' = w_log w \<and> w_queued w' = w_queued w \<and> w_wire w' = w_wire w \<and> w_running w' = w_running w \<and>
     w_next w' = w_next w \<and> w_pending w' = w_pending w \<and> w_eventfd w' = w_eventfd w \<and>
     (world_wf w \<longrightarrow> world_wf w' \<and> objs_grow {} w w')"

lemma sheds_refl [simp]: "sheds w w"
  by (simp add: sheds_def)

lemma sheds_trans:
  assumes "sheds w w'" "sheds w' w''"
  shows "sheds w w''"
proof -
  have "objs_grow {} w w''" if "world_wf w"
    using assms that objs_grow_next_trans [of w w' "{}" w''] unfolding sheds_def by simp
  then show ?thesis using assms unfolding sheds_def by simp
qed

lemma sheds_release: "sheds w (release c w)"
  using world_wf_release [of w c] release_objs [of w "{}" c]
  by (auto simp: sheds_def release_def destroy_def Let_def split: option.splits)

lemma sheds_release_opt: "sheds w (release_opt r w)"
  by (cases r) (simp_all add: sheds_release)

lemma release_fields [simp]:
  "w_tasks (release c w) = w_tasks w" "w_callbacks (release c w) = w_callbacks w"
  "w_tasks (release_opt r w) = w_tasks w" "w_callbacks (release_opt r w) = w_callbacks w"
  by (simp add: release_def destroy_def Let_def split: option.splits)+
    (cases r; simp add: release_def destroy_def Let_def split: option.splits)+

lemma drop_callbacks_sheds:
  "w_callbacks w = ts \<Longrightarrow> sheds w (drop_callbacks ts w) \<and> w_callbacks (drop_callbacks ts w) = [] \<and>
    w_tasks (drop_callbacks ts w) = w_tasks w"
proof (induction ts arbitrary: w)
  case (Cons t ts)
  let ?w = "w\<lparr>w_callbacks := ts\<rparr>"
  have "sheds w ?w"
    using Cons.prems by (auto simp: sheds_def objs_grow_def unowned_def referenced_def intro!: world_wf_fewer [of w ?w])
  moreover note sheds_release_opt [of ?w "task_holds t"] Cons.IH [of "release_opt (task_holds t) ?w"]
  ultimately show ?case by (auto intro: sheds_trans)
next
  case Nil
  then have same: "w\<lparr>w_callbacks := []\<rparr> = w" by (cases w) simp
  show ?case unfolding drop_callbacks.simps same using Nil by simp
qed

text \<open>Running a task of the queue: execute the front, pop it, drop what it captured.\<close>

lemma drain_one_law:
  assumes t: "w_tasks w = t # ts" and d: "drain_one app t w = Inr w'"
  shows "\<exists>w1. evolves w w1 \<and> within_quota w1 = within_quota w' \<and> prefix (w_tasks w1) (t # w_tasks w') \<and>
    w_callbacks w' = w_callbacks w1 \<and> prefix ts (w_tasks w') \<and>
    loop_hist w1 w' \<and> w_pending w' = w_pending w1 \<and> w_eventfd w' = w_eventfd w1 \<and>
    (world_wf w \<longrightarrow> within_quota w' \<longrightarrow> world_wf w' \<and> objs_grow {} w1 w')"
proof -
  from d obtain w1 where x: "exec_task app t w = Inr w1"
    and w': "w' = release_opt (task_holds t) (w1\<lparr>w_tasks := tl (w_tasks w1)\<rparr>)"
    by (auto simp: drain_one_def bindr_eq_Inr_iff)
  let ?w2 = "w1\<lparr>w_tasks := tl (w_tasks w1)\<rparr>"
  have e: "evolves w w1" using lawful_exec_task [of w app t] x by (simp add: lawful_but_def)
  then have "prefix (w_tasks w) (w_tasks w1)" by (simp add: evolves_but_def grows_def)
  then obtain zs where w1: "w_tasks w1 = t # ts @ zs" using t by (auto simp: prefix_def)
  note sh = sheds_release_opt [of ?w2 "task_holds t", folded w']
  have q: "within_quota w1 = within_quota w'" using sh by (simp add: sheds_def within_quota_def)
  have "world_wf ?w2" if wf: "world_wf w" "within_quota w'"
  proof (rule world_wf_fewer [of w1])
    show "world_wf w1" using e wf q by (simp add: evolves_but_def)
    fix c cn assume "TForceClose c \<in> set (w_tasks w1)" "TForceClose c \<notin> set (w_tasks ?w2)" "w_heap w1 c = Some cn"
    moreover from this have "t = TForceClose c" by (auto simp: w1)
    ultimately show "cn_state cn \<noteq> Receiving"
      using run_force_close_closed [of app c w w1 cn] x wf q by simp
  qed (auto simp: referenced_def w1)
  moreover have "objs_grow {} w1 ?w2" by (simp add: objs_grow_def unowned_def)
  moreover have "objs_grow {} w1 w'" if "objs_grow {} ?w2 w'" using that by (simp add: objs_grow_def unowned_def)
  ultimately have "world_wf w \<longrightarrow> within_quota w' \<longrightarrow> world_wf w' \<and> objs_grow {} w1 w'" using sh by (simp add: sheds_def)
  with e q sh show ?thesis
    by (intro exI [of _ w1]) (auto simp: sheds_def loop_hist_def w1 w')
qed

lemma base_inv_objs:
  assumes b: "base_inv l" and wf: "world_wf w'" and g: "objs_grow {} (lp_world l) w'"
  shows "base_inv (l\<lparr>lp_world := w'\<rparr>)"
  using b wf watch_ok_objs [OF g] by (auto simp: base_inv_def)

lemma base_inv_phase [simp]: "base_inv (set_phase p l) = base_inv l" "lp_world (set_phase p l) = lp_world l"
    "lp_phase (set_phase p l) = p"
  by (simp_all add: base_inv_def set_phase_def)

text \<open>One lemma per phase: what the step does to the world, and the invariant.\<close>

definition step_law :: "loop \<Rightarrow> loop \<Rightarrow> bool" where
  "step_law l l' \<longleftrightarrow> loop_hist (lp_world l) (lp_world l') \<and>
     (loop_inv l \<longrightarrow> within_quota (lp_world l') \<longrightarrow> loop_inv l' \<and> objs_grow UNIV (lp_world l) (lp_world l'))"

lemma step_law_refl [simp]: "step_law l l"
  by (simp add: step_law_def loop_hist_def)

lemma step_law_phase:
  assumes "\<And>w. phase_ok (lp_phase l) (lp_world l) \<Longrightarrow> phase_ok p (lp_world l)"
  shows "step_law l (set_phase p l)"
  using assms by (auto simp: step_law_def loop_hist_def loop_inv_def)

lemma step_law_advances:
  assumes a: "advances l l'" and p: "phase_ok (lp_phase l) (lp_world l) \<Longrightarrow> phase_ok p (lp_world l')"
  shows "step_law l (set_phase p l')"
  using assms by (auto simp: step_law_def advances_def hist_def loop_hist_def loop_inv_def)

lemma step_law_on_world:
  assumes f: "lawful (lp_world l) (f (lp_world l))" and r: "on_world f l = Inr l'"
    and p: "\<And>w. phase_ok (lp_phase l) w \<Longrightarrow> phase_ok p w"
  shows "step_law l (set_phase p l')"
proof (rule step_law_advances)
  show "advances l l'" by (rule advances_on_world [of l f]) (use assms in auto)
  assume ok: "phase_ok (lp_phase l) (lp_world l)"
  have "grows (lp_world l) (lp_world l')"
    using f r by (auto simp: on_world_def lawful_but_def bindr_eq_Inr_iff evolves_but_def)
  then have "phase_ok (lp_phase l) (lp_world l')"
    using ok by (auto simp: phase_ok_def grows_def split: phase.splits)
  then show "phase_ok p (lp_world l')" by (rule p)
qed

lemma step_law_drain:
  assumes p: "lp_phase l = Drain" and t: "w_tasks (lp_world l) = t # ts" and r: "on_world (drain_one app t) l = Inr l'"
  shows "step_law l l'"
proof -
  from r obtain w' where d: "drain_one app t (lp_world l) = Inr w'" and l': "l' = l\<lparr>lp_world := w'\<rparr>"
    by (auto simp: on_world_def bindr_eq_Inr_iff)
  from drain_one_law [OF t d] obtain w1 where e: "evolves (lp_world l) w1" and q: "within_quota w1 = within_quota w'"
    and h: "loop_hist w1 w'" and f: "w_pending w' = w_pending w1" "w_eventfd w' = w_eventfd w1"
    and wf: "world_wf (lp_world l) \<longrightarrow> within_quota w' \<longrightarrow> world_wf w' \<and> objs_grow {} w1 w'" by blast
  have g: "grows (lp_world l) w1" using e by (simp add: evolves_but_def)
  then have "loop_hist (lp_world l) w'"
    using h unfolding grows_def loop_hist_def by (auto intro: prefix_order.order_trans)
  moreover have "loop_inv l' \<and> objs_grow UNIV (lp_world l) w'" if i: "loop_inv l" and q': "within_quota w'"
  proof -
    have b: "base_inv l" and ok: "phase_ok Drain (lp_world l)" using i p by (simp_all add: loop_inv_def)
    then have "world_wf (lp_world l)" by (simp add: base_inv_def)
    then have o: "objs_grow {} (lp_world l) w1" "objs_grow {} w1 w'" "world_wf w'"
      using e q q' wf by (simp_all add: evolves_but_def)
    note og = objs_grow_trans [OF g o(1,2)]
    have "phase_ok Drain w'" using ok g f by (auto simp: phase_ok_def grows_def)
    with base_inv_objs [OF b o(3) og] show ?thesis
      using p objs_grow_mono [OF og, of UNIV] by (simp add: loop_inv_def l')
  qed
  ultimately show ?thesis by (simp add: step_law_def l')
qed

lemma step_law_end_of_body:
  assumes p: "lp_phase l = Drain"
  shows "step_law l (set_phase Test (l\<lparr>lp_world := drop_callbacks (w_callbacks (lp_world l)) (lp_world l)\<rparr>))"
proof -
  let ?w = "lp_world l" and ?w' = "drop_callbacks (w_callbacks (lp_world l)) (lp_world l)"
  have s: "sheds ?w ?w'" "w_callbacks ?w' = []" using drop_callbacks_sheds [OF refl, of ?w] by simp_all
  have "base_inv (l\<lparr>lp_world := ?w'\<rparr>) \<and> objs_grow UNIV ?w ?w'" if "base_inv l"
    using that s base_inv_objs [OF that, of ?w'] objs_grow_mono [of "{}" ?w ?w' UNIV]
    by (simp add: sheds_def base_inv_def)
  moreover have "phase_ok Test ?w'" if "phase_ok Drain ?w" using that s by (simp add: phase_ok_def sheds_def)
  moreover have "loop_hist ?w ?w'" using s by (simp add: sheds_def loop_hist_def)
  ultimately show ?thesis using p by (auto simp: step_law_def loop_inv_def)
qed

lemma step_law_swap:
  assumes p: "lp_phase l = Dispatch []"
  shows "step_law l (set_phase (Batch (w_pending (lp_world l)))
    (l\<lparr>lp_world := (lp_world l)\<lparr>w_callbacks := w_pending (lp_world l), w_pending := []\<rparr>\<rparr>))"
proof -
  let ?w = "lp_world l"
  let ?w' = "?w\<lparr>w_callbacks := w_pending ?w, w_pending := []\<rparr>"
  have g: "objs_grow X ?w ?w'" for X by (simp add: objs_grow_def unowned_def)
  have "base_inv (l\<lparr>lp_world := ?w'\<rparr>)" if b: "base_inv l" and "w_callbacks ?w = []"
  proof (rule base_inv_objs [OF b _ g])
    show "world_wf ?w'" by (rule world_wf_fewer [of ?w]) (use b in \<open>auto simp: base_inv_def referenced_def\<close>)
  qed
  then show ?thesis using p g by (auto simp: step_law_def loop_inv_def loop_hist_def phase_ok_def)
qed

lemma step_law_poll:
  assumes p: "lp_phase l = Poll" and r: "pull_events answer l = Inr l'"
  shows "step_law l l'"
proof (cases answer)
  case None
  then show ?thesis
    using step_law_phase [of l Exit] r p by (simp add: pull_events_def set_phase_def phase_ok_def)
next
  case (Some rs)
  let ?ev = "take (w_events_size (lp_world l)) rs"
  from r Some obtain l1 where l1: "mark_all ?ev l = Inr l1" by (auto simp: pull_events_def bindr_eq_Inr_iff Let_def)
  let ?w = "if length ?ev = w_events_size (lp_world l1) then (lp_world l1)\<lparr>w_events_size := length ?ev * 2\<rparr> else lp_world l1"
  have l': "l' = set_phase (Dispatch ?ev) (l1\<lparr>lp_world := ?w\<rparr>)"
    using r Some l1 by (simp add: pull_events_def Let_def set_phase_def)
  have a: "advances l1 (l1\<lparr>lp_world := ?w\<rparr>)" by (rule advances_world [of "{}"]) auto
  show ?thesis
    unfolding l'
  proof (rule step_law_advances)
    show "advances l (l1\<lparr>lp_world := ?w\<rparr>)" by (rule advances_trans [OF mark_all_advances [OF l1] a])
    then show "phase_ok (lp_phase l) (lp_world l) \<Longrightarrow> phase_ok (Dispatch ?ev) (lp_world (l1\<lparr>lp_world := ?w\<rparr>))"
      using p by (simp add: phase_ok_def advances_def hist_def)
  qed
qed

lemma run_step_law:
  assumes r: "run_step app l = Inr l'" and ok: "label_ok LStep l" and i: "loop_inv l" and q: "within_quota (lp_world l')"
  shows "step_law l l'"
proof (cases "lp_phase l")
  case Test
  then show ?thesis
    using r step_law_phase [of l Exit] step_law_phase [of l Poll]
    by (auto simp: run_step_def Let_def phase_ok_def split: if_splits)
next
  case Poll
  with r show ?thesis by (simp add: run_step_def Let_def)
next
  case (Dispatch rs)
  show ?thesis
  proof (cases rs)
    case Nil
    with Dispatch r step_law_swap [of l] show ?thesis by (simp add: run_step_def Let_def)
  next
    case (Cons x xs)
    with Dispatch r obtain l1 where d: "dispatch app x l = Inr l1" and l': "l' = set_phase (Dispatch xs) l1"
      by (auto simp: run_step_def Let_def bindr_eq_Inr_iff)
    have "advances l l1"
      using dispatch_advances [OF d] i ok q Dispatch Cons by (simp add: loop_inv_def label_ok_def l')
    then show ?thesis
      unfolding l' by (rule step_law_advances) (use Dispatch \<open>advances l l1\<close> in \<open>simp add: phase_ok_def advances_def hist_def\<close>)
  qed
next
  case (Batch ts)
  show ?thesis
  proof (cases ts)
    case Nil
    with Batch r step_law_phase [of l Drain] show ?thesis by (simp add: run_step_def Let_def phase_ok_def)
  next
    case (Cons x xs)
    with Batch r obtain l1 where d: "on_world (exec_task app x) l = Inr l1" and l': "l' = set_phase (Batch xs) l1"
      by (auto simp: run_step_def Let_def bindr_eq_Inr_iff)
    show ?thesis
      unfolding l' by (rule step_law_on_world [OF lawful_exec_task d])
        (use Batch Cons in \<open>auto simp: phase_ok_def dest: suffix_ConsD\<close>)
  qed
next
  case Drain
  with r show ?thesis
    by (cases "w_tasks (lp_world l)")
      (auto simp: run_step_def Let_def intro: step_law_drain step_law_end_of_body)
next
  case Exit
  with r show ?thesis by (simp add: run_step_def Let_def)
qed

lemma loop_step_law:
  assumes r: "loop_step app x l = Inr l'" and ok: "label_ok x l" and i: "loop_inv l" and q: "within_quota (lp_world l')"
  shows "step_law l l'"
proof (cases x)
  case (LForeign a)
  have "step_law l (set_phase (lp_phase l) l')"
    by (rule step_law_on_world [of l "exec_api False a"]) (use r LForeign lawful_exec_api in auto)
  moreover have "set_phase (lp_phase l) l' = l'"
    using r LForeign by (auto simp: on_world_def set_phase_def bindr_eq_Inr_iff)
  ultimately show ?thesis by simp
next
  case (LPoll answer)
  with r step_law_poll [of l answer l'] show ?thesis by (auto split: if_splits)
next
  case LStep
  with r ok i q run_step_law show ?thesis by simp
qed

end
