(* ===== verification/Loop_Properties.thy ===== *)
theory Loop_Properties
  imports Event_Loop
begin

text \<open>
  The states a program built on one event loop can reach, and what holds in all of them. A program
  creates a loop, gives it a receive buffer, an acceptor and connectors, and runs it, while other
  threads call into it. The states are those in which no connection was given more than 256 MiB to
  write so far (\<open>within_quota\<close>): up to there the sizes of the output buffers stay within their 32 bits.
\<close>

section \<open>Reachable states\<close>

inductive reachable :: "app \<Rightarrow> loop \<Rightarrow> bool" for app where
  create: "0 \<le> notify_fd \<Longrightarrow> reachable app (EventLoop notify_fd)"
| receive_buffer: "reachable app l \<Longrightarrow> on_world (allocate_receive_buffer n) l = Inr l' \<Longrightarrow>
    within_quota (lp_world l') \<Longrightarrow> reachable app l'"
| listen: "reachable app l \<Longrightarrow> lp_acceptor l = None \<Longrightarrow> fd_fresh fd (lp_world l) \<Longrightarrow>
    Acceptor bind inet_ntop fd addr (lp_world l) = Inr (a, w) \<Longrightarrow> within_quota w \<Longrightarrow>
    reachable app (l\<lparr>lp_acceptor := Some (new_connection_callback cbs a), lp_world := w\<rparr>)"
| connect: "reachable app l \<Longrightarrow> lp_connectors l i = None \<Longrightarrow> ct_source ct = None \<Longrightarrow> fd_fresh (ct_fd ct) (lp_world l) \<Longrightarrow>
    start_connect app net i ct (lp_world l) = Inr (ct', w) \<Longrightarrow> within_quota w \<Longrightarrow>
    reachable app (l\<lparr>lp_connectors := (lp_connectors l)(i \<mapsto> ct'), lp_world := w\<rparr>)"
| step: "reachable app l \<Longrightarrow> label_ok x l \<Longrightarrow> loop_step app x l = Inr l' \<Longrightarrow>
    within_quota (lp_world l') \<Longrightarrow> reachable app l'"

lemma loop_inv_create: "0 \<le> notify_fd \<Longrightarrow> loop_inv (EventLoop notify_fd)"
  using source_masks world_wf_members
  by (auto simp: loop_inv_def base_inv_def EventLoop_def EventLoop_members_def enable_reading_def enable_ops_def
      EventSource_def register_event_def epoll_add_def watch_ok_def unowned_def in_sync_def phase_ok_def
      world_wf_def referenced_def)

lemma step_law_receive_buffer:
  assumes "on_world (allocate_receive_buffer n) l = Inr l'"
  shows "step_law l l'"
proof -
  have "0 < c \<Longrightarrow> c < 2 ^ 31 \<Longrightarrow> ByteBuffer c = Inr b \<Longrightarrow> bb_wf b" for c b using ByteBuffer_ok [of c] by auto
  moreover have "sint n < 2 ^ 31" using sint_less [of n] by simp
  moreover have "ByteBuffer c = Inr b \<Longrightarrow> 0 < c" for c b by (auto simp: ByteBuffer_def bindr_eq_Inr_iff)
  ultimately have "lawful (lp_world l) (allocate_receive_buffer n (lp_world l))"
    by (auto simp: allocate_receive_buffer_def lawful_but_def bindr_eq_Inr_iff intro: evolves_recv)
  from step_law_on_world [of l "allocate_receive_buffer n", OF this assms, of "lp_phase l"]
  show ?thesis using assms by (auto simp: on_world_def set_phase_def bindr_eq_Inr_iff)
qed

lemma phase_ok_grows: "grows w w' \<Longrightarrow> phase_ok p w \<Longrightarrow> phase_ok p w'"
  by (auto simp: phase_ok_def grows_def split: phase.splits)

lemma fresh_not_watched:
  assumes "fd_fresh fd (lp_world l)" and "base_inv l"
  shows "es_fd (lp_notify l) \<notin> {fd}" and "lp_acceptor l = Some a \<Longrightarrow> es_fd (ac_source a) \<notin> {fd}"
  using assms by (auto simp: fd_fresh_def base_inv_def dest!: watch_ok_watched)

lemma step_law_world_and:
  assumes a: "advances l l'" and g: "grows (lp_world l) (lp_world l')"
  shows "step_law l l'"
proof -
  have "step_law l (set_phase (lp_phase l) l')"
    by (rule step_law_advances [OF a]) (use phase_ok_grows [OF g] in blast)
  moreover have "set_phase (lp_phase l) l' = l'" using a by (simp add: advances_def set_phase_def)
  ultimately show ?thesis by simp
qed

lemma step_law_listen:
  assumes n: "lp_acceptor l = None" and fd: "fd_fresh fd (lp_world l)"
    and a: "Acceptor bind inet_ntop fd addr (lp_world l) = Inr (a, w)"
  shows "step_law l (l\<lparr>lp_acceptor := Some (new_connection_callback cbs a), lp_world := w\<rparr>)"
proof -
  let ?l = "l\<lparr>lp_acceptor := Some (new_connection_callback cbs a), lp_world := w\<rparr>"
  have w: "w = (lp_world l)\<lparr>w_epoll := (w_epoll (lp_world l))(fd \<mapsto> EPOLLIN)\<rparr>"
    using a fd source_masks by (auto simp: Acceptor_def acceptor_socket enable_reading_def enable_ops_def EventSource_def register_event_def
        epoll_add_def fd_fresh_def bindr_eq_Inr_iff)
  have e: "evolves_but {fd} (lp_world l) w"
    unfolding w by (rule evolves_epoll) (use fd in \<open>auto simp: fd_fresh_def unowned_def\<close>)
  have "watch_ok (ac_source a) OnAccept w"
    using a fd source_masks by (auto simp: Acceptor_def acceptor_socket enable_reading_def enable_ops_def EventSource_def register_event_def
        epoll_add_def fd_fresh_def bindr_eq_Inr_iff watch_ok_def in_sync_def)
  moreover have "advances l (l\<lparr>lp_world := w\<rparr>)"
    by (rule advances_world [OF e]) (use fresh_not_watched [OF fd] in auto)
  ultimately have "advances l ?l"
    using n by (auto simp: advances_def base_inv_def new_connection_callback_def)
  then show ?thesis by (rule step_law_world_and) (use e in \<open>simp add: evolves_but_def\<close>)
qed

lemma step_law_connect:
  assumes n: "lp_connectors l i = None" and fd: "fd_fresh (ct_fd ct) (lp_world l)"
    and c: "start_connect app net i ct (lp_world l) = Inr (ct', w)"
  shows "step_law l (l\<lparr>lp_connectors := (lp_connectors l)(i \<mapsto> ct'), lp_world := w\<rparr>)"
proof -
  let ?l = "l\<lparr>lp_connectors := (lp_connectors l)(i \<mapsto> ct'), lp_world := w\<rparr>"
  define es :: "event_cb event_source" where "es = (EventSource (ct_fd ct))\<lparr>es_write_callback := Some (OnConnected i), es_error_callback := Some (OnConnectError i)\<rparr>"
  obtain es' k where k: "enable_writing (es, w_epoll (lp_world l)) = (es', k)" by fastforce
  have u: "unowned (ct_fd ct) (lp_world l)" using fd by (simp add: fd_fresh_def)
  have "k x = w_epoll (lp_world l) x" if "x \<noteq> ct_fd ct" for x
    using es_call_other [of "Enable EPOLLOUT" es _ es' k x] k that by (simp add: es_ops_call es_def EventSource_def)
  then have "evolves_but {ct_fd ct} (lp_world l) ((lp_world l)\<lparr>w_epoll := k\<rparr>)"
    by (intro evolves_epoll) (use u in \<open>auto simp: unowned_def\<close>)
  with c lawful_handle_error [OF u, of app] have e: "evolves_but {ct_fd ct} (lp_world l) w"
    by (auto simp: start_connect_def es_def [symmetric] k lawful_but_def bindr_eq_Inr_iff Let_def split: if_splits)
  have "connector_slots i ct'"
    using c k es_call_slots [of "Enable EPOLLOUT" es "w_epoll (lp_world l)"]
    by (auto simp: start_connect_def es_def [symmetric] connector_slots_def bindr_eq_Inr_iff Let_def es_ops_call split: if_splits)
      (auto simp: es_def EventSource_def)
  then have "advances l ?l"
    using e fresh_not_watched [OF fd] by (intro advances_world_and [of "{ct_fd ct}"]) (auto simp: base_inv_def split: if_splits)
  then show ?thesis by (rule step_law_world_and) (use e in \<open>simp add: evolves_but_def\<close>)
qed

lemma reachable_loop_inv: "reachable app l \<Longrightarrow> loop_inv l"
proof (induction rule: reachable.induct)
  case (create notify_fd)
  then show ?case by (rule loop_inv_create)
next
  case (receive_buffer l n l')
  then show ?case using step_law_receive_buffer by (auto simp: step_law_def)
next
  case (listen l fd bind inet_ntop addr a w cbs)
  then show ?case using step_law_listen [of l fd bind inet_ntop addr a w cbs] by (simp add: step_law_def)
next
  case (connect l i ct net ct' w)
  then show ?case using step_law_connect [of l i ct app net ct' w] by (simp add: step_law_def)
next
  case (step l x l')
  then show ?case using loop_step_law [of app x l l'] by (simp add: step_law_def)
qed

lemmas reachable_wf = reachable_loop_inv [unfolded loop_inv_def base_inv_def]

section \<open>Runs that can be evaluated\<close>

text \<open>The side conditions of a run, with the quantifiers over objects bounded by the objects created so far.\<close>

definition unowned_c :: "int \<Rightarrow> world \<Rightarrow> bool" where
  "unowned_c fd w \<longleftrightarrow> list_all (\<lambda>c. case w_heap w c of None \<Rightarrow> True | Some cn \<Rightarrow> cn_fd cn \<noteq> fd) [0..<w_next w]"

definition event_ok_c :: "ready \<Rightarrow> loop \<Rightarrow> bool" where
  "event_ok_c r l \<longleftrightarrow> (case rd_src r of
       SAccept \<Rightarrow> (case rd_accept r of AcceptFail \<Rightarrow> False | Accepted fd ip port \<Rightarrow>
         0 \<le> fd \<and> w_epoll (lp_world l) fd = None \<and> unowned_c fd (lp_world l))
     | SConnector i \<Rightarrow> (case lp_connectors l i of None \<Rightarrow> True | Some ct \<Rightarrow> unowned_c (ct_fd ct) (lp_world l) \<and>
         (case ct_source ct of None \<Rightarrow> False | Some es \<Rightarrow> es_fd es = ct_fd ct \<and> es_interest es = EPOLLOUT \<and>
            es_synced es (w_epoll (lp_world l))))
     | _ \<Rightarrow> True)"

definition label_ok_c :: "label \<Rightarrow> loop \<Rightarrow> bool" where
  "label_ok_c x l \<longleftrightarrow> (case (x, lp_phase l) of (LStep, Dispatch (r # rs)) \<Rightarrow> event_ok_c r l | _ \<Rightarrow> True)"

definition quota_c :: "world \<Rightarrow> bool" where
  "quota_c w \<longleftrightarrow> sum_list (map (length \<circ> snd) (w_queued w)) \<le> 2 ^ 28"

fun run_ok :: "app \<Rightarrow> label list \<Rightarrow> loop \<Rightarrow> bool" where
  "run_ok app [] l = True"
| "run_ok app (x # xs) l = (label_ok_c x l \<and>
     (case loop_step app x l of Inl e \<Rightarrow> True | Inr l' \<Rightarrow> quota_c (lp_world l') \<and> run_ok app xs l'))"

lemma unowned_c: "world_wf w \<Longrightarrow> unowned_c fd w \<Longrightarrow> unowned fd w"
proof (unfold unowned_def, intro allI impI)
  fix c cn assume "world_wf w" "unowned_c fd w" and c: "w_heap w c = Some cn"
  moreover from this have "c < w_next w" using world_wfD(6) [of w c] by (cases "c < w_next w") auto
  ultimately show "cn_fd cn \<noteq> fd" by (auto simp: unowned_c_def list_all_iff dest!: bspec [of _ _ c])
qed

lemma label_ok_c: "base_inv l \<Longrightarrow> label_ok_c x l \<Longrightarrow> label_ok x l"
  using unowned_c [of "lp_world l"]
  by (auto simp: label_ok_c_def label_ok_def event_ok_c_def event_ok_def base_inv_def accept_ok_def fd_fresh_def connecting_def
      split: label.splits phase.splits list.splits src.splits accept_answer.splits option.splits)

lemma quota_c: "quota_c w \<Longrightarrow> within_quota w"
proof -
  have "length (bytes_of c xs) \<le> sum_list (map (length \<circ> snd) xs)" for c xs
    by (induction xs) (auto simp: bytes_of_def)
  then show "quota_c w \<Longrightarrow> within_quota w" unfolding quota_c_def within_quota_def by (meson order_trans)
qed

lemma reachable_run: "reachable app l \<Longrightarrow> run_ok app xs l \<Longrightarrow> loop_run app xs l = Inr l' \<Longrightarrow> reachable app l'"
proof (induction xs arbitrary: l)
  case (Cons x xs)
  from Cons.prems(3) obtain l1 where l1: "loop_step app x l = Inr l1" "loop_run app xs l1 = Inr l'"
    by (auto simp: bindr_eq_Inr_iff)
  moreover have "label_ok x l" using Cons.prems label_ok_c reachable_wf by (auto simp: base_inv_def)
  moreover have "within_quota (lp_world l1)" using Cons.prems l1 quota_c by simp
  ultimately have "reachable app l1" using Cons.prems(1) by (blast intro: reachable.step)
  then show ?case using Cons.IH Cons.prems(2) l1 by simp
qed simp

text \<open>A loop with a receive buffer and an acceptor, as a server thread sets it up.\<close>

lemma reachable_setup:
  assumes fds: "0 \<le> notify_fd" "0 \<le> sock" "notify_fd \<noteq> sock"
    and l1: "on_world (allocate_receive_buffer n) (EventLoop notify_fd) = Inr l1"
    and a: "Acceptor bind inet_ntop sock addr (lp_world l1) = Inr (a, w)"
  shows "reachable app (l1\<lparr>lp_acceptor := Some (new_connection_callback cbs a), lp_world := w\<rparr>)"
proof -
  have e: "w_queued (lp_world l1) = [] \<and> w_heap (lp_world l1) = Map.empty \<and>
      w_epoll (lp_world l1) = [notify_fd \<mapsto> EPOLLIN] \<and> lp_acceptor l1 = None"
    using l1 fds(1) source_masks
    by (auto simp: on_world_def allocate_receive_buffer_def bindr_eq_Inr_iff EventLoop_def EventLoop_members_def
        enable_reading_def enable_ops_def EventSource_def register_event_def epoll_add_def)
  have "reachable app l1"
    by (rule reachable.receive_buffer [OF reachable.create l1]) (use e fds(1) in \<open>auto simp: within_quota_def\<close>)
  moreover have "fd_fresh sock (lp_world l1)" using e fds by (auto simp: fd_fresh_def unowned_def)
  moreover have "within_quota w" using a e by (auto simp: Acceptor_def acceptor_socket within_quota_def bindr_eq_Inr_iff split: prod.splits)
  ultimately show ?thesis using a e by (blast intro: reachable.listen)
qed

definition serve :: "u32 \<Rightarrow> callbacks \<Rightarrow> loop res" where
  "serve n cbs =
     bindr (on_world (allocate_receive_buffer n) (EventLoop 3)) (\<lambda>l.
     bindr (Acceptor (\<lambda>_ _. 0) (\<lambda>_. []) 4 InetAddress_default (lp_world l)) (\<lambda>(a, w).
     Inr (l\<lparr>lp_acceptor := Some (new_connection_callback cbs a), lp_world := w\<rparr>)))"

lemma reachable_serve: "serve n cbs = Inr l \<Longrightarrow> reachable app l"
  by (auto simp: serve_def bindr_eq_Inr_iff intro: reachable_setup [of 3 4])

text \<open>An echo server, and the events of one client.\<close>

fun echo :: app where
  "echo log (URead c bytes) = [AWrite c bytes (of_nat (length bytes))]"
| "echo log ev = []"

definition all_callbacks :: callbacks where
  "all_callbacks = \<lparr>has_established = True, has_read = True, has_closed = True\<rparr>"

definition accept_event :: "int \<Rightarrow> ready" where
  "accept_event fd = \<lparr>rd_src = SAccept, rd_ops = EPOLLIN, rd_read = ReadFail, rd_write = 0, rd_accept = Accepted fd 0 0,
     rd_connect = \<lparr>so_error = 0, sockname = None\<rparr>\<rparr>"

definition conn_event :: "cid \<Rightarrow> u32 \<Rightarrow> u8 list \<Rightarrow> int \<Rightarrow> ready" where
  "conn_event c ops bytes n = \<lparr>rd_src = SConn c, rd_ops = ops, rd_read = ReadBytes bytes, rd_write = n,
     rd_accept = AcceptFail, rd_connect = \<lparr>so_error = 0, sockname = None\<rparr>\<rparr>"

text \<open>One turn of the loop body: the events, then enough steps for the tasks they post.\<close>

definition turn :: "nat \<Rightarrow> ready list \<Rightarrow> label list" where
  "turn tasks rs = LStep # LPoll (Some rs) # replicate (length rs + tasks + 3) LStep"

definition echo_labels :: "label list" where
  "echo_labels = turn 0 [accept_event 7] @ turn 1 [conn_event 0 EPOLLIN [1, 2, 3] 0] @
     turn 0 [conn_event 0 EPOLLOUT [] 2]"

definition holds :: "('a \<Rightarrow> bool) \<Rightarrow> 'a res \<Rightarrow> bool" where
  "holds P r \<longleftrightarrow> (case r of Inl e \<Rightarrow> False | Inr x \<Rightarrow> P x)"

definition scenario :: "app \<Rightarrow> u32 \<Rightarrow> label list \<Rightarrow> loop res" where
  "scenario app n xs = bindr (serve n all_callbacks) (loop_run app xs)"

lemma holdsE: "holds P r \<Longrightarrow> (\<And>x. r = Inr x \<Longrightarrow> P x \<Longrightarrow> Q) \<Longrightarrow> Q"
  by (auto simp: holds_def split: sum.splits)

lemma reachable_scenario:
  assumes "holds (run_ok app xs) (serve n all_callbacks)" and "scenario app n xs = Inr l"
  shows "reachable app l"
  using assms reachable_serve [of n all_callbacks _ app] reachable_run
  by (auto simp: scenario_def bindr_eq_Inr_iff holds_def)

lemma echo_ok: "holds (run_ok echo echo_labels) (serve 16 all_callbacks)"
  by code_simp

lemma echo_wire: "holds (\<lambda>l. w_wire (lp_world l) = [(0, [Some 1, Some 2])]) (scenario echo 16 echo_labels)"
  by code_simp

definition conn_at :: "cid \<Rightarrow> (connection \<Rightarrow> bool) \<Rightarrow> loop \<Rightarrow> bool" where
  "conn_at c P l \<longleftrightarrow> (case w_heap (lp_world l) c of None \<Rightarrow> False | Some cn \<Rightarrow> P cn)"

lemma conn_atE: "conn_at c P l \<Longrightarrow> (\<And>cn. w_heap (lp_world l) c = Some cn \<Longrightarrow> P cn \<Longrightarrow> Q) \<Longrightarrow> Q"
  by (auto simp: conn_at_def split: option.splits)

lemma echo_reached:
  assumes "holds P (scenario echo 16 echo_labels)"
  shows "\<exists>l. reachable echo l \<and> P l"
  using assms reachable_scenario [OF echo_ok] by (auto elim: holdsE)

section \<open>Properties of all reachable states\<close>





text \<open>
  C7: no wake-up is lost: when the loop is about to wait in \<open>epoll_wait\<close> and callbacks of other threads
  are pending, the eventfd is readable and the kernel watches it, so the wait returns at once.
\<close>

theorem no_lost_wakeup:
  assumes "reachable app l" and "lp_phase l = Poll" and "w_pending (lp_world l) \<noteq> []"
  shows "0 < w_eventfd (lp_world l) \<and> w_epoll (lp_world l) (es_fd (lp_notify l)) = Some EPOLLIN"
proof -
  note i = reachable_wf [OF assms(1)]
  have "0 < w_eventfd (lp_world l)" using i assms(2,3) by (simp add: phase_ok_def)
  moreover have "watch_ok (lp_notify l) OnNotify (lp_world l)" using i by blast
  ultimately show ?thesis using watch_ok_watched by blast
qed

theorem no_lost_wakeup_witness:
  "\<exists>l. reachable echo l \<and> w_pending (lp_world l) = [TUser 5] \<and> 0 < w_eventfd (lp_world l)"
proof -
  have ok: "holds (run_ok echo [LStep, LForeign (APost 5)]) (serve 16 all_callbacks)" by code_simp
  have "holds (\<lambda>l. lp_phase l = Poll \<and> w_pending (lp_world l) = [TUser 5]) (scenario echo 16 [LStep, LForeign (APost 5)])"
    by code_simp
  then obtain l where s: "scenario echo 16 [LStep, LForeign (APost 5)] = Inr l" and l: "lp_phase l = Poll" "w_pending (lp_world l) = [TUser 5]"
    by (auto elim: holdsE)
  from no_lost_wakeup [OF reachable_scenario [OF ok s] l(1)] l reachable_scenario [OF ok s] show ?thesis by auto
qed



end
