(* ===== verification/Connection_Properties.thy ===== *)
theory Connection_Properties
  imports Loop_Properties
begin

text \<open>
  What the operations of a connection do, case by case: the read path, the write path, and the ways of
  closing, with the cases the code handles wrongly.
\<close>

section \<open>Reading\<close>

text \<open>
  C16: the read path is exact. When the kernel delivers bytes that fit the receive buffer, the handler
  calls the application once with exactly these bytes, in a buffer that is ready to be read.
\<close>

theorem read_delivers:
  assumes "w_heap w c = Some cn" and "cn_read_callback cn" and "w_recv w = Some b" and "bb_wf b"
    and "bb_capacity b = Inr cap" and "bytes \<noteq> []" and "int (length bytes) \<le> cap"
  shows "\<exists>b'. bb_wf b' \<and> bb_content b' = map Some bytes \<and>
    handle_read app c (ReadBytes bytes) w = user_call app (URead c (map Some bytes)) (w\<lparr>w_recv := Some b'\<rparr>)"
proof -
  define b1 where "b1 = b\<lparr>bb_position := 0, bb_limit := cap, bb_mark := -1\<rparr>"
  have cl: "bb_clear b = Inr b1" using assms(5) by (simp add: bb_clear_def b1_def)
  have rem: "bb_remaining b1 = cap" by (simp add: b1_def bb_remaining_def)
  have pos: "0 < bb_remaining b1" using rem assms(6,7) by (cases bytes) auto
  from rem have t: "take (nat (bb_remaining b1)) bytes = bytes" using assms(7) by simp
  from read_buffer [OF assms(4) cl, of bytes] rem assms(7) obtain m b2 where
    m: "memcpy (bb_data b1) (nat (bb_ptr b1)) (map Some bytes) 0 (length bytes) = Inr m"
       "bb_set_position (b1\<lparr>bb_data := m\<rparr>) (int (length bytes)) = Inr b2"
    and b2: "bb_wf (bb_flip b2)" "bb_content (bb_flip b2) = map Some bytes" by auto
  have "handle_read app c (ReadBytes bytes) w = user_call app (URead c (map Some bytes)) (w\<lparr>w_recv := Some (bb_flip b2)\<rparr>)"
    using assms(1-3,6) pos by (simp add: handle_read_def get_conn_def cl t m b2(2) Let_def)
  with b2 show ?thesis by blast
qed

definition demo_conn :: "connection" where
  "demo_conn = (Connection 7 InetAddress_default InetAddress_default)\<lparr>cn_state := Receiving, cn_read_callback := True,
     cn_closed_callback := True,
     cn_event_source := Some ((EventSource 7)\<lparr>es_state := StateRegistered, es_interest := EPOLLIN,
       es_read_callback := Some (OnConnRead 0), es_write_callback := Some (OnConnWrite 0),
       es_error_callback := Some (OnConnError 0)\<rparr>)\<rparr>"

definition demo_world :: "connection \<Rightarrow> world" where
  "demo_world cn = EventLoop_members\<lparr>w_epoll := [7 \<mapsto> (case cn_event_source cn of None \<Rightarrow> 0 | Some es \<Rightarrow> es_interest es)],
     w_heap := [0 \<mapsto> cn], w_next := 1, w_connections := [(7, 0)]\<rparr>"

lemmas demo_defs = demo_world_def demo_conn_def EventLoop_members_def Connection_def EventSource_def epoll_masks

theorem read_delivers_witness:
  "\<exists>b b'. ByteBuffer 8 = Inr b \<and> bb_content b' = [Some 5, Some 6] \<and>
    handle_read (\<lambda>_ _. []) 0 (ReadBytes [5, 6]) ((demo_world demo_conn)\<lparr>w_recv := Some b\<rparr>) =
    user_call (\<lambda>_ _. []) (URead 0 [Some 5, Some 6]) ((demo_world demo_conn)\<lparr>w_recv := Some b'\<rparr>)"
proof -
  from ByteBuffer_ok [of 8] obtain b where b: "ByteBuffer 8 = Inr b" "bb_wf b" "bb_capacity b = Inr 8" by auto
  from read_delivers [of "(demo_world demo_conn)\<lparr>w_recv := Some b\<rparr>" 0 demo_conn b 8 "[5, 6]" "\<lambda>_ _. []"] b
  show ?thesis by (auto simp: demo_defs)
qed

section \<open>Writing\<close>

lemma flipped_copy:
  fixes len :: u32
  assumes "0 < len" and "len < 0x80000000" and "unat len \<le> length data"
  shows "\<exists>b0 b1. ByteBuffer (sint len) = Inr b0 \<and> bb_put b0 data (sint len) = Inr b1 \<and>
    bb_ptr (bb_flip b1) = 4 \<and> bb_remaining (bb_flip b1) = uint len \<and>
    drop 4 (bb_data (bb_flip b1)) = take (unat len) data"
proof -
  have n: "0 < uint len" "uint len < 2 ^ 31" "nat (uint len) = unat len"
    using assms(1,2) by (simp_all add: word_less_def)
  have s: "sint len = uint len" using sint_of_small [of "uint len"] n by simp
  from ByteBuffer_ok [OF n(1,2)] obtain b0 where b0: "ByteBuffer (uint len) = Inr b0" "bb_wf b0"
    "bb_capacity b0 = Inr (uint len)" "bb_remaining b0 = uint len" by blast
  then have p: "bb_position b0 = 0" "length (bb_data b0) = unat len + 4"
    by (auto simp: ByteBuffer_def bindr_eq_Inr_iff memcpy_Inr_iff n(3))
  have "uint len \<le> int (length data)" using n assms(3) by linarith
  with bb_put_ok [OF b0(2), of "uint len" data] n b0(4) obtain b1 where
    "bb_put b0 data (uint len) = Inr b1" "bb_position b1 = uint len"
    "bb_data b1 = take 4 (bb_data b0) @ take (unat len) data @ drop (4 + unat len) (bb_data b0)"
    by (auto simp: p bb_ptr_def)
  with b0(1) p show ?thesis unfolding s by (auto simp: bb_flip_def bb_ptr_def bb_remaining_def)
qed

lemma do_write_open:
  assumes wf: "world_wf w" and c: "w_heap w c = Some cn" and st: "cn_state cn \<noteq> Closed"
    and quota: "length (bytes_of c (w_queued w)) + unat len \<le> 2 ^ 28" and src: "unat len \<le> length data"
  shows "\<exists>w' cn' es'. do_write c data len w = Inr w' \<and> w_heap w' c = Some cn' \<and> cn_event_source cn' = Some es' \<and>
    w_queued w' = w_queued w @ [(c, take (unat len) data)] \<and> w_wire w' = w_wire w \<and> cn_state cn' = cn_state cn \<and>
    (\<exists>xs. unsent cn' = unsent cn @ xs \<and> faithful xs (take (unat len) data)) \<and>
    w_epoll w' (cn_fd cn) = Some (es_interest es') \<and> es_interest es' AND EPOLLOUT \<noteq> 0"
proof -
  have ok: "buffer_ok (bytes_of c (w_queued w)) cn" "source_ok c (w_epoll w) cn"
    using world_wfD(2) [OF wf c] by (simp_all add: conn_ok_def)
  let ?b = "out_buffer cn len"
  have b: "cb_wf ?b" "cb_contents ?b = unsent cn"
    using ok(1) by (auto simp: buffer_ok_def out_buffer_def unsent_def CircularBuffer_wf CircularBuffer_contents
        split: option.splits)
  have "unat (cb_capacity ?b) \<le> 2 + 4 * (length (bytes_of c (w_queued w)) + unat len)"
    using ok(1) CircularBuffer_bound [of len] quota by (auto simp: buffer_ok_def out_buffer_def split: option.splits)
  then have size: "unat len + unat (cb_capacity ?b) \<le> 2 ^ 31" using quota by simp
  then have "cb_fits ?b (unat len)" by (simp add: cb_fits_def)
  from cb_put_wf [OF b(1) this src] obtain b' where b': "cb_put ?b data len = Inr b'" by blast
  from cb_put_effect(2) [OF b(1) size b'] obtain xs where xs: "cb_contents b' = unsent cn @ xs"
    "faithful xs (take (unat len) data)" using b(2) readable_take [OF src] by auto
  from ok(2) obtain es where es: "cn_event_source cn = Some es" by (auto simp: source_ok_def split: option.splits)
  obtain es' k where k: "es_call (Enable EPOLLOUT) (es, w_epoll w) = (es', k)" by fastforce
  note sc = source_call [OF ok(2) es k st]
  have i: "es_interest es' AND EPOLLOUT \<noteq> 0"
    using sc(3) source_masks by (simp add: bit.conj_disj_distrib2 or_eq_0_iff)
  then have "es_interest es' \<noteq> 0" by auto
  then have "k (cn_fd cn) = Some (es_interest es')" using sc(1,2) by (auto simp: in_sync_def split: es_state.splits)
  then show ?thesis
    using xs i by (auto simp: do_write_def get_conn_def c st b' on_source_def set_conn_def es k es_ops_call
        readable_take [OF src] simp del: es_call.simps)
qed



section \<open>Flushing\<close>

text \<open>How many bytes the kernel takes of \<open>m\<close> offered ones when it answers \<open>n > 0\<close>.\<close>

definition taken :: "int \<Rightarrow> nat \<Rightarrow> nat" where
  "taken n m = nat (min (min n 0x7ffff000) (int m))"

lemma handle_write_ok:
  assumes wf: "world_wf w" and c: "w_heap w c = Some cn" and ne: "unsent cn \<noteq> []" and n: "0 < n"
  defines "k \<equiv> taken n (length (unsent cn))"
  shows "0 < k \<and> (\<exists>b'. cb_contents b' = drop k (unsent cn) \<and>
    handle_write app c n w =
      (let w1 = set_conn c (cn\<lparr>cn_buffer_out := Some b'\<rparr>) (w\<lparr>w_wire := w_wire w @ [(c, take k (unsent cn))]\<rparr>)
       in if cn_state cn = Disconnecting then bindr (on_source c disable_writing w1) (conn_close True c)
          else if drop k (unsent cn) = [] then on_source c disable_writing w1 else Inr w1))"
proof -
  note ok = world_wfD(2) [OF wf c]
  from ne obtain b where b: "cn_buffer_out cn = Some b" and u: "unsent cn = cb_contents b"
    by (auto simp: unsent_def split: option.splits)
  have ne': "\<not> cb_empty b" using ne u by (simp add: cb_empty_iff)
  have wfb: "cb_wf b" using ok b by (simp add: conn_ok_def buffer_ok_def)
  have g: "gather (cb_data b) (write_iov b) = unsent cn" by (simp add: gather_write_iov [OF wfb] u)
  have a: "write_answer n b = int k" using n by (simp add: write_answer_def g k_def taken_def)
  obtain r b' where wr: "write_to_fd b (write_answer n b) = Inr (r, b')"
    using ne' a by (auto simp: write_to_fd_def)
  note sb = ship_bytes(2,3) [OF ok b ne' wr]
  have k: "0 < k" using n ne by (simp add: k_def taken_def)
  have d: "cb_contents b' = drop k (unsent cn)"
    using sb(2) g a by (metis append_take_drop_id same_append_eq nat_int)
  then have "cb_empty b' \<longleftrightarrow> drop k (unsent cn) = []" by (simp add: cb_empty_iff)
  then have "handle_write app c n w =
      (let w1 = set_conn c (cn\<lparr>cn_buffer_out := Some b'\<rparr>) (w\<lparr>w_wire := w_wire w @ [(c, take k (unsent cn))]\<rparr>)
       in if cn_state cn = Disconnecting then bindr (on_source c disable_writing w1) (conn_close True c)
          else if drop k (unsent cn) = [] then on_source c disable_writing w1 else Inr w1)"
    using wr sb(1) k ne' by (simp add: handle_write_def get_conn_def c b Let_def a g)
  with k d show ?thesis by blast
qed

lemma disable_writing_ok:
  assumes c: "w_heap w c = Some cn" and ok: "source_ok c (w_epoll w) cn"
  shows "\<exists>es k. on_source c disable_writing w = Inr (set_conn c (cn\<lparr>cn_event_source := Some es\<rparr>) (w\<lparr>w_epoll := k\<rparr>)) \<and>
    es_interest es AND EPOLLOUT = 0 \<and> k (cn_fd cn) = (if es_interest es = 0 then None else Some (es_interest es))"
proof -
  from ok obtain es where es: "cn_event_source cn = Some es" by (auto simp: source_ok_def split: option.splits)
  obtain es' k where k: "es_call (Disable EPOLLOUT) (es, w_epoll w) = (es', k)" by fastforce
  have "\<not> is_enable (Disable EPOLLOUT)" by simp
  note sc = source_call(1-3) [OF ok es k, simplified]
  have "es_interest es' AND EPOLLOUT = 0" using sc(3) by (simp add: and.assoc)
  moreover have "k (cn_fd cn) = (if es_interest es' = 0 then None else Some (es_interest es'))"
    using sc(1,2) by (cases "es_state es'") (auto simp: in_sync_def)
  ultimately show ?thesis
    using k by (intro exI [of _ es'] exI [of _ k])
      (simp add: on_source_def get_conn_def c es es_ops_call del: es_call.simps)
qed

text \<open>
  One event of a writable descriptor on a receiving connection: a successful write hands the front of the
  unsent bytes to the kernel, keeps the rest, and stops watching for writability exactly when nothing is
  left.
\<close>

lemma flush_step:
  assumes "world_wf w" and "w_heap w c = Some cn" and "cn_state cn = Receiving" and "unsent cn \<noteq> []" and "0 < n"
  shows "\<exists>w' cn'. handle_write app c n w = Inr w' \<and> w_heap w' c = Some cn' \<and> cn_state cn' = Receiving \<and> cn_fd cn' = cn_fd cn \<and>
    w_wire w' = w_wire w @ [(c, take (taken n (length (unsent cn))) (unsent cn))] \<and> w_queued w' = w_queued w \<and>
    unsent cn' = drop (taken n (length (unsent cn))) (unsent cn) \<and>
    (if unsent cn' = [] then \<forall>m. w_epoll w' (cn_fd cn) = Some m \<longrightarrow> m AND EPOLLOUT = 0
     else w_epoll w' = w_epoll w)"
proof -
  let ?k = "taken n (length (unsent cn))"
  from handle_write_ok [OF assms(1,2,4,5), of app] obtain b' where b': "cb_contents b' = drop ?k (unsent cn)"
    and h: "handle_write app c n w = (let w1 = set_conn c (cn\<lparr>cn_buffer_out := Some b'\<rparr>)
        (w\<lparr>w_wire := w_wire w @ [(c, take ?k (unsent cn))]\<rparr>)
      in if drop ?k (unsent cn) = [] then on_source c disable_writing w1 else Inr w1)"
    using assms(3) by auto
  let ?w1 = "set_conn c (cn\<lparr>cn_buffer_out := Some b'\<rparr>) (w\<lparr>w_wire := w_wire w @ [(c, take ?k (unsent cn))]\<rparr>)"
  have "source_ok c (w_epoll ?w1) (cn\<lparr>cn_buffer_out := Some b'\<rparr>)"
    using world_wfD(2) [OF assms(1,2)] by (simp add: conn_ok_def source_ok_def set_conn_def cong: option.case_cong)
  from disable_writing_ok [OF _ this] obtain es k where
    d: "on_source c disable_writing ?w1 = Inr (set_conn c (cn\<lparr>cn_buffer_out := Some b', cn_event_source := Some es\<rparr>) (?w1\<lparr>w_epoll := k\<rparr>))"
    and k: "es_interest es AND EPOLLOUT = 0" "k (cn_fd cn) = (if es_interest es = 0 then None else Some (es_interest es))"
    by (auto simp: set_conn_def)
  show ?thesis
  proof (cases "drop ?k (unsent cn) = []")
    case True
    then show ?thesis using h d k b' assms(3) by (auto simp: Let_def set_conn_def)
  next
    case False
    then show ?thesis using h b' assms(3) by (auto simp: Let_def set_conn_def)
  qed
qed

text \<open>
  The events of a writable descriptor in a row, with the answers of the kernel to the writes. The kernel
  reports the descriptor as long as it is watched for writability, so there is no event once the buffer
  is empty.
\<close>

primrec writable_events :: "app \<Rightarrow> cid \<Rightarrow> int list \<Rightarrow> world \<Rightarrow> world res" where
  "writable_events app c [] w = Inr w"
| "writable_events app c (n # ns) w =
     bindr (get_conn c w) (\<lambda>cn.
     if has_bytes_to_write cn then bindr (handle_write app c n w) (writable_events app c ns) else Inr w)"

lemma world_wf_handle_write:
  assumes "world_wf w" and "within_quota w" and "handle_write app c n w = Inr w'" and "w_queued w' = w_queued w"
  shows "world_wf w'" and "within_quota w'"
proof -
  show q: "within_quota w'" using assms(2,4) by (simp add: within_quota_def)
  show "world_wf w'" using lawful_handle_write [of w app c n] assms(1,3) q by (simp add: lawful_but_def evolves_but_def)
qed

text \<open>
  C14: a receiving connection gets rid of its bytes. When the kernel takes something at each event, and
  as much in all as there are unsent bytes, the handler runs through without a fault, all these bytes are
  on the wire in order, the buffer is empty, and the descriptor is not watched for writability any more.
\<close>

theorem flush_completes:
  assumes "world_wf w" and "within_quota w" and "w_heap w c = Some cn" and "cn_state cn = Receiving" and "unsent cn \<noteq> []"
    and "\<forall>n\<in>set ns. 0 < n \<and> n \<le> 0x7ffff000" and "int (length (unsent cn)) \<le> sum_list ns"
  shows "\<exists>w' cn'. writable_events app c ns w = Inr w' \<and> w_heap w' c = Some cn' \<and> cn_state cn' = Receiving \<and> unsent cn' = [] \<and>
    bytes_of c (w_wire w') = bytes_of c (w_wire w) @ unsent cn \<and> w_queued w' = w_queued w \<and>
    (\<forall>m. w_epoll w' (cn_fd cn) = Some m \<longrightarrow> m AND EPOLLOUT = 0)"
  using assms
proof (induction ns arbitrary: w cn)
  case (Cons n ns)
  let ?k = "taken n (length (unsent cn))"
  have n: "0 < n" "n \<le> 0x7ffff000" using Cons.prems(6) by auto
  have t: "int ?k = min n (int (length (unsent cn)))" using n by (simp add: taken_def)
  from flush_step [OF Cons.prems(1,3-5) n(1), of app] obtain w1 cn1 where h: "handle_write app c n w = Inr w1"
    and c1: "w_heap w1 c = Some cn1" "cn_state cn1 = Receiving" "cn_fd cn1 = cn_fd cn"
    and w1: "w_wire w1 = w_wire w @ [(c, take ?k (unsent cn))]" "w_queued w1 = w_queued w" "unsent cn1 = drop ?k (unsent cn)"
      "if unsent cn1 = [] then \<forall>m. w_epoll w1 (cn_fd cn) = Some m \<longrightarrow> m AND EPOLLOUT = 0 else w_epoll w1 = w_epoll w" by blast
  note wf = world_wf_handle_write [OF Cons.prems(1,2) h w1(2)]
  have e: "writable_events app c (n # ns) w = writable_events app c ns w1"
    using Cons.prems(3,5) h by (simp add: get_conn_def has_bytes_iff)
  show ?case
  proof (cases "unsent cn1 = []")
    case True
    then have "writable_events app c ns w1 = Inr w1"
      using c1(1) by (cases ns) (simp_all add: get_conn_def has_bytes_iff)
    moreover have "take ?k (unsent cn) = unsent cn" using True w1(3) by simp
    ultimately show ?thesis unfolding e using True c1 w1 by auto
  next
    case False
    then have "?k < length (unsent cn)" using w1(3) by simp
    then have "int ?k = n" using t by linarith
    then have s: "int (length (unsent cn1)) \<le> sum_list ns" using Cons.prems(7) w1(3) \<open>?k < length (unsent cn)\<close> by (simp add: of_nat_diff)
    have "\<forall>n\<in>set ns. 0 < n \<and> n \<le> 0x7ffff000" using Cons.prems(6) by simp
    from Cons.IH [OF wf c1(1,2) False this s] show ?thesis unfolding e using c1(3) w1 by simp
  qed
qed simp

theorem flush_completes_witness:
  "\<exists>l w' cn'. reachable echo l \<and> writable_events echo 0 [2, 3] (lp_world l) = Inr w' \<and> w_heap w' 0 = Some cn' \<and> unsent cn' = [] \<and>
    bytes_of 0 (w_wire w') = [Some 1, Some 2, Some 3]"
proof -
  let ?xs = "turn 0 [accept_event 7] @ turn 1 [conn_event 0 EPOLLIN [1, 2, 3] 0]"
  have ok: "holds (run_ok echo ?xs) (serve 16 all_callbacks)" by code_simp
  have "holds (\<lambda>l. conn_at 0 (\<lambda>cn. cn_state cn = Receiving \<and> unsent cn = [Some 1, Some 2, Some 3]) l \<and> quota_c (lp_world l) \<and>
      w_wire (lp_world l) = []) (scenario echo 16 ?xs)" by code_simp
  then obtain l cn where l: "scenario echo 16 ?xs = Inr l" and c: "w_heap (lp_world l) 0 = Some cn" "cn_state cn = Receiving"
    "unsent cn = [Some 1, Some 2, Some 3]" and q: "quota_c (lp_world l)" and e: "w_wire (lp_world l) = []"
    by (auto elim!: holdsE conn_atE)
  note r = reachable_scenario [OF ok l]
  have wf: "world_wf (lp_world l)" using reachable_wf [OF r] by blast
  from flush_completes [OF wf quota_c [OF q] c(1,2), of "[2, 3]" echo] c(3) e r show ?thesis by auto
qed


section \<open>Closing\<close>

lemma run_close_pending:
  assumes "w_heap w c = Some cn" and "unsent cn \<noteq> []"
  shows "run_close app c w = Inr (set_conn c (cn\<lparr>cn_state := Disconnecting\<rparr>) w)"
  using assms by (simp add: run_close_def get_conn_def has_bytes_iff)

lemma run_close_done:
  assumes c: "w_heap w c = Some cn" and u: "unsent cn = []" and app: "\<And>log. app log (UClosed c) = []"
    and m: "map_of (w_connections w) (cn_fd cn) = Some c"
  shows "\<exists>w'. run_close app c w = Inr w' \<and> (\<forall>cn'. w_heap w' c = Some cn' \<longrightarrow> cn_state cn' = Closed) \<and>
    map_of (w_connections w') (cn_fd cn) = None \<and> w_wire w' = w_wire w \<and> w_tasks w' = w_tasks w \<and>
    w_log w' = w_log w @ (if cn_closed_callback cn then [UClosed c] else [])"
proof -
  let ?w0 = "set_conn c (cn\<lparr>cn_state := Closed\<rparr>) w"
  have ref: "c \<in> snd ` set (w_connections w)" using map_of_SomeD [OF m] by force
  have rel: "release c (v\<lparr>w_frame := remove1 c (c # w_frame w)\<rparr>) = v\<lparr>w_frame := w_frame w\<rparr>"
    if "w_connections v = w_connections w" for v
    using that ref by (simp add: release_def referenced_def split: option.splits)
  have "(if cn_closed_callback cn then user_call app (UClosed c) ?w0 else Inr ?w0) =
      Inr (?w0\<lparr>w_log := w_log w @ (if cn_closed_callback cn then [UClosed c] else [])\<rparr>)"
    using app rel [of "?w0\<lparr>w_frame := c # w_frame w, w_log := w_log w @ [UClosed c]\<rparr>"]
    by (simp add: user_call_def get_conn_def set_conn_def)
  then have "run_close app c w = Inr (remove_connection (cn_fd cn)
      (?w0\<lparr>w_log := w_log w @ (if cn_closed_callback cn then [UClosed c] else [])\<rparr>))"
    using c u by (simp add: run_close_def get_conn_def has_bytes_iff)
  then show ?thesis
    by (auto simp: remove_connection_def set_conn_def m release_def destroy_def Let_def AList.delete_conv' split: option.splits)
qed

text \<open>
  C15: the orderly close. A connection with unsent bytes whose \<open>close\<close> callback runs waits for them to be
  sent; when the kernel takes them all at the next event, the handler posts the callback again, and that
  closes the connection, removes it from \<open>connections_\<close> and tells the application once. Every byte is on
  the wire.
\<close>

theorem graceful_close:
  assumes "world_wf w" and "w_heap w c = Some cn" and "unsent cn \<noteq> []" and "length (unsent cn) \<le> 0x7ffff000"
    and "map_of (w_connections w) (cn_fd cn) = Some c" and "int (length (unsent cn)) \<le> n" and "\<And>log. app log (UClosed c) = []"
  shows "\<exists>w1 w2 w3. exec_task app (TClose c) w = Inr w1 \<and> handle_write app c n w1 = Inr w2 \<and> w_tasks w2 = w_tasks w @ [TClose c] \<and>
    exec_task app (TClose c) w2 = Inr w3 \<and> (\<forall>cn'. w_heap w3 c = Some cn' \<longrightarrow> cn_state cn' = Closed) \<and>
    map_of (w_connections w3) (cn_fd cn) = None \<and> bytes_of c (w_wire w3) = bytes_of c (w_wire w) @ unsent cn \<and>
    w_log w3 = w_log w @ (if cn_closed_callback cn then [UClosed c] else [])"
proof -
  let ?cn1 = "cn\<lparr>cn_state := Disconnecting\<rparr>"
  let ?w1 = "set_conn c ?cn1 w"
  have c1: "exec_task app (TClose c) w = Inr ?w1" "w_heap ?w1 c = Some ?cn1"
    using run_close_pending [OF assms(2,3)] by (simp_all add: set_conn_def)
  have ok: "conn_ok_in w c ?cn1" by (rule conn_ok_closing(1) [OF world_wfD(2) [OF assms(1,2)]]) (use assms(3) in simp)
  have wf: "world_wf ?w1" by (rule world_wf_set_conn [OF assms(1,2) _ ok]) simp
  have k: "taken n (length (unsent cn)) = length (unsent cn)" using assms(4,6) by (simp add: taken_def)
  have "0 < n" using assms(3,6) by (cases "unsent cn") auto
  from handle_write_ok [OF wf c1(2) _ this, of app] assms(3) k obtain b' where b': "cb_contents b' = []"
    and h: "handle_write app c n ?w1 = bindr (on_source c disable_writing (set_conn c (?cn1\<lparr>cn_buffer_out := Some b'\<rparr>)
        (?w1\<lparr>w_wire := w_wire w @ [(c, unsent cn)]\<rparr>))) (conn_close True c)"
    by (auto simp: set_conn_def)
  let ?v = "set_conn c (?cn1\<lparr>cn_buffer_out := Some b'\<rparr>) (?w1\<lparr>w_wire := w_wire w @ [(c, unsent cn)]\<rparr>)"
  have "source_ok c (w_epoll ?v) (?cn1\<lparr>cn_buffer_out := Some b'\<rparr>)"
    using ok by (simp add: conn_ok_def source_ok_def set_conn_def cong: option.case_cong)
  from disable_writing_ok [OF _ this] obtain es k where d: "on_source c disable_writing ?v =
      Inr (set_conn c (?cn1\<lparr>cn_buffer_out := Some b', cn_event_source := Some es\<rparr>) (?v\<lparr>w_epoll := k\<rparr>))" by (auto simp: set_conn_def)
  let ?cn2 = "?cn1\<lparr>cn_buffer_out := Some b', cn_event_source := Some es\<rparr>"
  define w2 where "w2 = post_callback True (TClose c) (set_conn c ?cn2 (?v\<lparr>w_epoll := k\<rparr>))"
  have w2: "handle_write app c n ?w1 = Inr w2" "w_heap w2 c = Some ?cn2" "w_tasks w2 = w_tasks w @ [TClose c]"
      "w_wire w2 = w_wire w @ [(c, unsent cn)]" "w_log w2 = w_log w" "w_connections w2 = w_connections w"
    using h d by (simp_all add: conn_close_def get_conn_def w2_def post_callback_def set_conn_def)
  from run_close_done [OF w2(2), of app] b' assms(5,7) w2(6) obtain w3 where
    "run_close app c w2 = Inr w3" "\<forall>cn'. w_heap w3 c = Some cn' \<longrightarrow> cn_state cn' = Closed"
    "map_of (w_connections w3) (cn_fd cn) = None" "w_wire w3 = w_wire w2"
    "w_log w3 = w_log w2 @ (if cn_closed_callback cn then [UClosed c] else [])" by auto
  then show ?thesis using c1(1) w2 by (intro exI [of _ ?w1] exI [of _ w2] exI [of _ w3]) simp
qed

theorem graceful_close_witness:
  "\<exists>l w1 w2 w3. reachable echo l \<and> exec_task echo (TClose 0) (lp_world l) = Inr w1 \<and> handle_write echo 0 9 w1 = Inr w2 \<and>
    exec_task echo (TClose 0) w2 = Inr w3 \<and> bytes_of 0 (w_wire w3) = [Some 1, Some 2, Some 3]"
proof -
  have "holds (\<lambda>l. conn_at 0 (\<lambda>cn. unsent cn = [Some 3] \<and> cn_fd cn = 7) l \<and> map_of (w_connections (lp_world l)) 7 = Some 0 \<and>
      bytes_of 0 (w_wire (lp_world l)) = [Some 1, Some 2]) (scenario echo 16 echo_labels)" by code_simp
  from echo_reached [OF this] obtain l cn where r: "reachable echo l" and c: "w_heap (lp_world l) 0 = Some cn"
    "unsent cn = [Some 3]" "cn_fd cn = 7" "map_of (w_connections (lp_world l)) 7 = Some 0"
    "bytes_of 0 (w_wire (lp_world l)) = [Some 1, Some 2]" by (auto elim: conn_atE)
  have wf: "world_wf (lp_world l)" using reachable_wf [OF r] by blast
  from graceful_close [OF wf c(1), of 9 echo] c r show ?thesis by (simp del: exec_task.simps) blast
qed


definition closing_labels :: "label list" where
  "closing_labels = turn 0 [accept_event 7] @ turn 1 [conn_event 0 EPOLLIN [1, 2, 3] 0] @ LForeign (AClose 0) # turn 1 []"


text \<open>
  C35: a read error on a connection that never wrote crashes the loop. The handler posts a forced close,
  and the forced close clears the output buffer through a null pointer, because the buffer is created
  by the first write.
\<close>

theorem read_error_crashes:
  assumes "w_heap w c = Some cn" and "cn_buffer_out cn = None" and "\<not> cn_error_callback cn"
    and "w_recv w = Some b" and "bb_wf b" and "w_tasks w = []"
  shows "\<exists>w'. handle_read app c ReadFail w = Inr w' \<and> w_tasks w' = [TForceClose c] \<and>
    drain_one app (TForceClose c) w' = Inl NullDeref"
proof -
  from assms(5) obtain cap where "bb_capacity b = Inr cap" by (rule bb_wfE)
  then obtain b1 where "bb_clear b = Inr b1" by (auto simp: bb_clear_def)
  then show ?thesis
    using assms by (auto simp: handle_read_def conn_force_close_def get_conn_def post_callback_def drain_one_def
        run_force_close_def)
qed

theorem read_error_crashes_witness:
  "\<exists>b w'. ByteBuffer 8 = Inr b \<and> handle_read (\<lambda>_ _. []) 0 ReadFail ((demo_world demo_conn)\<lparr>w_recv := Some b\<rparr>) = Inr w' \<and>
    drain_one (\<lambda>_ _. []) (TForceClose 0) w' = Inl NullDeref"
proof -
  from ByteBuffer_ok [of 8] obtain b where b: "ByteBuffer 8 = Inr b" "bb_wf b" by auto
  from read_error_crashes [of "(demo_world demo_conn)\<lparr>w_recv := Some b\<rparr>" 0 demo_conn b "\<lambda>_ _. []"] b
  show ?thesis by (auto simp: demo_defs)
qed

text \<open>The callback of \<open>close\<close> on a connection with nothing to send, while some pointer keeps it alive.\<close>

lemma run_close_idle:
  assumes c: "w_heap w c = Some cn" and u: "unsent cn = []" and cb: "cn_closed_callback cn"
    and app: "\<And>log. app log (UClosed c) = []" and ref: "Some c \<in> task_holds ` set (w_tasks w)"
    and m: "map_of (w_connections w) (cn_fd cn) \<in> {None, Some c}"
  shows "run_close app c w = Inr (w\<lparr>w_heap := (w_heap w)(c \<mapsto> cn\<lparr>cn_state := Closed\<rparr>),
    w_log := w_log w @ [UClosed c], w_connections := AList.delete (cn_fd cn) (w_connections w)\<rparr>)"
proof -
  have r: "release c v = v" if "Some c \<in> task_holds ` set (w_tasks v)" for v
    using that by (simp add: release_def referenced_def split: option.splits)
  have "release_opt (map_of (w_connections w) (cn_fd cn)) v = v" if "Some c \<in> task_holds ` set (w_tasks v)" for v
    using m r [OF that] by auto
  with r show ?thesis
    using c u cb app ref
    by (simp add: run_close_def get_conn_def has_bytes_iff set_conn_def user_call_def remove_connection_def)
qed

text \<open>
  C36: the close callback has no guard against running twice. Two calls of \<open>close\<close> on an idle connection
  (say the application's and the library's own when the peer shuts down) call the closed callback of
  the application twice for one connection.
\<close>

theorem close_twice_notifies_twice:
  assumes "w_heap w c = Some cn" and "unsent cn = []" and "cn_closed_callback cn"
    and "\<And>log. app log (UClosed c) = []" and "w_tasks w = [TClose c, TClose c]"
    and "map_of (w_connections w) (cn_fd cn) = Some c"
  shows "\<exists>w1 w2. drain_one app (TClose c) w = Inr w1 \<and> drain_one app (TClose c) w1 = Inr w2 \<and>
    w_tasks w1 = [TClose c] \<and> w_log w2 = w_log w @ [UClosed c, UClosed c]"
proof -
  let ?cn = "cn\<lparr>cn_state := Closed\<rparr>"
  define w1 where "w1 = w\<lparr>w_heap := (w_heap w)(c \<mapsto> ?cn), w_log := w_log w @ [UClosed c],
    w_connections := AList.delete (cn_fd cn) (w_connections w), w_tasks := [TClose c]\<rparr>"
  have d1: "drain_one app (TClose c) w = Inr w1"
    using run_close_idle [where app = app, OF assms(1-4)] assms(5,6)
    by (simp add: drain_one_def w1_def release_def referenced_def split: option.splits)
  have "w_heap w1 c = Some ?cn" "unsent ?cn = []" "cn_closed_callback ?cn" "Some c \<in> task_holds ` set (w_tasks w1)"
    "map_of (w_connections w1) (cn_fd ?cn) \<in> {None, Some c}"
    using assms(2,3) by (simp_all add: w1_def delete_conv')
  from run_close_idle [where app = app, OF this(1-3) assms(4) this(4,5)] obtain w2 where d2: "drain_one app (TClose c) w1 = Inr w2"
    and l2: "w_log w2 = w_log w1 @ [UClosed c]"
    by (auto simp: drain_one_def release_def destroy_def Let_def split: option.splits)
  from d1 d2 l2 show ?thesis by (intro exI [of _ w1] exI [of _ w2]) (simp add: w1_def)
qed

theorem close_twice_notifies_twice_witness:
  "\<exists>w1 w2. drain_one (\<lambda>_ _. []) (TClose 0) ((demo_world demo_conn)\<lparr>w_tasks := [TClose 0, TClose 0]\<rparr>) = Inr w1 \<and>
    drain_one (\<lambda>_ _. []) (TClose 0) w1 = Inr w2 \<and> w_log w2 = [UClosed 0, UClosed 0]"
  using close_twice_notifies_twice [of "(demo_world demo_conn)\<lparr>w_tasks := [TClose 0, TClose 0]\<rparr>" 0 demo_conn "\<lambda>_ _. []"]
  by (auto simp: demo_defs unsent_def)

text \<open>
  C37: \<open>write(data, len)\<close> captures the bare \<open>this\<close>. When \<open>close\<close> was called before it in the same turn and
  \<open>connections_\<close> holds the only pointer, the close callback destroys the connection and the write
  callback behind it in the queue uses the destroyed object, although \<open>write\<close> had returned true.
\<close>

theorem close_then_write_dangles:
  assumes "w_heap w c = Some cn" and "unsent cn = []" and "cn_closed_callback cn"
    and "\<And>log. app log (UClosed c) = []" and "w_tasks w = TClose c # TWriteRaw c buf # ts" and "0 \<le> bb_ptr buf"
    and "\<forall>(fd, d)\<in>set (w_connections w). d = c \<longrightarrow> fd = cn_fd cn" and "map_of (w_connections w) (cn_fd cn) = Some c"
    and "Some c \<notin> task_holds ` set (ts @ w_pending w @ w_callbacks w)" and "c \<notin> set (w_held w @ w_frame w)"
  shows "\<exists>w'. drain_one app (TClose c) w = Inr w' \<and> w_heap w' c = None \<and> w_tasks w' = TWriteRaw c buf # ts \<and>
    exec_task app (TWriteRaw c buf) w' = Inl UseAfterFree"
proof -
  let ?cn = "cn\<lparr>cn_state := Closed\<rparr>"
  define w1 where "w1 = w\<lparr>w_heap := (w_heap w)(c \<mapsto> ?cn), w_log := w_log w @ [UClosed c],
    w_connections := AList.delete (cn_fd cn) (w_connections w), w_tasks := TWriteRaw c buf # ts\<rparr>"
  have d: "drain_one app (TClose c) w = Inr (release c w1)"
    using run_close_idle [where app = app, OF assms(1-4)] assms(5,8) by (simp add: drain_one_def w1_def)
  have "c \<notin> snd ` set (AList.delete (cn_fd cn) (w_connections w))"
    using assms(7) by (auto simp: AList.delete_eq)
  then have "\<not> referenced c w1" using assms(9,10) by (auto simp: referenced_def w1_def)
  then have "release c w1 = destroy c ?cn w1" by (simp add: release_def w1_def)
  then have "w_heap (release c w1) c = None" "w_tasks (release c w1) = TWriteRaw c buf # ts"
    by (simp_all add: destroy_def Let_def w1_def)
  with d assms(6) show ?thesis by (auto simp: write_remaining_def do_write_def get_conn_def)
qed

theorem close_then_write_dangles_witness:
  "\<exists>w'. drain_one (\<lambda>_ _. []) (TClose 0) ((demo_world demo_conn)\<lparr>w_tasks := [TClose 0, TWriteRaw 0
      \<lparr>bb_limit = 1, bb_mark = -1, bb_position = 0, bb_data = [Some 0, Some 0, Some 0, Some 1, Some 9]\<rparr>]\<rparr>) = Inr w' \<and> w_heap w' 0 = None"
  using close_then_write_dangles [of "(demo_world demo_conn)\<lparr>w_tasks := [TClose 0, TWriteRaw 0
      \<lparr>bb_limit = 1, bb_mark = -1, bb_position = 0, bb_data = [Some 0, Some 0, Some 0, Some 1, Some 9]\<rparr>]\<rparr>" 0 demo_conn "\<lambda>_ _. []"]
  by (auto simp: demo_defs unsent_def bb_ptr_def)

section \<open>Two writes before a flush\<close>

lemma CircularBuffer_pow:
  assumes "is_pow_of_two n"
  shows "cb_capacity (CircularBuffer n) = n"
proof -
  from assms obtain k where k: "k < 32" "unat n = 2 ^ k" by (auto simp: is_pow_of_two_iff)
  then have "unat n \<le> 2 ^ 31" using exp_le_max [OF k(1)] by simp
  then have "\<not> n > 0x80000000" by (simp add: word_less_nat_alt)
  with assms show ?thesis by (simp add: CircularBuffer_def Let_def)
qed

lemma put_twice_loses:
  assumes pow: "is_pow_of_two len" and small: "unat len \<le> 2 ^ 30" and d1: "unat len \<le> length d1"
  shows "\<exists>b1 b2. cb_put (CircularBuffer len) d1 len = Inr b1 \<and> cb_put b1 d2 len = Inr b2 \<and>
    cb_contents b1 = take (unat len) d1 \<and> cb_contents b2 = take (unat len) d1 @ replicate (unat len) None"
proof -
  let ?b = "CircularBuffer len"
  have cap: "cb_capacity ?b = len" by (rule CircularBuffer_pow [OF pow])
  have b: "cb_wf ?b" "cb_contents ?b = []" by (simp_all add: CircularBuffer_wf CircularBuffer_contents)
  have l: "unat (buffer_len ?b) = 0" using b(2) by (metis length_cb_contents list.size(3))
  from cb_put_fits [OF b(1), of len d1] d1 l obtain b1 where b1: "cb_put ?b d1 len = Inr b1" "cb_wf b1"
    "cb_contents b1 = take (unat len) d1" "cb_capacity b1 = len"
    by (auto simp: cb_wf_length [OF b(1), symmetric] cap b(2))
  have n: "0 < unat len" using pow by (auto simp: is_pow_of_two_iff)
  have full: "unat (buffer_len b1) = unat len" using arg_cong [OF b1(3), of length] d1 by simp
  have i: "cb_in ?b = 0 \<and> cb_out ?b = 0" by (simp add: CircularBuffer_def Let_def)
  then have i1: "cb_in b1 = len" "cb_out b1 = 0"
    using b1(1) by (auto simp: cb_put_def cb_resize_def Let_def bindr_eq_Inr_iff buffer_len_def split: if_splits)
  have "cb_aligned_full b1"
    using pow i1 b1(4) by (simp add: cb_aligned_full_def cb_full_def in_index_def is_pow_of_two_def)
  moreover have "unat len + unat (cb_capacity b1) \<le> 2 ^ 31" using small b1(4) by simp
  moreover have "buffer_remaining b1 < len"
    using i1 b1(4) n by (simp add: buffer_remaining_def word_less_nat_alt)
  ultimately obtain b2 where "cb_put b1 d2 len = Inr b2" "cb_contents b2 = cb_contents b1 @ replicate (unat len) None"
    using cb_resize_loses [OF b1(2), of len d2] by (auto simp: cb_put_def)
  with b1 show ?thesis by auto
qed

text \<open>
  C38: two writes of the same power-of-two size before the first is flushed lose the second. The first
  write creates the output buffer exactly as large as its data, so it is full with \<open>in_\<close> at the start
  of the block when the second arrives; that one is queued as indeterminate bytes.
\<close>

theorem second_write_lost:
  assumes "world_wf w" and "w_heap w c = Some cn" and "cn_state cn = Receiving" and "cn_buffer_out cn = None"
    and "is_pow_of_two len" and "unat len \<le> 2 ^ 30" and "unat len \<le> length d1"
  shows "\<exists>w1 w2 cn2. do_write c d1 len w = Inr w1 \<and> do_write c d2 len w1 = Inr w2 \<and> w_heap w2 c = Some cn2 \<and>
    unsent cn2 = take (unat len) d1 @ replicate (unat len) None"
proof -
  from put_twice_loses [OF assms(5-7), of d2] obtain b1 b2 where b: "cb_put (CircularBuffer len) d1 len = Inr b1"
    "cb_put b1 d2 len = Inr b2" "cb_contents b2 = take (unat len) d1 @ replicate (unat len) None" by blast
  from world_wfD(2) [OF assms(1,2)] obtain es where es: "cn_event_source cn = Some es"
    by (auto simp: conn_ok_def source_ok_def split: option.splits)
  obtain es1 k1 where k1: "enable_writing (es, w_epoll w) = (es1, k1)" by fastforce
  obtain es2 k2 where k2: "enable_writing (es1, k1) = (es2, k2)" by fastforce
  let ?q = "\<lambda>d. (c, readable (unat len) d)"
  let ?w1 = "w\<lparr>w_queued := w_queued w @ [?q d1], w_epoll := k1,
    w_heap := (w_heap w)(c \<mapsto> cn\<lparr>cn_buffer_out := Some b1, cn_event_source := Some es1\<rparr>)\<rparr>"
  let ?cn2 = "cn\<lparr>cn_buffer_out := Some b2, cn_event_source := Some es2\<rparr>"
  let ?w2 = "?w1\<lparr>w_queued := w_queued w @ [?q d1, ?q d2], w_epoll := k2, w_heap := (w_heap w)(c \<mapsto> ?cn2)\<rparr>"
  have "do_write c d1 len w = Inr ?w1"
    using assms(2-4) by (simp add: do_write_def get_conn_def out_buffer_def b(1) on_source_def set_conn_def es k1)
  moreover have "do_write c d2 len ?w1 = Inr ?w2"
    using assms(2,3) by (simp add: do_write_def get_conn_def out_buffer_def b(2) on_source_def set_conn_def k2)
  ultimately show ?thesis using b(3) by (intro exI [of _ ?w1] exI [of _ ?w2] exI [of _ ?cn2]) simp
qed

theorem second_write_lost_witness:
  "\<exists>w w1 w2 cn2. do_write 0 [Some 1, Some 2] 2 w = Inr w1 \<and> do_write 0 [Some 3, Some 4] 2 w1 = Inr w2 \<and>
    w_heap w2 0 = Some cn2 \<and> unsent cn2 = [Some 1, Some 2, None, None]"
proof -
  let ?xs = "turn 0 [accept_event 7]"
  have ok: "holds (run_ok echo ?xs) (serve 16 all_callbacks)" by code_simp
  have "holds (conn_at 0 (\<lambda>cn. cn_state cn = Receiving \<and> cn_buffer_out cn = None)) (scenario echo 16 ?xs)" by code_simp
  then obtain l cn where l: "scenario echo 16 ?xs = Inr l" and c: "w_heap (lp_world l) 0 = Some cn"
    "cn_state cn = Receiving" "cn_buffer_out cn = None" by (auto elim!: holdsE conn_atE)
  have wf: "world_wf (lp_world l)" using reachable_wf [OF reachable_scenario [OF ok l]] by blast
  have p: "is_pow_of_two 2" by code_simp
  have "unat (2 :: u32) \<le> 2 ^ 30" "unat (2 :: u32) \<le> length [Some 1, Some (2 :: u8)]" by simp_all
  note loss = second_write_lost [OF wf c p this, of "[Some 3, Some 4]"]
  have "take (unat (2 :: u32)) [Some 1, Some (2 :: u8)] @ replicate (unat (2 :: u32)) None = [Some 1, Some 2, None, None]"
    by code_simp
  with loss show ?thesis by (metis (no_types, lifting))
qed

end
