(* ===== verification/Loop_Order.thy ===== *)
theory Loop_Order
  imports Loop_Properties
begin

text \<open>
  The order in which the loop runs callbacks, and when a turn of its body ends.
\<close>

section \<open>Order\<close>

text \<open>The callbacks of other threads that have not run yet, the current batch first.\<close>

definition waiting :: "loop \<Rightarrow> task list" where
  "waiting l = (case lp_phase l of Batch ts \<Rightarrow> ts | _ \<Rightarrow> []) @ w_pending (lp_world l)"

lemma grows_waiting: "grows (lp_world l) (lp_world l') \<Longrightarrow> lp_phase l' = lp_phase l \<Longrightarrow> prefix (waiting l) (waiting l')"
  by (auto simp: waiting_def grows_def)

lemma on_world_grows:
  assumes "lawful (lp_world l) (f (lp_world l))" and "on_world f l = Inr l'"
  shows "grows (lp_world l) (lp_world l')" and "lp_phase l' = lp_phase l"
  using assms by (auto simp: on_world_def lawful_but_def bindr_eq_Inr_iff evolves_but_def)

lemma pull_events_order:
  assumes p: "lp_phase l = Poll" and r: "pull_events answer l = Inr l'"
  shows "prefix (waiting l) (waiting l') \<and> prefix (w_tasks (lp_world l)) (w_tasks (lp_world l'))"
proof (cases answer)
  case None
  with r p show ?thesis by (auto simp: pull_events_def waiting_def)
next
  case (Some rs)
  with r obtain l1 where l1: "mark_all (take (w_events_size (lp_world l)) rs) l = Inr l1"
    by (auto simp: pull_events_def Let_def bindr_eq_Inr_iff)
  have l': "w_tasks (lp_world l') = w_tasks (lp_world l1) \<and> w_pending (lp_world l') = w_pending (lp_world l1) \<and>
      (\<exists>ev. lp_phase l' = Dispatch ev)"
    using r Some l1 by (auto simp: pull_events_def Let_def)
  from mark_all_advances [OF l1] have "hist (lp_world l) (lp_world l1)" by (simp add: advances_def)
  with l' p show ?thesis by (auto simp: hist_def waiting_def)
qed

lemma drain_step_order:
  assumes t: "w_tasks (lp_world l) = t # ts" and r: "on_world (drain_one app t) l = Inr l'"
  shows "drain_one app t (lp_world l) = Inr (lp_world l') \<and> prefix ts (w_tasks (lp_world l')) \<and>
    prefix (w_pending (lp_world l)) (w_pending (lp_world l')) \<and> lp_phase l' = lp_phase l"
proof -
  from r have d: "drain_one app t (lp_world l) = Inr (lp_world l')" and p: "lp_phase l' = lp_phase l"
    by (auto simp: on_world_def bindr_eq_Inr_iff)
  from drain_one_law [OF t d] obtain w1 where "evolves (lp_world l) w1" "prefix ts (w_tasks (lp_world l'))"
    "w_pending (lp_world l') = w_pending w1" by blast
  with d p show ?thesis by (simp add: evolves_but_def grows_def)
qed

lemma dispatch_step_order:
  assumes "loop_inv l" and "label_ok LStep l" and "within_quota (lp_world l')" and p: "lp_phase l = Dispatch rs"
    and r: "run_step app l = Inr l'"
  shows "prefix (waiting l) (waiting l') \<and> prefix (w_tasks (lp_world l)) (w_tasks (lp_world l'))"
proof (cases rs)
  case Nil
  with r p show ?thesis by (auto simp: run_step_def Let_def waiting_def)
next
  case (Cons y ys)
  with r p obtain l1 where d: "dispatch app y l = Inr l1" and l': "l' = set_phase (Dispatch ys) l1"
    by (auto simp: run_step_def Let_def bindr_eq_Inr_iff)
  have "advances l l1"
    using dispatch_advances [OF d] assms(1-3) p Cons by (simp add: loop_inv_def label_ok_def l')
  with p l' show ?thesis by (auto simp: advances_def hist_def waiting_def)
qed

lemma batch_step_order:
  assumes p: "lp_phase l = Batch (t # ts)" and r: "run_step app l = Inr l'"
  shows "exec_task app t (lp_world l) = Inr (lp_world l') \<and> waiting l = t # tl (waiting l) \<and>
    prefix (tl (waiting l)) (waiting l') \<and> prefix (w_tasks (lp_world l)) (w_tasks (lp_world l'))"
proof -
  from p r obtain l1 where e: "on_world (exec_task app t) l = Inr l1" and l': "l' = set_phase (Batch ts) l1"
    by (auto simp: run_step_def Let_def bindr_eq_Inr_iff)
  from e have "exec_task app t (lp_world l) = Inr (lp_world l')" by (auto simp: on_world_def bindr_eq_Inr_iff l')
  with on_world_grows(1) [OF lawful_exec_task e] p l' show ?thesis by (auto simp: waiting_def grows_def)
qed



section \<open>The end of a turn\<close>

text \<open>
  An application that makes no calls of its own when it is called. Then only the library posts tasks,
  and each task posts at most one more: writing to a closed connection posts a forced close.
\<close>

definition quiet :: "app \<Rightarrow> bool" where
  "quiet app \<longleftrightarrow> (\<forall>log ev. app log ev = [])"

fun task_weight :: "task \<Rightarrow> nat" where
  "task_weight (TWriteBuf c b) = 2"
| "task_weight (TWriteRaw c b) = 2"
| "task_weight _ = 1"

definition weight :: "world \<Rightarrow> nat" where
  "weight w = sum_list (map task_weight (w_tasks w))"

lemma quiet_user_call:
  assumes "quiet app" and "user_call app ev w = Inr w'"
  shows "w_tasks w' = w_tasks w"
  using assms by (cases "uevent_conn ev") (auto simp: user_call_def quiet_def bindr_eq_Inr_iff)

lemma on_source_tasks: "on_source c f w = Inr w' \<Longrightarrow> w_tasks w' = w_tasks w"
  by (erule on_source_Inr) (simp add: set_conn_def)

lemma quiet_run_close: "quiet app \<Longrightarrow> run_close app c w = Inr w' \<Longrightarrow> w_tasks w' = w_tasks w"
  using quiet_user_call [of app "UClosed c"]
  by (auto simp: run_close_def bindr_eq_Inr_iff set_conn_def remove_connection_def split: if_splits)

lemma quiet_run_force_close: "quiet app \<Longrightarrow> run_force_close app c w = Inr w' \<Longrightarrow> w_tasks w' = w_tasks w"
  using quiet_user_call [of app "UClosed c"]
  by (cases "w_heap w c"; cases "cn_buffer_out (the (w_heap w c))"; cases "cn_event_source (the (w_heap w c))")
    (auto simp: run_force_close_def get_conn_def bindr_eq_Inr_iff set_conn_def remove_connection_def Let_def split: if_splits)

lemma do_write_tasks: "do_write c data len w = Inr w' \<Longrightarrow> w_tasks w' = w_tasks w \<or> w_tasks w' = w_tasks w @ [TForceClose c]"
  by (auto simp: do_write_def conn_force_close_def post_callback_def bindr_eq_Inr_iff set_conn_def
      dest!: on_source_tasks split: if_splits)

lemma quiet_exec_task:
  assumes q: "quiet app" and x: "exec_task app t w = Inr w'"
  shows "w_tasks w' = w_tasks w \<or> task_weight t = 2 \<and> (\<exists>c. w_tasks w' = w_tasks w @ [TForceClose c])"
  using x quiet_run_close [OF q] quiet_run_force_close [OF q] quiet_user_call [OF q] do_write_tasks
  by (cases t) (fastforce simp: write_remaining_def split: if_splits option.splits)+

lemma quiet_drain_one:
  assumes q: "quiet app" and t: "w_tasks w = t # ts" and d: "drain_one app t w = Inr w'"
  shows "weight w' < weight w"
proof -
  from d obtain w1 where x: "exec_task app t w = Inr w1" and w': "w_tasks w' = tl (w_tasks w1)"
    by (auto simp: drain_one_def bindr_eq_Inr_iff)
  have "0 < task_weight t" by (cases t) auto
  then show ?thesis using quiet_exec_task [OF q x] by (auto simp: weight_def w' t)
qed

text \<open>The number of steps that end the turn, or a fault on the way.\<close>

definition turn_over :: "loop res \<Rightarrow> bool" where
  "turn_over r \<longleftrightarrow> (case r of Inl e \<Rightarrow> True | Inr l \<Rightarrow> lp_phase l = Test)"

definition turn_ends :: "app \<Rightarrow> loop \<Rightarrow> bool" where
  "turn_ends app l \<longleftrightarrow> (\<exists>n. turn_over (loop_run app (replicate n LStep) l))"

lemma turn_ends_step:
  assumes "\<And>l'. run_step app l = Inr l' \<Longrightarrow> turn_ends app l'"
  shows "turn_ends app l"
proof (cases "run_step app l")
  case (Inl e)
  then show ?thesis by (auto simp: turn_ends_def turn_over_def intro: exI [of _ 1])
next
  case (Inr l')
  from assms [OF this] obtain n where "turn_over (loop_run app (replicate n LStep) l')" by (auto simp: turn_ends_def)
  then have "turn_over (loop_run app (replicate (Suc n) LStep) l)" using Inr by simp
  then show ?thesis unfolding turn_ends_def by blast
qed

lemma turn_ends_drain: "quiet app \<Longrightarrow> lp_phase l = Drain \<Longrightarrow> turn_ends app l"
proof (induction "weight (lp_world l)" arbitrary: l rule: less_induct)
  case less
  show ?case
  proof (rule turn_ends_step)
    fix l' assume r: "run_step app l = Inr l'"
    show "turn_ends app l'"
    proof (cases "w_tasks (lp_world l)")
      case Nil
      with r less.prems have "lp_phase l' = Test" by (auto simp: run_step_def Let_def)
      then show ?thesis by (auto simp: turn_ends_def turn_over_def intro: exI [of _ 0])
    next
      case (Cons t ts)
      with r less.prems have o: "on_world (drain_one app t) l = Inr l'" by (simp add: run_step_def Let_def)
      from drain_step_order [OF Cons o] quiet_drain_one [OF less.prems(1) Cons]
      show ?thesis using less.hyps less.prems by auto
    qed
  qed
qed

lemma run_step_phase:
  assumes "run_step app l = Inr l'"
  shows "lp_phase l = Batch [] \<Longrightarrow> lp_phase l' = Drain"
    and "lp_phase l = Batch (t # ts) \<Longrightarrow> lp_phase l' = Batch ts"
    and "lp_phase l = Dispatch [] \<Longrightarrow> \<exists>ts. lp_phase l' = Batch ts"
    and "lp_phase l = Dispatch (r # rs) \<Longrightarrow> lp_phase l' = Dispatch rs"
  using assms by (auto simp: run_step_def Let_def bindr_eq_Inr_iff)

lemma turn_ends_batch: "quiet app \<Longrightarrow> lp_phase l = Batch ts \<Longrightarrow> turn_ends app l"
proof (induction ts arbitrary: l)
  case Nil
  then show ?case using turn_ends_drain run_step_phase(1) by (blast intro: turn_ends_step)
next
  case (Cons t ts)
  then show ?case using run_step_phase(2) by (blast intro: turn_ends_step)
qed

lemma turn_ends_dispatch: "quiet app \<Longrightarrow> lp_phase l = Dispatch rs \<Longrightarrow> turn_ends app l"
proof (induction rs arbitrary: l)
  case Nil
  then show ?case using turn_ends_batch run_step_phase(3) by (blast intro: turn_ends_step)
next
  case (Cons r rs)
  then show ?case using run_step_phase(4) by (blast intro: turn_ends_step)
qed

lemma turn_ends_body:
  assumes "quiet app" and "lp_phase l \<notin> {Exit, Poll}"
  shows "turn_ends app l"
proof -
  have "turn_ends app l" if "lp_phase l = Test"
    using that unfolding turn_ends_def by (intro exI [of _ 0]) (simp add: turn_over_def)
  then show ?thesis
    using assms turn_ends_dispatch turn_ends_batch turn_ends_drain by (cases "lp_phase l") blast+
qed

text \<open>
  C13: a turn of the loop body ends. With an application that makes no calls when it is called back,
  from every point of the body behind \<open>epoll_wait\<close> a finite number of steps leads back to the test of
  \<open>running_\<close> (or to a fault).
\<close>

theorem turn_terminates:
  assumes "quiet app" and "lp_phase l \<notin> {Exit, Poll}"
  shows "\<exists>n. case loop_run app (replicate n LStep) l of Inl e \<Rightarrow> True | Inr l' \<Rightarrow> lp_phase l' = Test"
  using turn_ends_body [OF assms] by (simp add: turn_ends_def turn_over_def)

theorem turn_terminates_witness:
  "\<exists>n. case loop_run (\<lambda>_ _. []) (replicate n LStep) ((EventLoop 3)\<lparr>lp_phase := Drain\<rparr>) of Inl e \<Rightarrow> True | Inr l' \<Rightarrow> lp_phase l' = Test"
  by (rule turn_terminates) (simp_all add: quiet_def)

text \<open>
  C33: without that condition it need not end. An application callback that posts itself again from the
  loop's thread keeps the drain loop busy for ever: after any number of steps the loop has not returned
  to \<open>epoll_wait\<close>, and no event is handled any more.
\<close>

theorem reposting_starves:
  assumes "\<And>log. app log (UTask k) = [APost k]" and "lp_phase l = Drain" and "w_tasks (lp_world l) = [TUser k]"
  shows "\<exists>l'. loop_run app (replicate n LStep) l = Inr l' \<and> lp_phase l' = Drain \<and> w_tasks (lp_world l') = [TUser k]"
  using assms
proof (induction n arbitrary: l)
  case (Suc n)
  let ?w = "lp_world l"
  define l1 where "l1 = l\<lparr>lp_world := ?w\<lparr>w_log := w_log ?w @ [UTask k], w_tasks := [TUser k]\<rparr>\<rparr>"
  have "run_step app l = Inr l1"
    using Suc.prems by (simp add: run_step_def Let_def on_world_def drain_one_def user_call_def post_callback_def l1_def)
  moreover have "\<exists>l'. loop_run app (replicate n LStep) l1 = Inr l' \<and> lp_phase l' = Drain \<and> w_tasks (lp_world l') = [TUser k]"
    using Suc.prems by (intro Suc.IH) (simp_all add: l1_def)
  ultimately show ?case by simp
qed simp

theorem reposting_starves_witness:
  "\<exists>l' :: loop. loop_run (\<lambda>_ _. [APost 1]) (replicate 5 LStep)
      ((EventLoop 3)\<lparr>lp_phase := Drain, lp_world := EventLoop_members\<lparr>w_tasks := [TUser 1]\<rparr>\<rparr>) = Inr l' \<and>
    lp_phase l' = Drain \<and> w_tasks (lp_world l') = [TUser 1]"
  by (rule reposting_starves) simp_all

end
