(* ===== verification/World_Invariant.thy ===== *)
theory World_Invariant
  imports Event_Loop
begin

text \<open>
  Invariants of the shared state, once and for all: a predicate that the few primitives of
  \<open>Loop_State\<close> keep is kept by every call of the application, every handler, every deferred callback
  and every step of the loop.
\<close>

definition keeps :: "(world \<Rightarrow> bool) \<Rightarrow> world \<Rightarrow> world res \<Rightarrow> bool" where
  "keeps P w r \<longleftrightarrow> (\<forall>w'. r = Inr w' \<longrightarrow> P w \<longrightarrow> P w')"

lemma keeps_simps [simp]: "keeps P w (Inl e)" "keeps P w (Inr w') \<longleftrightarrow> (P w \<longrightarrow> P w')"
  by (simp_all add: keeps_def)

lemma keeps_bindr: "keeps P w r \<Longrightarrow> (\<And>w'. keeps P w' (f w')) \<Longrightarrow> keeps P w (bindr r f)"
  by (auto simp: keeps_def bindr_eq_Inr_iff)

lemma keeps_first: "(P w \<Longrightarrow> P w1) \<Longrightarrow> keeps P w1 r \<Longrightarrow> keeps P w r"
  by (auto simp: keeps_def)

lemma keeps_get: "(\<And>cn. w_heap w c = Some cn \<Longrightarrow> keeps P w (f cn)) \<Longrightarrow> keeps P w (bindr (get_conn c w) f)"
  by (auto simp: get_conn_def split: option.splits)

lemma keeps_pure: "(\<And>x. r = Inr x \<Longrightarrow> keeps P w (f x)) \<Longrightarrow> keeps P w (bindr r f)"
  by (cases r) auto

definition loop_keeps :: "(world \<Rightarrow> bool) \<Rightarrow> loop \<Rightarrow> loop res \<Rightarrow> bool" where
  "loop_keeps P l r \<longleftrightarrow> (\<forall>l'. r = Inr l' \<longrightarrow> P (lp_world l) \<longrightarrow> P (lp_world l'))"

lemma loop_keeps_simps [simp]: "loop_keeps P l (Inl e)"
  "loop_keeps P l (Inr l') \<longleftrightarrow> (P (lp_world l) \<longrightarrow> P (lp_world l'))"
  by (simp_all add: loop_keeps_def)

lemma loop_keeps_bindr: "loop_keeps P l r \<Longrightarrow> (\<And>l'. loop_keeps P l' (f l')) \<Longrightarrow> loop_keeps P l (bindr r f)"
  by (auto simp: loop_keeps_def bindr_eq_Inr_iff)

lemma loop_keeps_pure: "(\<And>x. r = Inr x \<Longrightarrow> loop_keeps P l (f x)) \<Longrightarrow> loop_keeps P l (bindr r f)"
  by (cases r) auto

section \<open>The contract\<close>

text \<open>
  What an invariant has to bear: changes of the fields that hold no pointers, posting and stopping,
  changes of a live connection, and pointers that come and go, the object being released when a
  pointer to it goes.
\<close>

locale world_invariant =
  fixes P :: "world \<Rightarrow> bool"
  assumes fields [simp]: "P (w\<lparr>w_log := a\<rparr>) = P w" "P (w\<lparr>w_bufs := b\<rparr>) = P w" "P (w\<lparr>w_eventfd := n\<rparr>) = P w"
      "P (w\<lparr>w_events_size := n\<rparr>) = P w" "P (w\<lparr>w_recv := e\<rparr>) = P w" "P (w\<lparr>w_epoll := k\<rparr>) = P w"
      "P (w\<lparr>w_queued := q\<rparr>) = P w" "P (w\<lparr>w_wire := q\<rparr>) = P w" "P (w\<lparr>w_closed := s\<rparr>) = P w"
    and post [simp]: "P w \<Longrightarrow> P (post_callback here t w)"
    and stopping [simp]: "P w \<Longrightarrow> P (stop w)"
    and set_live [simp]: "w_heap w c = Some cn \<Longrightarrow> P (set_conn c cn' w) = P w"
    and erase [simp]: "P w \<Longrightarrow> P (remove_connection fd w)"
    and enter: "P w \<Longrightarrow>
      P (release_opt (map_of (w_connections w) fd) (w\<lparr>w_connections := AList.update fd c (w_connections w)\<rparr>))"
    and take_ref: "P w \<Longrightarrow> P (w\<lparr>w_frame := c # w_frame w\<rparr>)" "P w \<Longrightarrow> P (w\<lparr>w_held := c # w_held w\<rparr>)"
    and drop_ref: "P w \<Longrightarrow> P (release c (w\<lparr>w_frame := remove1 c (w_frame w)\<rparr>))"
      "P w \<Longrightarrow> P (release c (w\<lparr>w_held := remove1 c (w_held w)\<rparr>))"
    and spawn: "P w \<Longrightarrow> P (w\<lparr>w_next := Suc (w_next w), w_heap := (w_heap w)(w_next w \<mapsto> cn), w_frame := w_next w # w_frame w\<rparr>)"
    and pop_task: "w_tasks w = t # ts \<Longrightarrow> P w \<Longrightarrow> P (release_opt (task_holds t) (w\<lparr>w_tasks := ts\<rparr>))"
    and pop_callback: "w_callbacks w = t # ts \<Longrightarrow> P w \<Longrightarrow> P (release_opt (task_holds t) (w\<lparr>w_callbacks := ts\<rparr>))"
begin

lemma keeps_with_ref:
  assumes "\<And>w. keeps P w (f w)"
  shows "keeps P w (with_ref r f w)"
proof (cases r)
  case (Some c)
  have "keeps P w (bindr (f (w\<lparr>w_frame := c # w_frame w\<rparr>)) (\<lambda>w. Inr (release c (w\<lparr>w_frame := remove1 c (w_frame w)\<rparr>))))"
  proof (rule keeps_first [OF _ keeps_bindr [OF assms]])
    show "P (w\<lparr>w_frame := c # w_frame w\<rparr>)" if "P w" using that by (rule take_ref)
    show "keeps P v (Inr (release c (v\<lparr>w_frame := remove1 c (w_frame v)\<rparr>)))" for v by (simp add: drop_ref)
  qed
  then show ?thesis by (auto simp: Some intro: keeps_get)
qed (use assms in simp)

lemma keeps_on_source: "keeps P w (on_source c f w)"
  unfolding keeps_def by (auto elim!: on_source_Inr)

lemma keeps_close: "keeps P w (conn_close here c w)" "keeps P w (conn_force_close here c w)"
  unfolding conn_close_def conn_force_close_def by (auto intro: keeps_get)

lemma keeps_exec_api: "keeps P w (exec_api here a w)"
proof (cases a)
  case (AHold c)
  then show ?thesis by (auto intro!: keeps_get take_ref)
next
  case (ADrop c)
  then show ?thesis by (simp add: drop_ref)
next
  case (AWrite c data len)
  then show ?thesis by (auto simp: conn_write_def keeps_def bindr_eq_Inr_iff split: if_splits)
next
  case (AWriteBuf c b)
  then show ?thesis by (auto simp: conn_write_buf_def keeps_def bindr_eq_Inr_iff split: if_splits)
next
  case (ABuf b op)
  then show ?thesis by (auto intro: keeps_pure split: option.splits)
next
  case (ANewBuf b n)
  then show ?thesis by (auto intro: keeps_pure)
qed (auto simp: keeps_close set_callback_def intro!: keeps_get)

lemma keeps_exec_apis: "keeps P w (exec_apis here as w)"
  by (induction as arbitrary: w) (auto intro: keeps_bindr keeps_exec_api)

lemma keeps_user_call: "keeps P w (user_call app ev w)"
  unfolding user_call_def by (rule keeps_with_ref) (rule keeps_first [OF _ keeps_exec_apis], simp)

lemma keeps_maybe_call: "keeps P w (if b then user_call app ev w else Inr w)"
  by (simp add: keeps_user_call)

lemma keeps_handle_read: "keeps P w (handle_read app c answer w)"
proof -
  have "keeps P w (handle_read app c answer w)"
    if c: "w_heap w c = Some cn" and b: "w_recv w = Some buffer" and cl: "bb_clear buffer = Inr b1" for cn buffer b1
  proof (cases answer)
    case ReadFail
    have "keeps P w (bindr (if cn_error_callback cn then user_call app (UError c) (w\<lparr>w_recv := Some b1\<rparr>)
        else Inr (w\<lparr>w_recv := Some b1\<rparr>)) (conn_force_close True c))"
      by (rule keeps_first [of P w "w\<lparr>w_recv := Some b1\<rparr>"]) (simp, intro keeps_bindr keeps_maybe_call keeps_close)
    with ReadFail c b cl show ?thesis by (simp add: handle_read_def get_conn_def)
  next
    case (ReadBytes available)
    let ?bytes = "take (nat (bb_remaining b1)) available"
    have "keeps P w (bindr (on_source c disable_reading (w\<lparr>w_recv := Some b1\<rparr>)) (conn_close True c))"
      by (rule keeps_first [of P w "w\<lparr>w_recv := Some b1\<rparr>"]) (simp, intro keeps_bindr keeps_on_source keeps_close)
    moreover have "keeps P w (if cn_read_callback cn then user_call app ev (w\<lparr>w_recv := Some b\<rparr>)
        else Inr (w\<lparr>w_recv := Some b\<rparr>))" for ev b
      by (rule keeps_first [of P w "w\<lparr>w_recv := Some b\<rparr>"]) (simp, rule keeps_maybe_call)
    ultimately show ?thesis
      using ReadBytes c b cl by (auto simp: handle_read_def get_conn_def Let_def intro!: keeps_pure)
  qed
  then show ?thesis
    by (cases "w_heap w c"; cases "w_recv w"; cases "bb_clear (the (w_recv w))") (auto simp: handle_read_def get_conn_def)
qed

lemma keeps_handle_write: "keeps P w (handle_write app c answer w)"
proof -
  have "keeps P w (handle_write app c answer w)"
    if c: "w_heap w c = Some cn" and b: "cn_buffer_out cn = Some b" "\<not> cb_empty b"
      and wr: "write_to_fd b (write_answer answer b) = Inr (r, b')" for cn b r b'
  proof -
    define w1 where "w1 = set_conn c (cn\<lparr>cn_buffer_out := Some b'\<rparr>)
        (w\<lparr>w_wire := w_wire w @ [(c, take (nat (write_answer answer b)) (gather (cb_data b) (write_iov b)))]\<rparr>)"
    have "P w1 = P w" unfolding w1_def by (subst set_live) (use c in simp_all)
    moreover have "keeps P w1 (if r < 0 then
        bindr (conn_force_close True c w1) (\<lambda>w. if cn_error_callback cn then user_call app (UError c) w else Inr w)
      else if r = 0 then conn_force_close True c w1
      else if cn_state cn = Disconnecting then bindr (on_source c disable_writing w1) (conn_close True c)
      else if cb_empty b' then on_source c disable_writing w1 else Inr w1)"
      by (auto intro!: keeps_bindr keeps_user_call keeps_close keeps_on_source)
    ultimately have "keeps P w (if r < 0 then
        bindr (conn_force_close True c w1) (\<lambda>w. if cn_error_callback cn then user_call app (UError c) w else Inr w)
      else if r = 0 then conn_force_close True c w1
      else if cn_state cn = Disconnecting then bindr (on_source c disable_writing w1) (conn_close True c)
      else if cb_empty b' then on_source c disable_writing w1 else Inr w1)" (is "keeps P w ?r")
      using keeps_first [of P w w1 ?r] by blast
    then show ?thesis
      unfolding w1_def using c b wr by (simp add: handle_write_def get_conn_def Let_def split del: if_split)
  qed
  moreover have "keeps P w (handle_write app c answer w)" if "\<nexists>cn b. w_heap w c = Some cn \<and> cn_buffer_out cn = Some b \<and> \<not> cb_empty b"
    using that by (auto simp: handle_write_def get_conn_def split: option.splits)
  moreover have "\<exists>r b'. write_to_fd b (write_answer answer b) = Inr (r, b')" if "\<not> cb_empty b" for b
    using that by (cases "write_to_fd b (write_answer answer b)") (auto simp: write_to_fd_def split: if_splits)
  ultimately show ?thesis by blast
qed

lemma keeps_do_write: "keeps P w (do_write c data len w)"
  unfolding do_write_def
proof (rule keeps_get)
  fix cn assume c: "w_heap w c = Some cn"
  let ?w = "w\<lparr>w_queued := w_queued w @ [(c, readable (unat len) data)]\<rparr>"
  have "keeps P w (on_source c enable_writing (set_conn c (cn\<lparr>cn_buffer_out := Some b\<rparr>) ?w))" for b
    using c by (intro keeps_first [OF _ keeps_on_source]) simp
  then show "keeps P w (if cn_state cn = Closed then conn_force_close True c w
      else bindr (cb_put (out_buffer cn len) data len) (\<lambda>b.
        on_source c enable_writing (set_conn c (cn\<lparr>cn_buffer_out := Some b\<rparr>) ?w)))"
    by (auto intro: keeps_pure keeps_close)
qed

lemma keeps_closed_call:
  assumes "w_heap w c = Some cn"
  shows "keeps P w (bindr (user_call app (UClosed c) (set_conn c cn' w)) (\<lambda>w. Inr (remove_connection fd w)))"
  using assms by (intro keeps_first [of P w "set_conn c cn' w"] keeps_bindr keeps_user_call) simp_all

lemma keeps_run_close: "keeps P w (run_close app c w)"
  unfolding run_close_def by (rule keeps_get) (auto intro: keeps_closed_call)

lemma keeps_run_force_close: "keeps P w (run_force_close app c w)"
  unfolding run_force_close_def
  by (rule keeps_get) (auto simp: Let_def intro: keeps_closed_call split: option.splits)

lemma keeps_exec_task: "keeps P w (exec_task app t w)"
  by (cases t) (auto simp: write_remaining_def keeps_do_write keeps_run_close keeps_run_force_close keeps_user_call
      split: option.splits)

lemma keeps_on_new_connection: "keeps P w (on_new_connection app c w)"
  unfolding on_new_connection_def
proof (rule keeps_bindr)
  show "keeps P w (conn_register_event c w)"
    unfolding conn_register_event_def by (rule keeps_get) (auto simp: Let_def split: prod.splits)
  show "keeps P v (bindr (get_conn c v) (\<lambda>cn.
      let old = map_of (w_connections v) (cn_fd cn);
          w = release_opt old (v\<lparr>w_connections := AList.update (cn_fd cn) c (w_connections v)\<rparr>)
      in if cn_established_callback cn then user_call app (UEstablished c) w else Inr w))" for v
    unfolding Let_def by (intro keeps_get keeps_first [OF enter keeps_maybe_call])
qed

lemma keeps_new_connection: "keeps P w (new_connection app cbs fd local peer w)"
  unfolding new_connection_def Let_def
proof (rule keeps_first [OF spawn keeps_bindr [OF keeps_on_new_connection]])
  show "keeps P v (Inr (release c (v\<lparr>w_frame := remove1 c (w_frame v)\<rparr>)))" for v c by (simp add: drop_ref)
qed

lemma keeps_handle_error: "keeps P w (handle_error app ct w)"
  unfolding handle_error_def by (intro keeps_bindr keeps_maybe_call) simp

lemma loop_keeps_on_world: "keeps P (lp_world l) (f (lp_world l)) \<Longrightarrow> loop_keeps P l (on_world f l)"
  by (auto simp: on_world_def loop_keeps_def keeps_def bindr_eq_Inr_iff)

lemma put_source [simp]: "P (lp_world (put_source s es l)) = P (lp_world l)"
proof (cases s)
  case (SConn c)
  let ?w = "lp_world l"
  show ?thesis
  proof (cases "w_heap ?w c")
    case None
    then have "(w_heap ?w)(c := None) = w_heap ?w" by (simp add: fun_upd_idem)
    with None SConn show ?thesis by simp
  next
    case (Some cn)
    with SConn set_live [OF Some, of "cn\<lparr>cn_event_source := Some es\<rparr>"] show ?thesis by (simp add: set_conn_def)
  qed
qed simp_all

lemma loop_keeps_mark_ready: "loop_keeps P l (mark_ready r l)"
  unfolding mark_ready_def by (rule loop_keeps_pure) simp

lemma loop_keeps_mark_all: "loop_keeps P l (mark_all rs l)"
  by (induction rs arbitrary: l) (auto intro!: loop_keeps_bindr loop_keeps_mark_ready)

lemma loop_keeps_pull_events: "loop_keeps P l (pull_events answer l)"
  by (auto simp: pull_events_def Let_def intro!: loop_keeps_bindr loop_keeps_mark_all split: option.splits)

lemma loop_keeps_connector: "loop_keeps P l (call_back app r (OnConnected i) l)"
proof (cases "lp_connectors l i")
  case (Some ct)
  have "P (lp_world l) \<longrightarrow> P w'" if "handle_connected app answer ct (lp_world l) = Inr (ct', w')" for answer ct' w'
    using that keeps_handle_error [of _ app] keeps_new_connection [of _ app]
    by (auto simp: handle_connected_def Let_def bindr_eq_Inr_iff keeps_def split: option.splits prod.splits if_splits)
  then show ?thesis by (auto simp: Some loop_keeps_def bindr_eq_Inr_iff)
qed simp

lemma loop_keeps_call_back: "loop_keeps P l (call_back app r cb l)"
proof (cases cb)
  case OnAccept
  have "P (lp_world l) \<longrightarrow> P w'" if "accept_ready app answer a (lp_world l) = Inr (a', w')" for answer a a' w'
    using that keeps_new_connection [of _ app]
    by (auto simp: accept_ready_def Let_def bindr_eq_Inr_iff keeps_def split: option.splits prod.splits)
  then show ?thesis by (auto simp: OnAccept loop_keeps_def bindr_eq_Inr_iff split: option.splits)
next
  case (OnConnected i)
  then show ?thesis using loop_keeps_connector by simp
qed (auto intro!: loop_keeps_on_world keeps_handle_read keeps_handle_write keeps_close keeps_handle_error split: option.splits)

lemma loop_keeps_call_backs: "loop_keeps P l (call_backs app r cbs l)"
proof (induction cbs arbitrary: l)
  case (Cons cb cbs)
  have "loop_keeps P l (bindr (source_of s l) (\<lambda>_. call_backs app r cbs l))" for s l
    by (rule loop_keeps_pure) (rule Cons)
  with Cons show ?case by (auto intro!: loop_keeps_bindr loop_keeps_call_back)
qed simp

lemma loop_keeps_disable_source: "loop_keeps P l (disable_source s l)"
  unfolding disable_source_def by (rule loop_keeps_pure) (auto split: prod.splits)

lemma loop_keeps_dispatch: "loop_keeps P l (dispatch app r l)"
  unfolding dispatch_def
proof (rule loop_keeps_pure)
  fix es :: "event_cb event_source"
  obtain cbs dis where "handle_events es = (cbs, dis)" by fastforce
  then show "loop_keeps P l (case handle_events es of (cbs, dis) \<Rightarrow>
      bindr (call_backs app r cbs l) (\<lambda>l. if dis then disable_source (rd_src r) l else Inr l))"
    by (auto intro!: loop_keeps_bindr loop_keeps_call_backs loop_keeps_disable_source)
qed

lemma keeps_drop_callbacks: "P w \<Longrightarrow> w_callbacks w = ts \<Longrightarrow> P (drop_callbacks ts w)"
proof (induction ts arbitrary: w)
  case (Cons t ts)
  then show ?case using pop_callback [of w t ts] by simp
next
  case Nil
  then have same: "w\<lparr>w_callbacks := []\<rparr> = w" by (cases w) simp
  show ?case unfolding drop_callbacks.simps same using Nil by simp
qed

lemma keeps_drain_one:
  assumes "w_tasks w = t # ts" and "drain_one app t w = Inr w'" and "P w"
  shows "P w'"
proof -
  from assms(2) obtain w1 where x: "exec_task app t w = Inr w1"
    and w': "w' = release_opt (task_holds t) (w1\<lparr>w_tasks := tl (w_tasks w1)\<rparr>)"
    by (auto simp: drain_one_def bindr_eq_Inr_iff)
  have p: "P w1" using keeps_exec_task [of w app t] x assms(3) by (simp add: keeps_def)
  have "prefix (w_tasks w) (w_tasks w1)"
    using lawful_exec_task [of w app t] x by (simp add: lawful_but_def evolves_but_def grows_def)
  then obtain zs where "w_tasks w1 = t # zs" using assms(1) by (auto simp: prefix_def)
  then show ?thesis using pop_task [OF _ p] by (simp add: w')
qed

lemma loop_keeps_phase: "loop_keeps P l r \<Longrightarrow> loop_keeps P l (bindr r (\<lambda>l. Inr (set_phase p l)))"
  by (rule loop_keeps_bindr) simp_all

lemma loop_keeps_run_step:
  assumes "lp_phase l = Dispatch [] \<Longrightarrow> P (lp_world l) \<Longrightarrow> P ((lp_world l)\<lparr>w_callbacks := w_pending (lp_world l), w_pending := []\<rparr>)"
  shows "loop_keeps P l (run_step app l)"
proof (cases "lp_phase l")
  case (Dispatch rs)
  with assms show ?thesis
    by (cases rs) (auto simp: run_step_def Let_def intro!: loop_keeps_phase loop_keeps_dispatch)
next
  case (Batch ts)
  then show ?thesis
    by (cases ts) (auto simp: run_step_def Let_def intro!: loop_keeps_phase loop_keeps_on_world keeps_exec_task)
next
  case Drain
  then show ?thesis
    by (cases "w_tasks (lp_world l)")
      (auto simp: run_step_def Let_def keeps_drop_callbacks keeps_def intro!: loop_keeps_on_world keeps_drain_one)
qed (simp_all add: run_step_def Let_def)

lemma loop_keeps_step: "(lp_phase l = Dispatch [] \<Longrightarrow> P (lp_world l) \<Longrightarrow> P ((lp_world l)\<lparr>w_callbacks := w_pending (lp_world l), w_pending := []\<rparr>)) \<Longrightarrow>
    loop_keeps P l (loop_step app x l)"
  by (cases x) (auto intro: loop_keeps_on_world keeps_exec_api loop_keeps_pull_events loop_keeps_run_step)

end

section \<open>A stopped loop stays stopped\<close>

definition stopped :: "world \<Rightarrow> bool" where
  "stopped w \<longleftrightarrow> \<not> w_running w"

lemma running_release [simp]: "w_running (release c w) = w_running w" "w_running (release_opt r w) = w_running w"
  by (simp add: release_def destroy_def Let_def split: option.splits)
    (cases r; simp add: release_def destroy_def Let_def split: option.splits)

interpretation stopped: world_invariant stopped
  by unfold_locales (simp_all add: stopped_def post_callback_def notify_event_def stop_def set_conn_def remove_connection_def)

lemma stopped_step:
  assumes "loop_step app x l = Inr l'" and "\<not> w_running (lp_world l)"
  shows "\<not> w_running (lp_world l')"
proof -
  have "loop_keeps stopped l (loop_step app x l)" by (rule stopped.loop_keeps_step) (simp add: stopped_def)
  with assms show ?thesis by (simp add: loop_keeps_def stopped_def)
qed

lemma stopped_run: "loop_run app xs l = Inr l' \<Longrightarrow> \<not> w_running (lp_world l) \<Longrightarrow> \<not> w_running (lp_world l')"
proof (induction xs arbitrary: l)
  case (Cons x xs)
  then obtain l1 where l1: "loop_step app x l = Inr l1" "loop_run app xs l1 = Inr l'" by (auto simp: bindr_eq_Inr_iff)
  from Cons.IH [OF l1(2) stopped_step [OF l1(1) Cons.prems(2)]] show ?case .
qed simp

end
