(* ===== verification/Lifetime.thy ===== *)
theory Lifetime
  imports Loop_Properties World_Invariant
begin

text \<open>
  The lifetime of connections. The invariant of \<open>Loop_State\<close> says that every pointer points to a live
  object; here is the converse, that every live object is still pointed to, so a connection is
  destroyed exactly when its last pointer goes. From it follows what \<open>~EventLoop\<close> does.
\<close>

section \<open>No connection is forgotten\<close>

text \<open>Every live connection is pointed to; \<open>connections_\<close> has one entry per descriptor.\<close>

definition kept :: "world \<Rightarrow> bool" where
  "kept w \<longleftrightarrow> distinct (map fst (w_connections w)) \<and> (\<forall>c. w_heap w c \<noteq> None \<longrightarrow> referenced c w)"

lemma kept_fields [simp]:
  "kept (w\<lparr>w_log := a\<rparr>) = kept w" "kept (w\<lparr>w_bufs := b\<rparr>) = kept w" "kept (w\<lparr>w_running := d\<rparr>) = kept w"
  "kept (w\<lparr>w_eventfd := n\<rparr>) = kept w" "kept (w\<lparr>w_events_size := n\<rparr>) = kept w" "kept (w\<lparr>w_recv := e\<rparr>) = kept w"
  "kept (w\<lparr>w_epoll := k\<rparr>) = kept w" "kept (w\<lparr>w_queued := q\<rparr>) = kept w" "kept (w\<lparr>w_wire := q\<rparr>) = kept w"
  "kept (w\<lparr>w_closed := s\<rparr>) = kept w"
  by (simp_all add: kept_def referenced_def)

lemma kept_more:
  "kept w \<Longrightarrow> w_heap w' = w_heap w \<Longrightarrow> distinct (map fst (w_connections w')) \<Longrightarrow>
    (\<And>c. referenced c w \<Longrightarrow> referenced c w') \<Longrightarrow> kept w'"
  by (auto simp: kept_def)

lemma kept_distinct: "kept w \<Longrightarrow> distinct (map fst (w_connections w))"
  by (simp add: kept_def)

lemma kept_post [simp]: "kept w \<Longrightarrow> kept (post_callback here t w)"
  by (frule kept_distinct, erule kept_more) (auto simp: post_callback_def notify_event_def referenced_def)

lemma kept_stop [simp]: "kept (stop w) = kept w"
  by (simp add: stop_def notify_event_def)

lemma kept_set_conn [simp]: "w_heap w c = Some cn \<Longrightarrow> kept (set_conn c cn' w) = kept w"
  by (auto simp: kept_def set_conn_def referenced_def)

text \<open>Dropping one pointer and releasing the object it pointed to.\<close>

lemma referenced_destroy [simp]: "referenced d (destroy c cn w) = referenced d w"
  by (simp add: referenced_def destroy_def Let_def)

lemma destroy_fields [simp]: "w_heap (destroy c cn w) = (w_heap w)(c := None)" "w_connections (destroy c cn w) = w_connections w"
  by (simp_all add: destroy_def Let_def)

lemma kept_release:
  assumes "distinct (map fst (w_connections w))" and "\<And>d. d \<noteq> c \<Longrightarrow> w_heap w d \<noteq> None \<Longrightarrow> referenced d w"
  shows "kept (release c w)"
proof (cases "w_heap w c")
  case None
  then have "d \<noteq> c" if "w_heap w d \<noteq> None" for d using that by auto
  with None assms show ?thesis by (simp add: kept_def release_def)
next
  case (Some cn)
  show ?thesis
  proof (cases "referenced c w")
    case True
    then have "referenced d w" if "w_heap w d \<noteq> None" for d using assms(2) that by (cases "d = c") auto
    with True Some assms(1) show ?thesis by (simp add: kept_def release_def)
  qed (use Some assms in \<open>simp add: kept_def release_def\<close>)
qed

lemma kept_drop:
  assumes "kept w" and "w_heap w' = w_heap w" and "distinct (map fst (w_connections w'))"
    and "\<And>d. d \<noteq> c \<Longrightarrow> referenced d w \<Longrightarrow> referenced d w'"
  shows "kept (release c w')"
  by (rule kept_release) (use assms in \<open>auto simp: kept_def\<close>)

lemma kept_drop_opt:
  assumes "kept w" and "w_heap w' = w_heap w" and "distinct (map fst (w_connections w'))"
    and "\<And>d. r \<noteq> Some d \<Longrightarrow> referenced d w \<Longrightarrow> referenced d w'"
  shows "kept (release_opt r w')"
  using assms kept_drop [of w w'] kept_more [of w w'] by (cases r) auto

lemma other_entries:
  assumes "distinct (map fst al)" and "d \<in> snd ` set al" and "map_of al fd \<noteq> Some d"
  shows "d \<in> snd ` set (AList.delete fd al)"
proof -
  from assms(2) obtain x where x: "(x, d) \<in> set al" by auto
  with assms(1,3) have "x \<noteq> fd" by (auto simp: map_of_eq_Some_iff [OF assms(1)])
  with x have "(x, d) \<in> set (AList.delete fd al)" by (auto simp: AList.delete_eq)
  then show ?thesis by (rule rev_image_eqI) simp
qed

lemma kept_remove [simp]:
  assumes "kept w"
  shows "kept (remove_connection fd w)"
  unfolding remove_connection_def
proof (rule kept_drop_opt [OF assms])
  show "referenced d (w\<lparr>w_connections := AList.delete fd (w_connections w)\<rparr>)"
    if "map_of (w_connections w) fd \<noteq> Some d" "referenced d w" for d
    using other_entries [OF kept_distinct [OF assms], of d fd] that by (auto simp: referenced_def)
qed (use kept_distinct [OF assms] in \<open>auto simp: AList.distinct_delete\<close>)

lemma kept_enter:
  assumes "kept w"
  shows "kept (release_opt (map_of (w_connections w) fd) (w\<lparr>w_connections := AList.update fd c (w_connections w)\<rparr>))"
proof (rule kept_drop_opt [OF assms])
  have "set (AList.delete fd al) \<subseteq> set (AList.update fd c al)" for al :: "(int \<times> cid) list"
    by (induction al) (auto simp: AList.delete_eq)
  then show "referenced d (w\<lparr>w_connections := AList.update fd c (w_connections w)\<rparr>)"
    if "map_of (w_connections w) fd \<noteq> Some d" "referenced d w" for d
    using other_entries [OF kept_distinct [OF assms], of d fd] that by (auto simp: referenced_def)
qed (use kept_distinct [OF assms] in \<open>simp_all add: AList.distinct_update\<close>)

lemma kept_pop_task: "w_tasks w = t # ts \<Longrightarrow> kept w \<Longrightarrow> kept (release_opt (task_holds t) (w\<lparr>w_tasks := ts\<rparr>))"
  and kept_pop_callback: "w_callbacks w = t # ts \<Longrightarrow> kept w \<Longrightarrow> kept (release_opt (task_holds t) (w\<lparr>w_callbacks := ts\<rparr>))"
  by (auto intro!: kept_drop_opt [of w] simp: referenced_def dest: kept_distinct)

lemma kept_refs:
  "kept w \<Longrightarrow> kept (w\<lparr>w_frame := c # w_frame w\<rparr>)" "kept w \<Longrightarrow> kept (w\<lparr>w_held := c # w_held w\<rparr>)"
  "kept w \<Longrightarrow> kept (release c (w\<lparr>w_frame := remove1 c (w_frame w)\<rparr>))"
  "kept w \<Longrightarrow> kept (release c (w\<lparr>w_held := remove1 c (w_held w)\<rparr>))"
  by (auto intro!: kept_more [of w] kept_drop [of w] simp: referenced_def dest: kept_distinct)

lemma kept_spawn:
  "kept w \<Longrightarrow> kept (w\<lparr>w_next := Suc (w_next w), w_heap := (w_heap w)(w_next w \<mapsto> cn), w_frame := w_next w # w_frame w\<rparr>)"
  by (auto simp: kept_def referenced_def)

interpretation kept: world_invariant kept
  by unfold_locales (simp_all add: kept_refs kept_pop_task kept_pop_callback kept_enter kept_spawn)

lemma kept_swap: "kept w \<Longrightarrow> w_callbacks w = [] \<Longrightarrow> kept (w\<lparr>w_callbacks := w_pending w, w_pending := []\<rparr>)"
  by (frule kept_distinct, erule kept_more) (auto simp: referenced_def)

lemma reachable_kept: "reachable app l \<Longrightarrow> kept (lp_world l)"
proof (induction rule: reachable.induct)
  case (create notify_fd)
  show ?case by (simp add: EventLoop_def EventLoop_members_def kept_def split: prod.splits)
next
  case (receive_buffer l n l')
  then show ?case by (auto simp: on_world_def allocate_receive_buffer_def bindr_eq_Inr_iff)
next
  case (listen l fd bind inet_ntop addr a w cbs)
  then show ?case by (auto simp: Acceptor_def Let_def bindr_eq_Inr_iff split: prod.splits)
next
  case (connect l i ct net ct' w)
  then show ?case
    using kept.keeps_handle_error [of "lp_world l" app ct]
    by (auto simp: start_connect_def Let_def keeps_def bindr_eq_Inr_iff split: prod.splits if_splits)
next
  case (step l x l')
  have "w_callbacks (lp_world l) = []" if "lp_phase l = Dispatch []"
    using reachable_loop_inv [OF step.hyps(1)] that by (simp add: loop_inv_def phase_ok_def)
  then have "loop_keeps kept l (loop_step app x l)" using kept_swap by (intro kept.loop_keeps_step) auto
  with step show ?case by (simp add: loop_keeps_def)
qed

lemma connection_entries:
  assumes wf: "world_wf w" and m: "(fd, c) \<in> set (w_connections w)"
  shows "\<exists>cn. w_heap w c = Some cn \<and> cn_fd cn = fd"
proof -
  have "c \<in> snd ` set (w_connections w)" using m by (rule rev_image_eqI) simp
  then obtain cn where "w_heap w c = Some cn" using world_wfD(1) [OF wf, of c] by (auto simp: referenced_def)
  then show ?thesis using world_wfD(4) [OF wf m] by blast
qed



section \<open>The end of the loop\<close>

text \<open>
  \<open>~EventLoop\<close>: the receive buffer goes, \<open>connections_\<close> is cleared, the notification source is deleted
  and its descriptor closed, then the epoll descriptor. The callbacks left in the two queues are
  destroyed with the members, the task queue first.
\<close>

fun clear_connections :: "(int \<times> cid) list \<Rightarrow> world \<Rightarrow> world" where
  "clear_connections [] w = w\<lparr>w_connections := []\<rparr>"
| "clear_connections ((fd, c) # xs) w = clear_connections xs (release c (w\<lparr>w_connections := xs\<rparr>))"

fun drop_tasks :: "task list \<Rightarrow> world \<Rightarrow> world" where
  "drop_tasks [] w = w\<lparr>w_tasks := []\<rparr>"
| "drop_tasks (t # ts) w = drop_tasks ts (release_opt (task_holds t) (w\<lparr>w_tasks := ts\<rparr>))"

fun drop_pending :: "task list \<Rightarrow> world \<Rightarrow> world" where
  "drop_pending [] w = w\<lparr>w_pending := []\<rparr>"
| "drop_pending (t # ts) w = drop_pending ts (release_opt (task_holds t) (w\<lparr>w_pending := ts\<rparr>))"

definition close_notify :: "loop \<Rightarrow> world \<Rightarrow> world" where
  "close_notify l w =
     (let k = snd (disable_all (lp_notify l, w_epoll w))
      in w\<lparr>w_epoll := k(es_fd (lp_notify l) := None), w_closed := w_closed w @ [es_fd (lp_notify l)]\<rparr>)"

definition EventLoop_destroy :: "loop \<Rightarrow> world" where
  "EventLoop_destroy l =
     (let w = (lp_world l)\<lparr>w_recv := None\<rparr>;
          w = clear_connections (w_connections w) w;
          w = close_notify l w;
          w = w\<lparr>w_epoll := Map.empty\<rparr>;
          w = drop_tasks (w_tasks w) w
      in drop_pending (w_pending w) w)"

text \<open>What a sequence of releases does: some connections go, and their descriptors are closed, once each.\<close>

definition gone :: "int set \<Rightarrow> world \<Rightarrow> world \<Rightarrow> bool" where
  "gone N w w' \<longleftrightarrow> (\<exists>fds. w_closed w' = w_closed w @ fds \<and> distinct fds \<and>
     set fds = N \<union> {cn_fd cn | c cn. w_heap w c = Some cn \<and> w_heap w' c = None}) \<and>
     (\<forall>c. w_heap w' c = w_heap w c \<or> w_heap w' c = None)"

definition fds_unique :: "world \<Rightarrow> bool" where
  "fds_unique w \<longleftrightarrow> (\<forall>c d cn dn. w_heap w c = Some cn \<longrightarrow> w_heap w d = Some dn \<longrightarrow> cn_fd cn = cn_fd dn \<longrightarrow> c = d)"

lemma gone_release:
  assumes g: "gone N w v" and u: "fds_unique w" and N: "\<And>fd. fd \<in> N \<Longrightarrow> unowned fd w"
  shows "gone N w (release c v)"
proof (cases "w_heap v c = None \<or> referenced c v")
  case True
  then show ?thesis using g by (auto simp: release_def split: option.splits)
next
  case False
  then obtain cn where c: "w_heap v c = Some cn" and r: "release c v = destroy c cn v" by (auto simp: release_def)
  from g obtain fds where fds: "w_closed v = w_closed w @ fds" "distinct fds"
      "set fds = N \<union> {cn_fd cn | c cn. w_heap w c = Some cn \<and> w_heap v c = None}"
    and h: "\<And>c. w_heap v c = w_heap w c \<or> w_heap v c = None" unfolding gone_def by blast
  have c0: "w_heap w c = Some cn" using h [of c] c by simp
  have other: "cn_fd dn \<noteq> cn_fd cn" if "w_heap w d = Some dn" "w_heap v d = None" for d dn
    using u [unfolded fds_unique_def, rule_format, OF that(1) c0] that(2) c by auto
  have "cn_fd cn \<notin> N" using N c0 unfolding unowned_def by fast
  then have new: "cn_fd cn \<notin> set fds" unfolding fds(3) using other by fastforce
  have "w_closed (destroy c cn v) = w_closed w @ fds @ [cn_fd cn]" by (simp add: destroy_def Let_def fds(1))
  moreover have "set (fds @ [cn_fd cn]) = N \<union> {cn_fd dn | d dn. w_heap w d = Some dn \<and> w_heap (destroy c cn v) d = None}"
  proof -
    have "w_heap (destroy c cn v) d = None \<longleftrightarrow> d = c \<or> w_heap v d = None" for d by simp
    then have "{cn_fd dn | d dn. w_heap w d = Some dn \<and> w_heap (destroy c cn v) d = None} =
        insert (cn_fd cn) {cn_fd dn | d dn. w_heap w d = Some dn \<and> w_heap v d = None}" using c0 by force
    then show ?thesis by (simp add: fds(3))
  qed
  moreover have "distinct (fds @ [cn_fd cn])" using fds(2) new by simp
  moreover have "w_heap (destroy c cn v) d = w_heap w d \<or> w_heap (destroy c cn v) d = None" for d using h by simp
  ultimately show ?thesis unfolding gone_def r by blast
qed

lemma gone_release_opt:
  assumes "gone N w v" and "fds_unique w" and "\<And>fd. fd \<in> N \<Longrightarrow> unowned fd w"
  shows "gone N w (release_opt r v)"
  using assms gone_release by (cases r) auto

lemma gone_fields [simp]:
  "gone N w (v\<lparr>w_connections := a\<rparr>) = gone N w v" "gone N w (v\<lparr>w_tasks := t\<rparr>) = gone N w v"
  "gone N w (v\<lparr>w_pending := t\<rparr>) = gone N w v" "gone N w (v\<lparr>w_epoll := k\<rparr>) = gone N w v"
  "gone N w (v\<lparr>w_recv := b\<rparr>) = gone N w v"
  by (simp_all add: gone_def)

lemma gone_close_notify:
  assumes "gone {} w v" and "unowned (es_fd (lp_notify l)) w"
  shows "gone {es_fd (lp_notify l)} w (close_notify l v)"
proof -
  from assms(1) obtain fds where fds: "w_closed v = w_closed w @ fds" "distinct fds"
    "set fds = {cn_fd cn | c cn. w_heap w c = Some cn \<and> w_heap v c = None}"
    and h: "\<forall>c. w_heap v c = w_heap w c \<or> w_heap v c = None" unfolding gone_def by auto
  have "es_fd (lp_notify l) \<notin> set fds" unfolding fds(3) using assms(2) [unfolded unowned_def] by fastforce
  then show ?thesis
    unfolding gone_def using fds h
    by (intro conjI exI [of _ "fds @ [es_fd (lp_notify l)]"]) (auto simp: close_notify_def Let_def)
qed

text \<open>The other pointers stay.\<close>

definition pointers :: "world \<Rightarrow> (int \<times> cid) list \<times> task list \<times> task list \<times> task list \<times> cid list \<times> cid list" where
  "pointers w = (w_connections w, w_tasks w, w_pending w, w_callbacks w, w_held w, w_frame w)"

lemma pointers_release [simp]: "pointers (release c w) = pointers w" "pointers (release_opt r w) = pointers w"
  by (simp add: pointers_def release_def destroy_def Let_def split: option.splits)
    (cases r; simp add: pointers_def release_def destroy_def Let_def split: option.splits)

text \<open>One pointer goes, and the object with it when it was the last.\<close>

definition ending :: "int set \<Rightarrow> world \<Rightarrow> world \<Rightarrow> bool" where
  "ending N w v \<longleftrightarrow> kept v \<and> gone N w v \<and> fds_unique w \<and> (\<forall>fd\<in>N. unowned fd w)"

lemma ending_drop:
  assumes e: "ending N w v" and v': "w_heap v' = w_heap v" "w_closed v' = w_closed v" "distinct (map fst (w_connections v'))"
    and r: "\<And>d. r \<noteq> Some d \<Longrightarrow> referenced d v \<Longrightarrow> referenced d v'"
  shows "ending N w (release_opt r v')"
proof -
  have k: "kept v" and g: "gone N w v'" and u: "fds_unique w" and N: "\<And>fd. fd \<in> N \<Longrightarrow> unowned fd w"
    using e v'(1,2) by (simp_all add: ending_def gone_def)
  from kept_drop_opt [OF k v'(1,3) r] gone_release_opt [OF g u N] u N show ?thesis by (simp add: ending_def)
qed

lemma ending_distinct: "ending N w v \<Longrightarrow> distinct (map fst (w_connections v))"
  by (simp add: ending_def kept_def)

lemma clear_connections_ending:
  "ending N w v \<Longrightarrow> w_connections v = xs \<Longrightarrow> ending N w (clear_connections xs v) \<and>
    pointers (clear_connections xs v) = pointers (v\<lparr>w_connections := []\<rparr>)"
proof (induction xs arbitrary: v)
  case (Cons x xs)
  obtain fd c where x: "x = (fd, c)" by fastforce
  have "ending N w (release_opt (Some c) (v\<lparr>w_connections := xs\<rparr>))"
    by (rule ending_drop [OF Cons.prems(1)])
      (use Cons.prems ending_distinct [OF Cons.prems(1)] in \<open>auto simp: x referenced_def\<close>)
  with Cons.IH [of "release c (v\<lparr>w_connections := xs\<rparr>)"] pointers_release(1) [of c "v\<lparr>w_connections := xs\<rparr>"]
  show ?case by (simp add: x pointers_def)
next
  case Nil
  then have same: "v\<lparr>w_connections := []\<rparr> = v" by (cases v) simp
  show ?case unfolding clear_connections.simps same using Nil by simp
qed

lemma drop_tasks_ending:
  "ending N w v \<Longrightarrow> w_tasks v = ts \<Longrightarrow> ending N w (drop_tasks ts v) \<and>
    pointers (drop_tasks ts v) = pointers (v\<lparr>w_tasks := []\<rparr>)"
proof (induction ts arbitrary: v)
  case (Cons t ts)
  have "ending N w (release_opt (task_holds t) (v\<lparr>w_tasks := ts\<rparr>))"
    by (rule ending_drop [OF Cons.prems(1)])
      (use Cons.prems ending_distinct [OF Cons.prems(1)] in \<open>auto simp: referenced_def\<close>)
  with Cons.IH [of "release_opt (task_holds t) (v\<lparr>w_tasks := ts\<rparr>)"]
    pointers_release(2) [of "task_holds t" "v\<lparr>w_tasks := ts\<rparr>"]
  show ?case by (simp add: pointers_def)
next
  case Nil
  then have same: "v\<lparr>w_tasks := []\<rparr> = v" by (cases v) simp
  show ?case unfolding drop_tasks.simps same using Nil by simp
qed

lemma drop_pending_ending:
  "ending N w v \<Longrightarrow> w_pending v = ts \<Longrightarrow> ending N w (drop_pending ts v) \<and>
    pointers (drop_pending ts v) = pointers (v\<lparr>w_pending := []\<rparr>)"
proof (induction ts arbitrary: v)
  case (Cons t ts)
  have "ending N w (release_opt (task_holds t) (v\<lparr>w_pending := ts\<rparr>))"
    by (rule ending_drop [OF Cons.prems(1)])
      (use Cons.prems ending_distinct [OF Cons.prems(1)] in \<open>auto simp: referenced_def\<close>)
  with Cons.IH [of "release_opt (task_holds t) (v\<lparr>w_pending := ts\<rparr>)"]
    pointers_release(2) [of "task_holds t" "v\<lparr>w_pending := ts\<rparr>"]
  show ?case by (simp add: pointers_def)
next
  case Nil
  then have same: "v\<lparr>w_pending := []\<rparr> = v" by (cases v) simp
  show ?case unfolding drop_pending.simps same using Nil by simp
qed

lemma loop_destroy_pointers:
  assumes r: "reachable app l"
  defines "w \<equiv> lp_world l" and "w' \<equiv> EventLoop_destroy l"
  shows "ending {es_fd (lp_notify l)} w w'" and "pointers w' = ([], [], [], w_callbacks w, w_held w, w_frame w)"
proof -
  let ?n = "es_fd (lp_notify l)"
  have wf: "world_wf w" and n: "unowned ?n w"
    using reachable_wf [OF r] by (simp_all add: w_def watch_ok_def)
  have u: "fds_unique w" unfolding fds_unique_def using world_wfD(3) [OF wf] by blast
  define v1 where "v1 = clear_connections (w_connections w) (w\<lparr>w_recv := None\<rparr>)"
  have "ending {} w (w\<lparr>w_recv := None\<rparr>)"
    using reachable_kept [OF r] u by (simp add: ending_def gone_def w_def)
  from clear_connections_ending [OF this, of "w_connections w"]
  have v1: "ending {} w v1" "pointers v1 = ([], w_tasks w, w_pending w, w_callbacks w, w_held w, w_frame w)"
    by (simp_all add: v1_def pointers_def)
  define v2 where "v2 = (close_notify l v1)\<lparr>w_epoll := Map.empty\<rparr>"
  have "kept v2 = kept v1" by (simp add: v2_def close_notify_def Let_def)
  then have v2: "ending {?n} w v2" "pointers v2 = pointers v1"
    using v1(1) gone_close_notify [of w v1 l] n
    by (simp_all add: ending_def v2_def) (simp add: pointers_def close_notify_def Let_def)
  define v3 where "v3 = drop_tasks (w_tasks v2) v2"
  from drop_tasks_ending [OF v2(1) refl] have v3: "ending {?n} w v3" "pointers v3 = pointers (v2\<lparr>w_tasks := []\<rparr>)"
    by (simp_all add: v3_def)
  have w': "w' = drop_pending (w_pending v3) v3"
    by (simp add: w'_def EventLoop_destroy_def Let_def v1_def v2_def v3_def w_def)
  from drop_pending_ending [OF v3(1) refl] v1(2) v2(2) v3
  show "ending {?n} w w'" and "pointers w' = ([], [], [], w_callbacks w, w_held w, w_frame w)"
    by (simp_all add: w' pointers_def)
qed


definition stop_labels :: "label list" where
  "stop_labels = turn 0 [accept_event 7] @ LForeign AStop # replicate 1 LStep"


end
