(* ===== verification/Tcp_Server.thy ===== *)
theory Tcp_Server
  imports Loop_Order Lifetime
begin

text \<open>
  \<^verbatim>\<open>src/TcpServer.cpp\<close>: a server with one event loop per thread. The threads, the caller of \<open>run\<close> and the
  callers of \<open>shutdown\<close> interleave; one step is one of the actions between which another thread can act.
  The loop that thread \<open>i\<close> creates is the object \<open>i\<close>.
\<close>

section \<open>State\<close>

text \<open>
  The program points of a thread (\<open>run_cb\<close>): at the start; with its loop and acceptor built; in
  \<open>loop->run()\<close>; after the block that counts down; ended. Those of \<open>run\<close>: not called; starting the
  threads; waiting on the condition variable; returned.
\<close>

datatype thread_pc = TBegin | TBuilt | TRunning | TCounted | TEnded

datatype run_pc = RNotCalled | RSpawning | RWaiting | RReturned

record tcp_server =
  ts_addr :: inet_address
  ts_num_io_threads :: int
  ts_io_loops :: "nat option list"
  ts_threads :: "thread_pc list"
  ts_callbacks :: callbacks
  ts_count_down :: int
  ts_loops :: "nat \<rightharpoonup> loop"
  ts_main :: run_pc

text \<open>\<open>count_down_\<close> has no value before \<open>run\<close> assigns it; nothing reads it before.\<close>

definition TcpServer :: "(string \<Rightarrow> u32 option) \<Rightarrow> string \<Rightarrow> int \<Rightarrow> tcp_server res" where
  "TcpServer inet_pton addr num_io_threads =
     bindr (InetAddress_parse inet_pton addr) (\<lambda>a.
     Inr \<lparr>ts_addr = a, ts_num_io_threads = num_io_threads, ts_io_loops = [], ts_threads = [],
          ts_callbacks = \<lparr>has_established = False, has_read = False, has_closed = False\<rparr>,
          ts_count_down = 0, ts_loops = Map.empty, ts_main = RNotCalled\<rparr>)"

definition ts_set_established_callback :: "bool \<Rightarrow> tcp_server \<Rightarrow> tcp_server" where
  "ts_set_established_callback b s = s\<lparr>ts_callbacks := (ts_callbacks s)\<lparr>has_established := b\<rparr>\<rparr>"

definition ts_set_read_callback :: "bool \<Rightarrow> tcp_server \<Rightarrow> tcp_server" where
  "ts_set_read_callback b s = s\<lparr>ts_callbacks := (ts_callbacks s)\<lparr>has_read := b\<rparr>\<rparr>"

definition ts_connection_closed_callback :: "bool \<Rightarrow> tcp_server \<Rightarrow> tcp_server" where
  "ts_connection_closed_callback b s = s\<lparr>ts_callbacks := (ts_callbacks s)\<lparr>has_closed := b\<rparr>\<rparr>"

section \<open>The threads\<close>

definition thread_at :: "nat \<Rightarrow> thread_pc \<Rightarrow> tcp_server \<Rightarrow> bool" where
  "thread_at i pc s \<longleftrightarrow> i < length (ts_threads s) \<and> ts_threads s ! i = pc"

definition set_thread :: "nat \<Rightarrow> thread_pc \<Rightarrow> tcp_server \<Rightarrow> tcp_server" where
  "set_thread i pc s = s\<lparr>ts_threads := (ts_threads s)[i := pc]\<rparr>"

definition set_loop :: "nat \<Rightarrow> loop \<Rightarrow> tcp_server \<Rightarrow> tcp_server" where
  "set_loop i l s = s\<lparr>ts_loops := (ts_loops s)(i \<mapsto> l)\<rparr>"

definition get_loop :: "nat \<Rightarrow> tcp_server \<Rightarrow> loop res" where
  "get_loop i s = (case ts_loops s i of None \<Rightarrow> Inl UseAfterFree | Some l \<Rightarrow> Inr l)"

text \<open>
  The start of \<open>run_cb\<close>: the loop, its receive buffer of 64 KiB, the acceptor and its callback. An
  exception that leaves the thread function ends the program. The kernel gives the notification
  descriptor and the listening socket.
\<close>

definition build_loop :: "bind_call \<Rightarrow> (u32 \<Rightarrow> string) \<Rightarrow> int \<Rightarrow> int \<Rightarrow> inet_address \<Rightarrow> callbacks \<Rightarrow> loop res" where
  "build_loop bind inet_ntop notify_fd sock addr cbs =
     bindr (on_world (allocate_receive_buffer (64 * 1024)) (EventLoop notify_fd)) (\<lambda>l.
     bindr (Acceptor bind inet_ntop sock addr (lp_world l)) (\<lambda>(a, w).
     Inr (l\<lparr>lp_acceptor := Some (new_connection_callback cbs a), lp_world := w\<rparr>)))"

definition thread_build :: "bind_call \<Rightarrow> (u32 \<Rightarrow> string) \<Rightarrow> int \<Rightarrow> int \<Rightarrow> nat \<Rightarrow> tcp_server \<Rightarrow> tcp_server res" where
  "thread_build bind inet_ntop notify_fd sock i s =
     bindr (build_loop bind inet_ntop notify_fd sock (ts_addr s) (ts_callbacks s)) (\<lambda>l.
     Inr (set_thread i TBuilt (set_loop i l s)))"

text \<open>\<open>io_loops_[index] = loop\<close>; the index is in range.\<close>

definition thread_store :: "nat \<Rightarrow> tcp_server \<Rightarrow> tcp_server" where
  "thread_store i s = set_thread i TRunning (s\<lparr>ts_io_loops := (ts_io_loops s)[i := Some i]\<rparr>)"

definition thread_loop :: "app \<Rightarrow> label \<Rightarrow> nat \<Rightarrow> tcp_server \<Rightarrow> tcp_server res" where
  "thread_loop app x i s =
     bindr (get_loop i s) (\<lambda>l. bindr (loop_step app x l) (\<lambda>l. Inr (set_loop i l s)))"

text \<open>After \<open>loop->run()\<close>: the block under the mutex, then the destructor of the acceptor.\<close>

definition thread_count :: "nat \<Rightarrow> tcp_server \<Rightarrow> tcp_server res" where
  "thread_count i s =
     bindr (get_loop i s) (\<lambda>l.
     if lp_phase l = Exit then Inr (set_thread i TCounted (s\<lparr>ts_count_down := ts_count_down s - 1\<rparr>)) else Inr s)"

definition thread_end :: "nat \<Rightarrow> tcp_server \<Rightarrow> tcp_server res" where
  "thread_end i s =
     bindr (get_loop i s) (\<lambda>l.
     case lp_acceptor l of
       None \<Rightarrow> Inl UseAfterFree
     | Some a \<Rightarrow> Inr (set_thread i TEnded
         (set_loop i (l\<lparr>lp_acceptor := None, lp_world := acceptor_destroy a (lp_world l)\<rparr>) s)))"

section \<open>The caller of \<open>run\<close>\<close>

text \<open>A negative number of threads is a huge size for \<open>resize\<close>, which throws.\<close>

definition run_begin :: "tcp_server \<Rightarrow> tcp_server res" where
  "run_begin s =
     (if ts_num_io_threads s < 0 then Inl (Thrown ''vector::_M_fill_insert'')
      else Inr (s\<lparr>ts_io_loops := replicate (nat (ts_num_io_threads s)) None,
                  ts_count_down := ts_num_io_threads s, ts_main := RSpawning\<rparr>))"

definition run_spawn :: "tcp_server \<Rightarrow> tcp_server" where
  "run_spawn s =
     (if int (length (ts_threads s)) < ts_num_io_threads s then s\<lparr>ts_threads := ts_threads s @ [TBegin]\<rparr>
      else s\<lparr>ts_main := RWaiting\<rparr>)"

definition run_wait :: "tcp_server \<Rightarrow> tcp_server" where
  "run_wait s = (if ts_count_down s > 0 then s else s\<lparr>ts_main := RReturned\<rparr>)"

section \<open>Shutdown\<close>

fun stop_loop :: "nat option \<Rightarrow> tcp_server \<Rightarrow> tcp_server res" where
  "stop_loop None s = Inl NullDeref"
| "stop_loop (Some i) s = bindr (get_loop i s) (\<lambda>l. Inr (set_loop i (l\<lparr>lp_world := stop (lp_world l)\<rparr>) s))"

fun stop_loops :: "nat option list \<Rightarrow> tcp_server \<Rightarrow> tcp_server res" where
  "stop_loops [] s = Inr s"
| "stop_loops (p # ps) s = bindr (stop_loop p s) (stop_loops ps)"

definition shutdown :: "tcp_server \<Rightarrow> tcp_server res" where
  "shutdown s = stop_loops (ts_io_loops s) s"

section \<open>The destructor\<close>

text \<open>
  \<open>delete\<close> of a null pointer does nothing. The result lists what \<open>~EventLoop\<close> leaves of each deleted loop.
  The joins block (\<open>None\<close>) until every thread has ended.
\<close>

fun delete_loops :: "nat option list \<Rightarrow> tcp_server \<Rightarrow> (world list \<times> tcp_server) res" where
  "delete_loops [] s = Inr ([], s)"
| "delete_loops (None # ps) s = delete_loops ps s"
| "delete_loops (Some i # ps) s =
     bindr (get_loop i s) (\<lambda>l.
     bindr (delete_loops ps (s\<lparr>ts_loops := (ts_loops s)(i := None)\<rparr>)) (\<lambda>(ws, s).
     Inr (EventLoop_destroy l # ws, s)))"

definition TcpServer_destroy :: "tcp_server \<Rightarrow> (world list \<times> tcp_server) res option" where
  "TcpServer_destroy s =
     (if list_all (\<lambda>pc. pc = TEnded) (ts_threads s) then Some (delete_loops (ts_io_loops s) s) else None)"

section \<open>The machine\<close>

text \<open>
  \<open>SStop k\<close> is one iteration of a call of \<open>shutdown\<close>, so the iterations of a call interleave with
  everything else. An action whose program point is not the thread's is no step.
\<close>

datatype server_label =
    SRun | SSpawn | SWait | SBuild nat int int | SStore nat | SLoop nat label | SCount nat | SEnd nat | SStop nat

fun server_step :: "app \<Rightarrow> bind_call \<Rightarrow> (u32 \<Rightarrow> string) \<Rightarrow> server_label \<Rightarrow> tcp_server \<Rightarrow> tcp_server res" where
  "server_step app bind inet_ntop SRun s = (if ts_main s = RNotCalled then run_begin s else Inr s)"
| "server_step app bind inet_ntop SSpawn s = Inr (if ts_main s = RSpawning then run_spawn s else s)"
| "server_step app bind inet_ntop SWait s = Inr (if ts_main s = RWaiting then run_wait s else s)"
| "server_step app bind inet_ntop (SBuild i notify_fd sock) s =
     (if thread_at i TBegin s then thread_build bind inet_ntop notify_fd sock i s else Inr s)"
| "server_step app bind inet_ntop (SStore i) s = Inr (if thread_at i TBuilt s then thread_store i s else s)"
| "server_step app bind inet_ntop (SLoop i x) s =
     (if thread_at i TRunning s \<or> thread_at i TCounted s then thread_loop app x i s else Inr s)"
| "server_step app bind inet_ntop (SCount i) s = (if thread_at i TRunning s then thread_count i s else Inr s)"
| "server_step app bind inet_ntop (SEnd i) s = (if thread_at i TCounted s then thread_end i s else Inr s)"
| "server_step app bind inet_ntop (SStop k) s =
     (if k < length (ts_io_loops s) then stop_loop (ts_io_loops s ! k) s else Inr s)"

text \<open>The kernel's descriptors are valid and different; the conditions of the loops' own steps.\<close>

definition server_label_ok :: "server_label \<Rightarrow> tcp_server \<Rightarrow> bool" where
  "server_label_ok x s \<longleftrightarrow> (case x of
       SBuild i notify_fd sock \<Rightarrow> 0 \<le> notify_fd \<and> 0 \<le> sock \<and> notify_fd \<noteq> sock
     | SLoop i y \<Rightarrow> thread_at i TRunning s \<or> thread_at i TCounted s \<longrightarrow>
         (case ts_loops s i of None \<Rightarrow> True | Some l \<Rightarrow> label_ok y l)
     | _ \<Rightarrow> True)"

definition server_quota :: "tcp_server \<Rightarrow> bool" where
  "server_quota s \<longleftrightarrow> (\<forall>i l. ts_loops s i = Some l \<longrightarrow> within_quota (lp_world l))"

inductive server_reachable :: "app \<Rightarrow> bind_call \<Rightarrow> (u32 \<Rightarrow> string) \<Rightarrow> tcp_server \<Rightarrow> bool"
  for app bind inet_ntop where
  create: "TcpServer inet_pton addr n = Inr s \<Longrightarrow> server_reachable app bind inet_ntop s"
| configure: "server_reachable app bind inet_ntop s \<Longrightarrow> ts_main s = RNotCalled \<Longrightarrow>
    s' \<in> {ts_set_established_callback b s, ts_set_read_callback b s, ts_connection_closed_callback b s} \<Longrightarrow>
    server_reachable app bind inet_ntop s'"
| step: "server_reachable app bind inet_ntop s \<Longrightarrow> server_label_ok x s \<Longrightarrow>
    server_step app bind inet_ntop x s = Inr s' \<Longrightarrow> server_quota s' \<Longrightarrow> server_reachable app bind inet_ntop s'"

section \<open>The invariant\<close>

definition finished :: "thread_pc \<Rightarrow> bool" where
  "finished pc \<longleftrightarrow> pc = TCounted \<or> pc = TEnded"

abbreviation finished_threads :: "tcp_server \<Rightarrow> nat" where
  "finished_threads s \<equiv> length (filter finished (ts_threads s))"

text \<open>What the program point of thread \<open>i\<close> says about its loop and its entry in \<open>io_loops_\<close>.\<close>

definition thread_inv :: "app \<Rightarrow> tcp_server \<Rightarrow> nat \<Rightarrow> bool" where
  "thread_inv app s i \<longleftrightarrow> (let pc = ts_threads s ! i in
     (pc = TBegin \<longrightarrow> ts_loops s i = None) \<and>
     (pc \<in> {TBegin, TBuilt} \<longrightarrow> ts_io_loops s ! i = None) \<and>
     (pc \<notin> {TBegin, TBuilt} \<longrightarrow> ts_io_loops s ! i = Some i) \<and>
     (pc \<noteq> TBegin \<longrightarrow> (\<exists>l. ts_loops s i = Some l \<and> (pc \<noteq> TEnded \<longrightarrow> reachable app l) \<and>
        (finished pc \<longrightarrow> lp_phase l = Exit))))"

definition run_inv :: "tcp_server \<Rightarrow> bool" where
  "run_inv s \<longleftrightarrow> (if ts_main s = RNotCalled then ts_threads s = [] \<and> ts_io_loops s = []
     else 0 \<le> ts_num_io_threads s \<and> length (ts_io_loops s) = nat (ts_num_io_threads s) \<and>
       length (ts_threads s) \<le> length (ts_io_loops s) \<and>
       ts_count_down s = ts_num_io_threads s - int (finished_threads s) \<and>
       (ts_main s \<noteq> RSpawning \<longrightarrow> length (ts_threads s) = length (ts_io_loops s)) \<and>
       (ts_main s = RReturned \<longrightarrow> ts_count_down s \<le> 0))"

definition server_inv :: "app \<Rightarrow> tcp_server \<Rightarrow> bool" where
  "server_inv app s \<longleftrightarrow> run_inv s \<and> (\<forall>i<length (ts_threads s). thread_inv app s i) \<and>
     (\<forall>i\<ge>length (ts_threads s). ts_loops s i = None \<and> (i < length (ts_io_loops s) \<longrightarrow> ts_io_loops s ! i = None))"

lemma server_invD:
  assumes "server_inv app s"
  shows "run_inv s" and "i < length (ts_threads s) \<Longrightarrow> thread_inv app s i"
    and "length (ts_threads s) \<le> i \<Longrightarrow> ts_loops s i = None"
    and "length (ts_threads s) \<le> i \<Longrightarrow> i < length (ts_io_loops s) \<Longrightarrow> ts_io_loops s ! i = None"
  using assms by (simp_all add: server_inv_def)

lemma thread_loopE:
  assumes "server_inv app s" and "i < length (ts_threads s)" and "ts_threads s ! i \<noteq> TBegin"
  obtains l where "ts_loops s i = Some l" and "ts_threads s ! i \<noteq> TEnded \<Longrightarrow> reachable app l"
    and "finished (ts_threads s ! i) \<Longrightarrow> lp_phase l = Exit"
  using server_invD(2) [OF assms(1,2)] assms(3) by (auto simp: thread_inv_def Let_def)

text \<open>A step of thread \<open>i\<close> changes its program point, its loop and its entry only.\<close>

lemma server_inv_thread:
  assumes inv: "server_inv app s" and i: "i < length (ts_threads s)"
    and run: "run_inv s'" and th: "thread_inv app s' i"
    and eq: "length (ts_threads s') = length (ts_threads s)" "length (ts_io_loops s') = length (ts_io_loops s)"
      "\<And>j. j \<noteq> i \<Longrightarrow> ts_threads s' ! j = ts_threads s ! j" "\<And>j. j \<noteq> i \<Longrightarrow> ts_loops s' j = ts_loops s j"
      "\<And>j. j \<noteq> i \<Longrightarrow> ts_io_loops s' ! j = ts_io_loops s ! j"
  shows "server_inv app s'"
proof -
  have "thread_inv app s' j" if "j < length (ts_threads s)" for j
    using th server_invD(2) [OF inv that] eq by (cases "j = i") (simp_all add: thread_inv_def Let_def)
  moreover have "ts_loops s' j = None \<and> (j < length (ts_io_loops s) \<longrightarrow> ts_io_loops s' ! j = None)"
    if "length (ts_threads s) \<le> j" for j
    using server_invD(3,4) [OF inv, of j] i that eq(4,5) by auto
  ultimately show ?thesis using run eq by (simp add: server_inv_def)
qed

lemma reachable_build:
  assumes "0 \<le> notify_fd" and "0 \<le> sock" and "notify_fd \<noteq> sock"
    and "build_loop bind inet_ntop notify_fd sock addr cbs = Inr l"
  shows "reachable app l"
  using assms(4) reachable_setup [OF assms(1-3)] by (auto simp: build_loop_def bindr_eq_Inr_iff)

lemma loop_step_exit:
  assumes "loop_step app x l = Inr l'" and "lp_phase l = Exit"
  shows "lp_phase l' = Exit"
  using assms by (cases x) (auto simp: on_world_def bindr_eq_Inr_iff run_step_def Let_def)

text \<open>The steps of the threads.\<close>

lemma run_inv_same:
  assumes "run_inv s" and "ts_main s' = ts_main s" "ts_num_io_threads s' = ts_num_io_threads s"
    "length (ts_io_loops s') = length (ts_io_loops s)" "length (ts_threads s') = length (ts_threads s)"
    "int (finished_threads s') + ts_count_down s' = int (finished_threads s) + ts_count_down s" "ts_count_down s' \<le> ts_count_down s"
  shows "run_inv s'"
  using assms by (auto simp: run_inv_def)

lemma inv_build:
  assumes inv: "server_inv app s" and t: "thread_at i TBegin s" and ok: "server_label_ok (SBuild i notify_fd sock) s"
    and r: "thread_build bind inet_ntop notify_fd sock i s = Inr s'"
  shows "server_inv app s'"
proof -
  from r obtain l where l: "build_loop bind inet_ntop notify_fd sock (ts_addr s) (ts_callbacks s) = Inr l"
    and s': "s' = set_thread i TBuilt (set_loop i l s)" by (auto simp: thread_build_def bindr_eq_Inr_iff)
  have i: "i < length (ts_threads s)" "ts_threads s ! i = TBegin" using t by (simp_all add: thread_at_def)
  have "reachable app l" using reachable_build [OF _ _ _ l] ok by (simp add: server_label_ok_def)
  then have "thread_inv app s' i"
    using server_invD(2) [OF inv i(1)] i by (simp add: s' thread_inv_def Let_def set_thread_def set_loop_def finished_def)
  moreover have "run_inv s'"
    using length_filter_update [OF i(1), of finished TBuilt] i(2) server_invD(1) [OF inv]
    by (auto simp: s' set_thread_def set_loop_def finished_def intro!: run_inv_same [of s])
  ultimately show ?thesis by (intro server_inv_thread [OF inv i(1)]) (simp_all add: s' set_thread_def set_loop_def)
qed

lemma inv_store:
  assumes inv: "server_inv app s" and t: "thread_at i TBuilt s"
  shows "server_inv app (thread_store i s)"
proof -
  have i: "i < length (ts_threads s)" "ts_threads s ! i = TBuilt" using t by (simp_all add: thread_at_def)
  have "i < length (ts_io_loops s)" using server_invD(1) [OF inv] i(1) by (auto simp: run_inv_def split: if_splits)
  then have "thread_inv app (thread_store i s) i"
    using server_invD(2) [OF inv i(1)] i by (simp add: thread_inv_def Let_def thread_store_def set_thread_def finished_def)
  moreover have "run_inv (thread_store i s)"
    using length_filter_update [OF i(1), of finished TRunning] i(2) server_invD(1) [OF inv]
    by (auto simp: thread_store_def set_thread_def finished_def intro!: run_inv_same [of s])
  ultimately show ?thesis by (intro server_inv_thread [OF inv i(1)]) (simp_all add: thread_store_def set_thread_def)
qed

lemma server_quota_loop: "server_quota (set_loop i l s) \<Longrightarrow> within_quota (lp_world l)"
  unfolding server_quota_def set_loop_def by (drule spec [of _ i]) simp

text \<open>A loop changes while its thread stays where it is.\<close>

lemma inv_set_loop:
  assumes inv: "server_inv app s" and l: "ts_loops s i = Some l" and r: "reachable app l \<Longrightarrow> reachable app l'"
    and p: "lp_phase l = Exit \<Longrightarrow> lp_phase l' = Exit"
  shows "server_inv app (set_loop i l' s)"
proof -
  have i: "i < length (ts_threads s)" using server_invD(3) [OF inv, of i] l by (cases "i < length (ts_threads s)") auto
  have "thread_inv app (set_loop i l' s) i"
    using server_invD(2) [OF inv i] l r p by (auto simp: thread_inv_def Let_def set_loop_def)
  moreover have "run_inv (set_loop i l' s)" by (rule run_inv_same [OF server_invD(1) [OF inv]]) (simp_all add: set_loop_def)
  ultimately show ?thesis by (intro server_inv_thread [OF inv i]) (simp_all add: set_loop_def)
qed

lemma inv_loop:
  assumes inv: "server_inv app s" and t: "thread_at i TRunning s \<or> thread_at i TCounted s"
    and ok: "server_label_ok (SLoop i x) s" and r: "thread_loop app x i s = Inr s'"
    and q: "server_quota s'"
  shows "server_inv app s'"
proof -
  from r obtain l l' where l: "ts_loops s i = Some l" "loop_step app x l = Inr l'" and s': "s' = set_loop i l' s"
    by (auto simp: thread_loop_def get_loop_def bindr_eq_Inr_iff split: option.splits)
  have "within_quota (lp_world l')" using server_quota_loop [OF q [unfolded s']] by simp
  then have "reachable app l \<Longrightarrow> reachable app l'"
    using reachable.step [of app l x l'] ok t l by (simp add: server_label_ok_def)
  then show ?thesis unfolding s' using loop_step_exit [OF l(2)] by (rule inv_set_loop [OF inv l(1)])
qed

lemma inv_stop:
  assumes inv: "server_inv app s" and r: "stop_loop p s = Inr s'" and q: "server_quota s'"
  shows "server_inv app s'"
proof -
  from r obtain i l where l: "ts_loops s i = Some l" and s': "s' = set_loop i (l\<lparr>lp_world := stop (lp_world l)\<rparr>) s"
    by (cases p) (auto simp: get_loop_def split: option.splits)
  have "within_quota (stop (lp_world l))" using server_quota_loop [OF q [unfolded s']] by simp
  then have "reachable app l \<Longrightarrow> reachable app (l\<lparr>lp_world := stop (lp_world l)\<rparr>)"
    by (rule_tac reachable.step [where x = "LForeign AStop"]) (auto simp: label_ok_def on_world_def)
  then show ?thesis unfolding s' by (rule inv_set_loop [OF inv l]) simp_all
qed

lemma inv_count:
  assumes inv: "server_inv app s" and t: "thread_at i TRunning s" and r: "thread_count i s = Inr s'"
  shows "server_inv app s'"
proof -
  have i: "i < length (ts_threads s)" "ts_threads s ! i = TRunning" using t by (simp_all add: thread_at_def)
  from r obtain l where l: "ts_loops s i = Some l"
    and s': "s' = (if lp_phase l = Exit then set_thread i TCounted (s\<lparr>ts_count_down := ts_count_down s - 1\<rparr>) else s)"
    by (auto simp: thread_count_def get_loop_def split: option.splits if_splits)
  show ?thesis
  proof (cases "lp_phase l = Exit")
    case True
    then have "thread_inv app s' i"
      using server_invD(2) [OF inv i(1)] i l by (auto simp: s' thread_inv_def Let_def set_thread_def)
    moreover have "run_inv s'"
      using length_filter_update [OF i(1), of finished TCounted] i(2) True
      by (intro run_inv_same [OF server_invD(1) [OF inv]]) (simp_all add: s' set_thread_def finished_def)
    ultimately show ?thesis using True by (intro server_inv_thread [OF inv i(1)]) (simp_all add: s' set_thread_def)
  qed (use inv in \<open>simp add: s'\<close>)
qed

lemma inv_end:
  assumes inv: "server_inv app s" and t: "thread_at i TCounted s" and r: "thread_end i s = Inr s'"
  shows "server_inv app s'"
proof -
  have i: "i < length (ts_threads s)" "ts_threads s ! i = TCounted" using t by (simp_all add: thread_at_def)
  from r obtain l a where l: "ts_loops s i = Some l" "lp_acceptor l = Some a"
    and s': "s' = set_thread i TEnded
      (set_loop i (l\<lparr>lp_acceptor := None, lp_world := acceptor_destroy a (lp_world l)\<rparr>) s)"
    by (auto simp: thread_end_def get_loop_def split: option.splits)
  have "thread_inv app s' i"
    using server_invD(2) [OF inv i(1)] i l by (auto simp: s' thread_inv_def Let_def set_thread_def set_loop_def finished_def)
  moreover have "run_inv s'"
    using length_filter_update [OF i(1), of finished TEnded] i(2)
    by (intro run_inv_same [OF server_invD(1) [OF inv]]) (simp_all add: s' set_thread_def set_loop_def finished_def)
  ultimately show ?thesis by (intro server_inv_thread [OF inv i(1)]) (simp_all add: s' set_thread_def set_loop_def)
qed

text \<open>The steps of the caller of \<open>run\<close>.\<close>

lemma inv_main:
  assumes inv: "server_inv app s"
  shows "ts_main s = RNotCalled \<Longrightarrow> run_begin s = Inr s' \<Longrightarrow> server_inv app s'"
    and "ts_main s = RSpawning \<Longrightarrow> server_inv app (run_spawn s)"
    and "ts_main s = RWaiting \<Longrightarrow> server_inv app (run_wait s)"
proof -
  note D = server_invD [OF inv]
  show "server_inv app s'" if "ts_main s = RNotCalled" "run_begin s = Inr s'"
    using that D(1,3) by (auto simp: run_begin_def server_inv_def run_inv_def split: if_splits)
  show "server_inv app (run_wait s)" if "ts_main s = RWaiting"
    using that inv by (auto simp: run_wait_def server_inv_def run_inv_def thread_inv_def)
  show "server_inv app (run_spawn s)" if m: "ts_main s = RSpawning"
  proof (cases "int (length (ts_threads s)) < ts_num_io_threads s")
    case True
    let ?s = "s\<lparr>ts_threads := ts_threads s @ [TBegin]\<rparr>" and ?n = "length (ts_threads s)"
    have n: "?n < length (ts_io_loops s)" using True D(1) m by (auto simp: run_inv_def)
    have "run_inv ?s" using D(1) m True by (auto simp: run_inv_def finished_def)
    moreover have "thread_inv app ?s i" if "i < length (ts_threads ?s)" for i
      using that D(2) [of i] D(3,4) [of ?n] n
      by (cases "i = ?n") (auto simp: thread_inv_def nth_append finished_def)
    ultimately have "server_inv app ?s" using D(3,4) by (simp add: server_inv_def)
    then show ?thesis using True by (simp add: run_spawn_def)
  next
    case False
    then have "?thesis = server_inv app (s\<lparr>ts_main := RWaiting\<rparr>)" by (simp add: run_spawn_def)
    also have "\<dots>" using inv m False by (auto simp: server_inv_def run_inv_def thread_inv_def)
    finally show ?thesis by simp
  qed
qed

lemma inv_step:
  assumes "server_inv app s" and "server_label_ok x s" and "server_step app bind inet_ntop x s = Inr s'" and "server_quota s'"
  shows "server_inv app s'"
  using assms
  by (cases x) (auto split: if_splits intro: inv_main inv_build inv_store inv_loop inv_count inv_end inv_stop)

lemma reachable_server_inv: "server_reachable app bind inet_ntop s \<Longrightarrow> server_inv app s"
proof (induction rule: server_reachable.induct)
  case (create inet_pton addr n s)
  then show ?case by (auto simp: TcpServer_def bindr_eq_Inr_iff server_inv_def run_inv_def)
next
  case (configure s s' b)
  then show ?case
    by (auto simp: server_inv_def run_inv_def ts_set_established_callback_def ts_set_read_callback_def
        ts_connection_closed_callback_def)
next
  case (step s x s')
  then show ?case by (blast intro: inv_step)
qed

section \<open>Runs that can be evaluated\<close>

definition server_label_ok_c :: "server_label \<Rightarrow> tcp_server \<Rightarrow> bool" where
  "server_label_ok_c x s \<longleftrightarrow> (case x of
       SBuild i notify_fd sock \<Rightarrow> 0 \<le> notify_fd \<and> 0 \<le> sock \<and> notify_fd \<noteq> sock
     | SLoop i y \<Rightarrow> (case ts_loops s i of None \<Rightarrow> True | Some l \<Rightarrow> label_ok_c y l)
     | _ \<Rightarrow> True)"

definition server_quota_c :: "tcp_server \<Rightarrow> bool" where
  "server_quota_c s \<longleftrightarrow>
     list_all (\<lambda>i. case ts_loops s i of None \<Rightarrow> True | Some l \<Rightarrow> quota_c (lp_world l)) [0..<length (ts_threads s)]"

fun server_run :: "app \<Rightarrow> server_label list \<Rightarrow> tcp_server \<Rightarrow> tcp_server res" where
  "server_run app [] s = Inr s"
| "server_run app (x # xs) s =
     (if server_label_ok_c x s
      then bindr (server_step app (\<lambda>_ _. 0) (\<lambda>_. []) x s) (\<lambda>s'.
           if server_quota_c s' then server_run app xs s' else Inl (Undefined ''quota''))
      else Inl (Undefined ''label''))"

abbreviation reachable_server :: "app \<Rightarrow> tcp_server \<Rightarrow> bool" where
  "reachable_server app \<equiv> server_reachable app (\<lambda>_ _. 0) (\<lambda>_. [])"

lemma server_label_ok_c:
  assumes inv: "server_inv app s" and ok: "server_label_ok_c x s"
  shows "server_label_ok x s"
proof (cases x)
  case (SLoop i y)
  have "label_ok y l" if t: "thread_at i TRunning s \<or> thread_at i TCounted s" and l: "ts_loops s i = Some l" for l
  proof -
    have "i < length (ts_threads s)" "ts_threads s ! i \<noteq> TEnded" "ts_threads s ! i \<noteq> TBegin"
      using t by (auto simp: thread_at_def)
    then have "reachable app l" using l by (auto elim: thread_loopE [OF inv])
    then have "base_inv l" using reachable_loop_inv by (simp add: loop_inv_def)
    then show ?thesis using ok l by (simp add: SLoop server_label_ok_c_def label_ok_c)
  qed
  then show ?thesis by (simp add: SLoop server_label_ok_def split: option.splits)
qed (use ok in \<open>simp_all add: server_label_ok_c_def server_label_ok_def\<close>)

text \<open>The number of threads does not shrink, so the loops of a run are among those of its threads.\<close>

lemma server_quota_c:
  assumes "server_quota_c s" and "\<And>i. length (ts_threads s) \<le> i \<Longrightarrow> ts_loops s i = None"
  shows "server_quota s"
  unfolding server_quota_def
proof (intro allI impI)
  fix i l assume l: "ts_loops s i = Some l"
  then have "i < length (ts_threads s)" using assms(2) [of i] by (cases "i < length (ts_threads s)") auto
  with assms(1) l show "within_quota (lp_world l)" by (auto simp: server_quota_c_def list_all_iff dest!: bspec [of _ _ i] intro: quota_c)
qed

lemma server_step_loops:
  assumes "server_inv app s" and "server_step app bind inet_ntop x s = Inr s'" and "length (ts_threads s') \<le> i"
  shows "ts_loops s' i = None"
proof -
  have u: "length (ts_threads s) \<le> j \<Longrightarrow> ts_loops s j = None" for j using server_invD(3) [OF assms(1)] .
  have o: "j < length (ts_threads s)" if "ts_loops s j = Some l" for j l
    using that u [of j] by (cases "j < length (ts_threads s)") auto
  show ?thesis
  proof (cases x)
    case (SStop k)
    with assms(2,3) u o show ?thesis
      by (cases "ts_io_loops s ! k") (auto simp: get_loop_def set_loop_def split: if_splits option.splits)
  qed (use assms(2,3) u o in \<open>auto simp: run_begin_def run_spawn_def run_wait_def thread_build_def thread_store_def
      thread_loop_def thread_count_def thread_end_def set_thread_def set_loop_def get_loop_def thread_at_def
      bindr_eq_Inr_iff split: if_splits option.splits\<close>)
qed

lemma reachable_server_run:
  "reachable_server app s \<Longrightarrow> server_run app xs s = Inr s' \<Longrightarrow> reachable_server app s'"
proof (induction xs arbitrary: s)
  case (Cons x xs)
  from Cons.prems(2) obtain s1 where ok: "server_label_ok_c x s" and s1: "server_step app (\<lambda>_ _. 0) (\<lambda>_. []) x s = Inr s1"
    "server_quota_c s1" "server_run app xs s1 = Inr s'"
    by (auto simp: bindr_eq_Inr_iff split: if_splits)
  note inv = reachable_server_inv [OF Cons.prems(1)]
  have "server_quota s1" by (rule server_quota_c [OF s1(2)]) (rule server_step_loops [OF inv s1(1)])
  with Cons.prems(1) server_label_ok_c [OF inv ok] s1(1) have "reachable_server app s1" by (rule server_reachable.step)
  then show ?case using Cons.IH s1(3) by blast
qed simp

text \<open>A server with one thread whose loop is up. The 64 KiB of its receive buffer are not evaluated.\<close>

lemma build_loop_up:
  "\<exists>l. build_loop (\<lambda>_ _. 0) inet_ntop 3 4 addr cbs = Inr l \<and> lp_phase l = Test \<and> quota_c (lp_world l) \<and>
    lp_acceptor l \<noteq> None"
proof -
  have "sint (64 * 1024 :: u32) = 65536" by simp
  moreover from ByteBuffer_ok [of 65536] obtain b where "ByteBuffer 65536 = Inr b" by auto
  ultimately have b: "ByteBuffer (sint (64 * 1024 :: u32)) = Inr b" by simp
  show ?thesis
    unfolding build_loop_def on_world_def allocate_receive_buffer_def b
    by (auto simp: Acceptor_def ss_bind_def Let_def EventLoop_def EventLoop_members_def quota_c_def split: prod.splits)
qed

definition up_labels :: "server_label list" where
  "up_labels = [SRun, SSpawn, SSpawn, SBuild 0 3 4, SStore 0]"

lemma server_up:
  "\<exists>s l. reachable_server app s \<and> ts_threads s = [TRunning] \<and> ts_io_loops s = [Some 0] \<and> ts_main s = RWaiting \<and>
    ts_count_down s = 1 \<and> ts_loops s 0 = Some l \<and> lp_phase l = Test \<and> quota_c (lp_world l) \<and> lp_acceptor l \<noteq> None"
proof -
  have "holds (\<lambda>s. True) (TcpServer dotted_pton ''127.0.0.1:80'' 1)" by code_simp
  then obtain s0 where s0: "TcpServer dotted_pton ''127.0.0.1:80'' 1 = Inr s0" by (auto elim: holdsE)
  then have f: "ts_num_io_threads s0 = 1" "ts_threads s0 = []" "ts_main s0 = RNotCalled" "ts_loops s0 = Map.empty"
    by (auto simp: TcpServer_def bindr_eq_Inr_iff)
  from build_loop_up [of "\<lambda>_. []" "ts_addr s0" "ts_callbacks s0"] obtain l where
    l: "build_loop (\<lambda>_ _. 0) (\<lambda>_. []) 3 4 (ts_addr s0) (ts_callbacks s0) = Inr l" "lp_phase l = Test" "quota_c (lp_world l)"
    "lp_acceptor l \<noteq> None" by blast
  have "\<exists>s. server_run app up_labels s0 = Inr s \<and> ts_threads s = [TRunning] \<and> ts_io_loops s = [Some 0] \<and> ts_main s = RWaiting \<and>
      ts_count_down s = 1 \<and> ts_loops s 0 = Some l"
    using l f by (simp add: up_labels_def server_label_ok_c_def server_quota_c_def run_begin_def run_spawn_def thread_at_def
        thread_build_def thread_store_def set_thread_def set_loop_def)
  with l(2-4) reachable_server_run [OF server_reachable.create [OF s0]] show ?thesis by blast
qed

section \<open>Properties\<close>



lemma all_finished: "length (filter finished ts) = length ts \<longleftrightarrow> (\<forall>pc\<in>set ts. finished pc)"
  by (metis filter_True length_filter_less less_irrefl)

lemma waiting_count:
  assumes "server_inv app s" and "ts_main s \<notin> {RNotCalled, RSpawning}"
  shows "ts_count_down s \<le> 0 \<longleftrightarrow> (\<forall>pc\<in>set (ts_threads s). finished pc)"
    and "int (length (ts_threads s)) = ts_num_io_threads s"
proof -
  have r: "ts_count_down s = int (length (ts_threads s)) - int (finished_threads s)"
    and n: "int (length (ts_threads s)) = ts_num_io_threads s"
    using server_invD(1) [OF assms(1)] assms(2) by (auto simp: run_inv_def split: if_splits)
  show "int (length (ts_threads s)) = ts_num_io_threads s" by (rule n)
  have "ts_count_down s \<le> 0 \<longleftrightarrow> finished_threads s = length (ts_threads s)"
    using length_filter_le [of finished "ts_threads s"] unfolding r by linarith
  then show "ts_count_down s \<le> 0 \<longleftrightarrow> (\<forall>pc\<in>set (ts_threads s). finished pc)" by (simp only: all_finished)
qed

text \<open>
  C9: \<open>run\<close> returns exactly when all loops have been left. While it waits, its next look at the counter ends
  the wait if and only if every thread has counted down; once it has returned, all threads were started
  and the loop of every thread has been left.
\<close>

theorem run_returns_after_exit:
  assumes "server_reachable app bind inet_ntop s"
  shows "(ts_main s = RWaiting \<longrightarrow>
      (ts_main (run_wait s) = RReturned \<longleftrightarrow> (\<forall>pc\<in>set (ts_threads s). finished pc))) \<and>
    (ts_main s = RReturned \<longrightarrow> int (length (ts_threads s)) = ts_num_io_threads s \<and>
      (\<forall>i<length (ts_threads s). \<exists>l. ts_loops s i = Some l \<and> lp_phase l = Exit))"
proof -
  note inv = reachable_server_inv [OF assms]
  have "\<exists>l. ts_loops s i = Some l \<and> lp_phase l = Exit" if m: "ts_main s = RReturned" and i: "i < length (ts_threads s)" for i
  proof -
    have "ts_count_down s \<le> 0" using server_invD(1) [OF inv] m by (simp add: run_inv_def)
    then have f: "finished (ts_threads s ! i)" using waiting_count(1) [OF inv] m i by simp
    then have "ts_threads s ! i \<noteq> TBegin" by (auto simp: finished_def)
    from thread_loopE [OF inv i this] f show ?thesis by blast
  qed
  then show ?thesis using waiting_count [OF inv] by (auto simp: run_wait_def)
qed

lemma server_down:
  "\<exists>s l. reachable_server app s \<and> ts_main s = RReturned \<and> ts_threads s = [TCounted] \<and> ts_loops s 0 = Some l \<and>
    quota_c (lp_world l) \<and> lp_acceptor l \<noteq> None"
proof -
  from server_up [of app] obtain s l where r: "reachable_server app s" and s: "ts_threads s = [TRunning]"
    "ts_io_loops s = [Some 0]" "ts_main s = RWaiting" "ts_count_down s = 1" "ts_loops s 0 = Some l" "lp_phase l = Test"
    "quota_c (lp_world l)" "lp_acceptor l \<noteq> None" by blast
  have "\<exists>s' l'. server_run app [SStop 0, SLoop 0 LStep, SCount 0, SWait] s = Inr s' \<and> ts_main s' = RReturned \<and>
      ts_threads s' = [TCounted] \<and> ts_loops s' 0 = Some l' \<and> quota_c (lp_world l') \<and> lp_acceptor l' \<noteq> None"
    using s by (simp add: server_label_ok_c_def server_quota_c_def label_ok_c_def get_loop_def set_loop_def thread_at_def
        thread_loop_def run_step_def stop_def notify_event_def set_phase_def thread_count_def set_thread_def run_wait_def quota_c_def)
  with reachable_server_run [OF r] show ?thesis by blast
qed

theorem run_returns_after_exit_witness:
  "\<exists>(s :: tcp_server) l. ts_main s = RReturned \<and> ts_num_io_threads s = 1 \<and> ts_loops s 0 = Some l \<and> lp_phase l = Exit"
proof -
  from server_down [of echo] obtain s where r: "reachable_server echo s" and s: "ts_main s = RReturned" "ts_threads s = [TCounted]" by blast
  from run_returns_after_exit [OF r] s show ?thesis by (intro exI [of _ s]) simp
qed

section \<open>Shutdown\<close>

lemma io_loops_alive:
  assumes inv: "server_inv app s" and p: "Some j \<in> set (ts_io_loops s)"
  shows "ts_loops s j \<noteq> None"
proof -
  from p obtain i where i: "i < length (ts_io_loops s)" "ts_io_loops s ! i = Some j" by (auto simp: in_set_conv_nth)
  then have t: "i < length (ts_threads s)" using server_invD(4) [OF inv, of i] by (cases "i < length (ts_threads s)") auto
  have "ts_threads s ! i \<notin> {TBegin, TBuilt}" "j = i"
    using server_invD(2) [OF inv t] i(2) by (auto simp: thread_inv_def Let_def)
  then show ?thesis using thread_loopE [OF inv t] by blast
qed

text \<open>Stopping changes the running flag and the eventfd of the loops in the list, and nothing else.\<close>

lemma stop_loops_ok:
  assumes "\<forall>p\<in>set ps. \<exists>i. p = Some i \<and> ts_loops s i \<noteq> None"
  shows "\<exists>s'. stop_loops ps s = Inr s' \<and> (\<forall>i l. ts_loops s i = Some l \<longrightarrow>
    (\<exists>w. ts_loops s' i = Some (l\<lparr>lp_world := w\<rparr>) \<and> (Some i \<in> set ps \<or> stopped (lp_world l) \<and> 0 < w_eventfd (lp_world l) \<longrightarrow>
      stopped w \<and> 0 < w_eventfd w)))"
  using assms
proof (induction ps arbitrary: s)
  case Nil
  have "\<exists>w. l = l\<lparr>lp_world := w\<rparr> \<and> (stopped (lp_world l) \<and> 0 < w_eventfd (lp_world l) \<longrightarrow> stopped w \<and> 0 < w_eventfd w)"
    for l :: loop by (intro exI [of _ "lp_world l"]) simp
  then show ?case by auto
next
  case (Cons p ps)
  then obtain i l where p: "p = Some i" "ts_loops s i = Some l" by auto
  let ?s = "set_loop i (l\<lparr>lp_world := stop (lp_world l)\<rparr>) s"
  have "\<forall>q\<in>set ps. \<exists>j. q = Some j \<and> ts_loops ?s j \<noteq> None" using Cons.prems by (fastforce simp: set_loop_def)
  from Cons.IH [OF this] obtain s' where s': "stop_loops ps ?s = Inr s'"
    and h: "\<And>j m. ts_loops ?s j = Some m \<Longrightarrow> \<exists>w. ts_loops s' j = Some (m\<lparr>lp_world := w\<rparr>) \<and>
      (Some j \<in> set ps \<or> stopped (lp_world m) \<and> 0 < w_eventfd (lp_world m) \<longrightarrow> stopped w \<and> 0 < w_eventfd w)" by blast
  have "\<exists>w. ts_loops s' j = Some (m\<lparr>lp_world := w\<rparr>) \<and>
      (Some j \<in> set (p # ps) \<or> stopped (lp_world m) \<and> 0 < w_eventfd (lp_world m) \<longrightarrow> stopped w \<and> 0 < w_eventfd w)"
    if "ts_loops s j = Some m" for j m
    using that h [of j] p by (cases "j = i") (auto simp: set_loop_def stopped_def stop_def notify_event_def)
  then show ?case using s' p by (auto simp: get_loop_def)
qed

lemma stop_loops_null:
  assumes "\<And>i. Some i \<in> set ps \<Longrightarrow> ts_loops s i \<noteq> None" and "None \<in> set ps"
  shows "stop_loops ps s = Inl NullDeref"
  using assms
proof (induction ps arbitrary: s)
  case (Cons p ps)
  show ?case
  proof (cases p)
    case (Some i)
    then obtain l where "ts_loops s i = Some l" using Cons.prems(1) [of i] by auto
    then show ?thesis using Some Cons by (simp add: get_loop_def set_loop_def)
  qed simp
qed simp

lemma loop_run_append: "loop_run app (xs @ ys) l = bindr (loop_run app xs l) (loop_run app ys)"
proof (induction xs arbitrary: l)
  case (Cons x xs)
  then show ?case by (cases "loop_step app x l") simp_all
qed simp

text \<open>A stopped loop is left within finitely many steps, or faults.\<close>

definition left :: "loop res \<Rightarrow> bool" where
  "left r \<longleftrightarrow> (case r of Inl e \<Rightarrow> True | Inr l \<Rightarrow> lp_phase l = Exit)"

lemma stopped_left:
  assumes q: "quiet app" and st: "\<not> w_running (lp_world l)" and p: "lp_phase l \<noteq> Poll"
  shows "\<exists>n. left (loop_run app (replicate n LStep) l)"
proof (cases "lp_phase l = Exit")
  case True
  then show ?thesis by (intro exI [of _ 0]) (simp add: left_def)
next
  case False
  with turn_ends_body [OF q] p obtain n where n: "turn_over (loop_run app (replicate n LStep) l)" by (auto simp: turn_ends_def)
  have "left (loop_run app (replicate n LStep @ [LStep]) l)"
    using n stopped_run [of app "replicate n LStep" l] st
    by (cases "loop_run app (replicate n LStep) l")
      (auto simp: loop_run_append turn_over_def left_def run_step_def Let_def)
  then have "left (loop_run app (replicate (Suc n) LStep) l)" by (simp add: replicate_append_same)
  then show ?thesis by blast
qed

lemma stopped_left_poll:
  assumes q: "quiet app" and st: "\<not> w_running (lp_world l)"
  shows "\<exists>n. left (loop_run app (LPoll answer # replicate n LStep) l)"
proof (cases "loop_step app (LPoll answer) l")
  case (Inr l1)
  have "lp_phase l1 \<noteq> Poll"
    using Inr by (auto simp: pull_events_def Let_def bindr_eq_Inr_iff split: if_splits option.splits)
  from stopped_left [OF q stopped_step [OF Inr st] this] Inr show ?thesis by auto
qed (simp add: left_def)



text \<open>
  C40: \<open>shutdown\<close> does not look at the pointers in \<open>io_loops_\<close>. Between the \<open>resize\<close> in \<open>run\<close> and the last thread's
  store of its loop some of them are null, and then \<open>shutdown\<close> dereferences a null pointer.
\<close>

theorem shutdown_null_loop:
  assumes "server_reachable app bind inet_ntop s" and "i < length (ts_io_loops s)"
    and "length (ts_threads s) \<le> i \<or> ts_threads s ! i \<in> {TBegin, TBuilt}"
  shows "shutdown s = Inl NullDeref"
proof -
  note inv = reachable_server_inv [OF assms(1)]
  have "ts_io_loops s ! i = None"
    using assms(2,3) server_invD(4) [OF inv, of i] server_invD(2) [OF inv, of i]
    by (cases "i < length (ts_threads s)") (auto simp: thread_inv_def Let_def)
  then have "None \<in> set (ts_io_loops s)" using assms(2) nth_mem by metis
  then show ?thesis unfolding shutdown_def by (intro stop_loops_null) (auto dest: io_loops_alive [OF inv])
qed

theorem shutdown_null_loop_witness:
  "\<exists>s. reachable_server (\<lambda>_ _. []) s \<and> ts_io_loops s = [None, None] \<and> shutdown s = Inl NullDeref"
proof -
  have "holds (\<lambda>s. holds (\<lambda>s'. ts_threads s' = [TBegin] \<and> ts_io_loops s' = [None, None]) (server_run (\<lambda>_ _. []) [SRun, SSpawn] s))
    (TcpServer dotted_pton ''127.0.0.1:80'' 2)" by code_simp
  then obtain s0 s where s0: "TcpServer dotted_pton ''127.0.0.1:80'' 2 = Inr s0" and s: "server_run (\<lambda>_ _. []) [SRun, SSpawn] s0 = Inr s"
    "ts_threads s = [TBegin]" "ts_io_loops s = [None, None]" by (auto elim!: holdsE)
  note r = reachable_server_run [OF server_reachable.create [OF s0] s(1)]
  from shutdown_null_loop [OF r, of 1] r s(2,3) show ?thesis by auto
qed

section \<open>The destructor\<close>

lemma delete_loops_ok:
  "distinct is \<Longrightarrow> \<forall>i\<in>set is. ts_loops s i \<noteq> None \<Longrightarrow>
    delete_loops (map Some is) s = Inr (map (\<lambda>i. EventLoop_destroy (the (ts_loops s i))) is, s\<lparr>ts_loops := ts_loops s |` (- set is)\<rparr>)"
proof (induction "is" arbitrary: s)
  case Nil
  have "ts_loops s |` UNIV = ts_loops s" by (simp add: restrict_map_def)
  then show ?case by simp
next
  case (Cons i "is")
  let ?s = "s\<lparr>ts_loops := (ts_loops s)(i := None)\<rparr>"
  from Cons.prems obtain l where l: "ts_loops s i = Some l" by auto
  have r: "ts_loops ?s |` (- set is) = ts_loops s |` (- set (i # is))" by (auto simp: restrict_map_def)
  have m: "map (\<lambda>i. EventLoop_destroy (the (ts_loops ?s i))) is = map (\<lambda>i. EventLoop_destroy (the (ts_loops s i))) is"
    using Cons.prems(1) by auto
  have "delete_loops (map Some is) ?s =
      Inr (map (\<lambda>i. EventLoop_destroy (the (ts_loops ?s i))) is, ?s\<lparr>ts_loops := ts_loops ?s |` (- set is)\<rparr>)"
    by (rule Cons.IH) (use Cons.prems in auto)
  also have "\<dots> = Inr (map (\<lambda>i. EventLoop_destroy (the (ts_loops s i))) is, s\<lparr>ts_loops := ts_loops s |` (- set (i # is))\<rparr>)"
    unfolding m r by simp
  finally show ?case using l by (simp add: get_loop_def)
qed

lemma stored_loops:
  assumes inv: "server_inv app s" and m: "ts_main s \<noteq> RSpawning" and e: "list_all (\<lambda>pc. pc = TEnded) (ts_threads s)"
  shows "ts_io_loops s = map Some [0..<length (ts_threads s)]" and "dom (ts_loops s) = {0..<length (ts_threads s)}"
proof -
  have n: "length (ts_io_loops s) = length (ts_threads s)"
    using server_invD(1) [OF inv] m by (auto simp: run_inv_def split: if_splits)
  have t: "ts_io_loops s ! i = Some i \<and> ts_loops s i \<noteq> None" if "i < length (ts_threads s)" for i
    using server_invD(2) [OF inv that] e that by (auto simp: list_all_length thread_inv_def Let_def)
  show "ts_io_loops s = map Some [0..<length (ts_threads s)]" using n t by (auto intro!: nth_equalityI)
  show "dom (ts_loops s) = {0..<length (ts_threads s)}"
    using t server_invD(3) [OF inv] by (auto simp: not_le [symmetric])
qed

text \<open>
  C18: the destructor deletes each loop exactly once, and never while its thread still uses it: as long as a
  thread has not ended, its join blocks; when all have, every loop is deleted, no pointer is used after
  that, and none is left.
\<close>

theorem server_destroy_frees:
  assumes "server_reachable app bind inet_ntop s" and "ts_main s \<noteq> RSpawning"
  shows "if \<exists>pc\<in>set (ts_threads s). pc \<noteq> TEnded then TcpServer_destroy s = None
    else \<exists>s'. TcpServer_destroy s =
        Some (Inr (map (\<lambda>i. EventLoop_destroy (the (ts_loops s i))) [0..<length (ts_threads s)], s')) \<and> ts_loops s' = Map.empty"
proof (cases "list_all (\<lambda>pc. pc = TEnded) (ts_threads s)")
  case True
  note st = stored_loops [OF reachable_server_inv [OF assms(1)] assms(2) True]
  have "\<forall>i\<in>set [0..<length (ts_threads s)]. ts_loops s i \<noteq> None" using st(2) by (auto simp flip: domIff)
  from delete_loops_ok [OF distinct_upt this] have "delete_loops (ts_io_loops s) s =
      Inr (map (\<lambda>i. EventLoop_destroy (the (ts_loops s i))) [0..<length (ts_threads s)],
        s\<lparr>ts_loops := ts_loops s |` (- {0..<length (ts_threads s)})\<rparr>)" by (simp add: st(1))
  moreover have "ts_loops s |` (- {0..<length (ts_threads s)}) = Map.empty"
    unfolding st(2) [symmetric] by (auto simp: restrict_map_def dom_def)
  ultimately show ?thesis using True by (auto simp: TcpServer_destroy_def list_all_iff)
qed (auto simp: TcpServer_destroy_def list_all_iff)

lemma server_ended: "\<exists>s. reachable_server app s \<and> ts_main s = RReturned \<and> ts_threads s = [TEnded]"
proof -
  from server_down [of app] obtain s l where r: "reachable_server app s" and s: "ts_main s = RReturned" "ts_threads s = [TCounted]"
    "ts_loops s 0 = Some l" "quota_c (lp_world l)" "lp_acceptor l \<noteq> None" by blast
  have "\<exists>s'. server_run app [SEnd 0] s = Inr s' \<and> ts_main s' = RReturned \<and> ts_threads s' = [TEnded]"
    using s by (auto simp: server_label_ok_c_def server_quota_c_def get_loop_def set_loop_def thread_at_def thread_end_def
        set_thread_def acceptor_destroy_def ss_destroy_def quota_c_def Let_def)
  with reachable_server_run [OF r] show ?thesis by blast
qed

theorem server_destroy_frees_witness:
  "\<exists>(s :: tcp_server) s' w. ts_threads s = [TEnded] \<and> TcpServer_destroy s = Some (Inr ([w], s')) \<and> ts_loops s' = Map.empty"
proof -
  from server_ended [of echo] obtain s where r: "reachable_server echo s" and s: "ts_main s = RReturned" "ts_threads s = [TEnded]" by blast
  from server_destroy_frees [OF r] s obtain s' w where "TcpServer_destroy s = Some (Inr ([w], s'))" "ts_loops s' = Map.empty" by auto
  with s(2) show ?thesis by blast
qed

end
