(* ===== verification/Echo_Server.thy ===== *)
theory Echo_Server
  imports Connection_Properties Tcp_Server
begin

text \<open>
  The library in use: the echo servers of \<^verbatim>\<open>benchmark/mutiplex/echo/server.cpp\<close> and
  \<^verbatim>\<open>benchmark/mutiplex/pingpong/server.cpp\<close>. Their read callback writes back what it was given (the
  application \<open>echo\<close> of \<open>Loop_Properties\<close>); the established callback of the first only prints. Here the
  stream of a connection is followed through all components: from the bytes the reading callback
  delivers, through the posted write callbacks and the output buffer, to the bytes the kernel takes.
\<close>

section \<open>The programs\<close>

text \<open>The constructors: a \<open>TcpServer\<close> and the callbacks it is given (one thread, \<open>NUM_THREADS\<close>, in the first).\<close>

definition EchoServer :: "(string \<Rightarrow> u32 option) \<Rightarrow> string \<Rightarrow> tcp_server res" where
  "EchoServer inet_pton addr =
     bindr (TcpServer inet_pton addr 1) (\<lambda>server.
     Inr (ts_set_read_callback True (ts_set_established_callback True server)))"

definition PingpongServer :: "(string \<Rightarrow> u32 option) \<Rightarrow> string \<Rightarrow> int \<Rightarrow> tcp_server res" where
  "PingpongServer inet_pton addr threads =
     bindr (TcpServer inet_pton addr threads) (\<lambda>server. Inr (ts_set_read_callback True server))"

section \<open>What the program reads and what it still has to write\<close>

text \<open>The bytes a connection was given by the calls of the read callback, in order.\<close>

fun read_event :: "cid \<Rightarrow> uevent \<Rightarrow> cell list" where
  "read_event c (URead d bytes) = (if d = c then bytes else [])"
| "read_event c _ = []"

definition received :: "cid \<Rightarrow> uevent list \<Rightarrow> cell list" where
  "received c log = concat (map (read_event c) log)"

text \<open>The bytes that queued write callbacks will put into the buffer of a connection, in order.\<close>

fun write_task :: "cid \<Rightarrow> task \<Rightarrow> cell list" where
  "write_task c (TWriteRaw d buf) =
     (if d = c then readable (unat (word_of_int (bb_remaining buf) :: u32)) (drop (nat (bb_ptr buf)) (bb_data buf)) else [])"
| "write_task c _ = []"

definition to_write :: "cid \<Rightarrow> task list \<Rightarrow> cell list" where
  "to_write c ts = concat (map (write_task c) ts)"

lemma received_simps [simp]:
  "received c [] = []" "received c (xs @ ys) = received c xs @ received c ys" "received c (e # xs) = read_event c e @ received c xs"
  by (simp_all add: received_def)

lemma to_write_simps [simp]:
  "to_write c [] = []" "to_write c (xs @ ys) = to_write c xs @ to_write c ys" "to_write c (t # ts) = write_task c t @ to_write c ts"
  by (simp_all add: to_write_def)

section \<open>Steps that neither read nor write\<close>

text \<open>A connection goes from open to disconnecting to closed, never back.\<close>

fun closing :: "conn_state \<Rightarrow> nat" where
  "closing New = 0" | "closing Receiving = 0" | "closing Disconnecting = 1" | "closing Closed = 2"

lemma closing_le [simp]: "closing st \<le> 2"
  by (cases st) simp_all

lemma open_closing: "st \<noteq> Closed \<Longrightarrow> closing st \<le> Suc 0"
  by (cases st) simp_all

definition later :: "connection option \<Rightarrow> connection option \<Rightarrow> bool" where
  "later x y \<longleftrightarrow> (case y of None \<Rightarrow> True | Some cn' \<Rightarrow>
     (case x of None \<Rightarrow> False | Some cn \<Rightarrow> closing (cn_state cn) \<le> closing (cn_state cn')))"

definition recv_ok :: "world \<Rightarrow> bool" where
  "recv_ok w \<longleftrightarrow> (\<forall>b. w_recv w = Some b \<longrightarrow> bb_wf b)"

text \<open>A step that delivers nothing, queues nothing and reopens nothing.\<close>

definition calm :: "world \<Rightarrow> world \<Rightarrow> bool" where
  "calm w w' \<longleftrightarrow> (\<forall>c. received c (w_log w') = received c (w_log w) \<and> to_write c (w_tasks w') = to_write c (w_tasks w) \<and>
       later (w_heap w c) (w_heap w' c)) \<and>
     w_queued w' = w_queued w \<and> w_pending w' = w_pending w \<and> w_callbacks w' = w_callbacks w \<and> w_bufs w' = w_bufs w \<and>
     w_next w' = w_next w \<and> (recv_ok w \<longrightarrow> recv_ok w')"

lemma later_refl [simp]: "later x x"
  by (simp add: later_def split: option.splits)

lemma later_None [simp]: "later x None"
  by (simp add: later_def)

lemma later_Some [simp]: "later (Some cn) (Some cn') \<longleftrightarrow> closing (cn_state cn) \<le> closing (cn_state cn')"
  by (simp add: later_def)

lemma later_NoneD: "later x y \<Longrightarrow> x = None \<Longrightarrow> y = None"
  by (simp add: later_def split: option.splits)

lemma later_trans: "later x y \<Longrightarrow> later y z \<Longrightarrow> later x z"
  by (auto simp: later_def split: option.splits)

lemma calm_refl [simp]: "calm w w"
  by (simp add: calm_def)

lemma calm_trans [trans]: "calm w w' \<Longrightarrow> calm w' w'' \<Longrightarrow> calm w w''"
  unfolding calm_def by (auto intro: later_trans)

definition calmly :: "world \<Rightarrow> world res \<Rightarrow> bool" where
  "calmly w r \<longleftrightarrow> (\<forall>w'. r = Inr w' \<longrightarrow> calm w w')"

lemma calmly_simps [simp]: "calmly w (Inl e)" "calmly w (Inr w') \<longleftrightarrow> calm w w'"
  by (simp_all add: calmly_def)

lemma calmly_bindr: "calmly w r \<Longrightarrow> (\<And>w'. calmly w' (f w')) \<Longrightarrow> calmly w (bindr r f)"
  unfolding calmly_def by (auto simp: bindr_eq_Inr_iff intro: calm_trans)

lemma calmly_first: "calm w w1 \<Longrightarrow> calmly w1 r \<Longrightarrow> calmly w r"
  unfolding calmly_def by (blast intro: calm_trans)

lemma calmly_get: "(\<And>cn. w_heap w c = Some cn \<Longrightarrow> calmly w (f cn)) \<Longrightarrow> calmly w (bindr (get_conn c w) f)"
  by (auto simp: get_conn_def split: option.splits)

lemma calm_release: "calm w (release c w)" "calm w (release_opt r w)"
  by (simp add: calm_def recv_ok_def release_def destroy_def Let_def split: option.splits)
    (cases r; simp add: calm_def recv_ok_def release_def destroy_def Let_def split: option.splits)

lemma calm_fields [simp]:
  "calm w (w\<lparr>w_frame := f\<rparr>)" "calm w (w\<lparr>w_epoll := k\<rparr>)" "calm w (w\<lparr>w_eventfd := n\<rparr>)"
  "calm w (w\<lparr>w_events_size := n\<rparr>)" "calm w (w\<lparr>w_connections := m\<rparr>)" "calm w (w\<lparr>w_wire := q\<rparr>)"
  by (simp_all add: calm_def recv_ok_def recv_ok_def)

lemma calm_recv: "bb_wf b \<Longrightarrow> calm w (w\<lparr>w_recv := Some b\<rparr>)"
  by (simp add: calm_def recv_ok_def)

lemma calm_set_conn:
  "w_heap w c = Some cn \<Longrightarrow> closing (cn_state cn) \<le> closing (cn_state cn') \<Longrightarrow> calm w (set_conn c cn' w)"
  by (simp add: calm_def recv_ok_def set_conn_def)

lemma calm_stop [simp]: "calm w (stop w)"
  by (simp add: calm_def recv_ok_def stop_def notify_event_def)

lemma calm_remove: "calm w (remove_connection fd w)"
  unfolding remove_connection_def by (rule calm_trans [OF _ calm_release(2)]) simp

lemma calmly_close: "calmly w (conn_close True c w)" "calmly w (conn_force_close True c w)"
  unfolding conn_close_def conn_force_close_def
  by (auto intro!: calmly_get simp: calm_def recv_ok_def post_callback_def)

lemma calmly_on_source: "calmly w (on_source c f w)"
  unfolding calmly_def
proof (intro allI impI)
  fix w' assume "on_source c f w = Inr w'"
  then show "calm w w'" by (rule on_source_Inr) (simp add: calm_def recv_ok_def set_conn_def)
qed

lemma calmly_user_call: "app (w_log w) ev = [] \<Longrightarrow> (\<And>c. read_event c ev = []) \<Longrightarrow> calmly w (user_call app ev w)"
proof (cases "uevent_conn ev")
  case (Some c)
  assume "app (w_log w) ev = []" "\<And>c. read_event c ev = []"
  moreover have "calm w (release c (w\<lparr>w_log := w_log w @ [ev], w_frame := remove1 c (c # w_frame w)\<rparr>))"
    if "\<And>c. read_event c ev = []"
    by (rule calm_trans [OF _ calm_release(1)]) (use that in \<open>simp add: calm_def recv_ok_def\<close>)
  ultimately show ?thesis using Some by (auto simp: user_call_def intro!: calmly_get)
qed (simp add: user_call_def calm_def recv_ok_def)

lemma calmly_maybe_call: "(\<And>log. app log ev = []) \<Longrightarrow> (\<And>c. read_event c ev = []) \<Longrightarrow>
    calmly w (if b then user_call app ev w else Inr w)"
  by (simp add: calmly_user_call)


section \<open>The handlers of the library under the echo program\<close>

lemma calmly_handle_write: "calmly w (handle_write echo c answer w)"
proof -
  have "calmly w (handle_write echo c answer w)"
    if c: "w_heap w c = Some cn" and b: "cn_buffer_out cn = Some b" "\<not> cb_empty b"
      and wr: "write_to_fd b (write_answer answer b) = Inr (r, b')" for cn b r b'
  proof -
    define w1 where "w1 = set_conn c (cn\<lparr>cn_buffer_out := Some b'\<rparr>)
        (w\<lparr>w_wire := w_wire w @ [(c, take (nat (write_answer answer b)) (gather (cb_data b) (write_iov b)))]\<rparr>)"
    have "calm w w1" unfolding w1_def by (rule calm_trans [OF calm_fields(6) calm_set_conn]) (use c in auto)
    moreover have "calmly w1 (if r < 0 then
        bindr (conn_force_close True c w1) (\<lambda>w. if cn_error_callback cn then user_call echo (UError c) w else Inr w)
      else if r = 0 then conn_force_close True c w1
      else if cn_state cn = Disconnecting then bindr (on_source c disable_writing w1) (conn_close True c)
      else if cb_empty b' then on_source c disable_writing w1 else Inr w1)" (is "calmly w1 ?r")
      by (auto intro!: calmly_bindr calmly_user_call calmly_close calmly_on_source)
    ultimately have "calmly w ?r" by (rule calmly_first)
    then show ?thesis
      unfolding w1_def using c b wr by (simp add: handle_write_def get_conn_def Let_def split del: if_split)
  qed
  moreover have "calmly w (handle_write echo c answer w)"
    if "\<nexists>cn b. w_heap w c = Some cn \<and> cn_buffer_out cn = Some b \<and> \<not> cb_empty b"
    using that by (auto simp: handle_write_def get_conn_def split: option.splits)
  moreover have "\<exists>r b'. write_to_fd b (write_answer answer b) = Inr (r, b')" if "\<not> cb_empty b" for b
    using that by (cases "write_to_fd b (write_answer answer b)") (auto simp: write_to_fd_def split: if_splits)
  ultimately show ?thesis by blast
qed

lemma calmly_closed_call:
  assumes "calm w w1"
  shows "calmly w (bindr (if b then user_call echo (UClosed c) w1 else Inr w1) (\<lambda>w. Inr (remove_connection fd w)))"
  by (rule calmly_first [OF assms calmly_bindr]) (auto simp: calm_remove calmly_user_call)

lemma calmly_run_close:
  assumes "world_wf w"
  shows "calmly w (run_close echo c w)"
  unfolding run_close_def
proof (rule calmly_get)
  fix cn assume c: "w_heap w c = Some cn"
  have "calm w (set_conn c (cn\<lparr>cn_state := Closed\<rparr>) w)" using c by (intro calm_set_conn) auto
  moreover have "calm w (set_conn c (cn\<lparr>cn_state := Disconnecting\<rparr>) w)" if "has_bytes_to_write cn"
    using that world_wfD(2) [OF assms c] c
    by (intro calm_set_conn) (auto simp: conn_ok_def buffer_ok_def has_bytes_iff open_closing)
  ultimately show "calmly w (if \<not> has_bytes_to_write cn then
      bindr (if cn_closed_callback cn then user_call echo (UClosed c) (set_conn c (cn\<lparr>cn_state := Closed\<rparr>) w)
             else Inr (set_conn c (cn\<lparr>cn_state := Closed\<rparr>) w)) (\<lambda>w. Inr (remove_connection (cn_fd cn) w))
    else Inr (set_conn c (cn\<lparr>cn_state := Disconnecting\<rparr>) w))"
    using calmly_closed_call by simp
qed

lemma calmly_run_force_close: "calmly w (run_force_close echo c w)"
  unfolding run_force_close_def
proof (rule calmly_get)
  fix cn assume c: "w_heap w c = Some cn"
  have "calm w (set_conn c (cn\<lparr>cn_state := Closed, cn_buffer_out := b, cn_event_source := e\<rparr>) w)" for b e
    using c by (intro calm_set_conn) auto
  then show "calmly w (case cn_buffer_out cn of None \<Rightarrow> Inl NullDeref | Some b \<Rightarrow>
      (case cn_event_source cn of None \<Rightarrow> Inl NullDeref | Some es \<Rightarrow>
        (let w = set_conn c (cn\<lparr>cn_state := Closed, cn_buffer_out := Some (cb_clear b),
                cn_event_source := Some (set_interest_ops 0 es)\<rparr>) w
         in if map_of (w_connections w) (cn_fd cn) \<noteq> None then
              bindr (if cn_closed_callback cn then user_call echo (UClosed c) w else Inr w) (\<lambda>w.
              Inr (remove_connection (cn_fd cn) w))
            else Inr w)))"
    using calmly_closed_call by (simp add: Let_def split: option.splits)
qed

section \<open>The invariant\<close>

text \<open>
  While a connection is open, what was queued and what waits in write callbacks is what it received.
  A closing connection refuses new data but still queues what waits; a closed one drops that too.
\<close>

definition echo_ok :: "cid \<Rightarrow> world \<Rightarrow> bool" where
  "echo_ok c w \<longleftrightarrow> (let q = bytes_of c (w_queued w); p = to_write c (w_tasks w); r = received c (w_log w) in
     case w_heap w c of
       None \<Rightarrow> prefix q r
     | Some cn \<Rightarrow> (case cn_state cn of Closed \<Rightarrow> prefix q r | Disconnecting \<Rightarrow> prefix (q @ p) r | _ \<Rightarrow> q @ p = r))"

definition echo_inv :: "world \<Rightarrow> bool" where
  "echo_inv w \<longleftrightarrow> recv_ok w \<and> w_pending w = [] \<and> w_callbacks w = [] \<and> w_bufs w = Map.empty \<and> (\<forall>c. echo_ok c w) \<and>
     (\<forall>c\<ge>w_next w. w_heap w c = None \<and> received c (w_log w) = [] \<and> bytes_of c (w_queued w) = [] \<and> to_write c (w_tasks w) = [])"

lemma echo_ok_prefix: "echo_ok c w \<Longrightarrow> prefix (bytes_of c (w_queued w)) (received c (w_log w))"
  by (auto simp: echo_ok_def Let_def split: option.splits conn_state.splits dest: append_prefixD intro: prefixI [OF sym])

lemma echo_ok_later:
  assumes "echo_ok c w" and "later (w_heap w c) (w_heap w' c)"
    and "received c (w_log w') = received c (w_log w)" "to_write c (w_tasks w') = to_write c (w_tasks w)" "w_queued w' = w_queued w"
  shows "echo_ok c w'"
proof (cases "w_heap w' c")
  case None
  with echo_ok_prefix [OF assms(1)] assms show ?thesis by (simp add: echo_ok_def)
next
  case (Some cn')
  then obtain cn where cn: "w_heap w c = Some cn" "closing (cn_state cn) \<le> closing (cn_state cn')"
    using assms(2) by (auto simp: later_def split: option.splits)
  with Some assms show ?thesis
    by (cases "cn_state cn"; cases "cn_state cn'") (auto simp: echo_ok_def Let_def dest: append_prefixD intro: prefixI [OF sym])
qed

lemma calm_echo_inv: "calm w w' \<Longrightarrow> echo_inv w \<Longrightarrow> echo_inv w'"
  unfolding echo_inv_def calm_def by (auto intro: echo_ok_later later_NoneD)

lemma calmly_echo_inv: "calmly w r \<Longrightarrow> keeps echo_inv w r"
  by (auto simp: keeps_def calmly_def intro: calm_echo_inv)


section \<open>Reading\<close>

lemma echo_write:
  assumes c: "w_heap w c = Some cn" and data: "data \<noteq> []" "length data < 2 ^ 31"
  shows "\<exists>t. conn_write True c data (of_nat (length data)) w =
      Inr (if is_closed cn then (False, w) else (True, w\<lparr>w_tasks := w_tasks w @ [t]\<rparr>)) \<and>
    (\<forall>d. write_task d t = (if d = c then data else []))"
proof -
  let ?len = "of_nat (length data) :: u32"
  have n: "unat ?len = length data" using data(2) by (simp add: unat_of_nat)
  then have "0 < ?len" "?len < 0x80000000" "unat ?len \<le> length data"
    using data by (simp_all add: word_less_nat_alt)
  from flipped_copy [OF this] n obtain b0 b1 where b: "ByteBuffer (sint ?len) = Inr b0" "bb_put b0 data (sint ?len) = Inr b1"
    "bb_ptr (bb_flip b1) = 4" "bb_remaining (bb_flip b1) = uint ?len" "drop 4 (bb_data (bb_flip b1)) = data" by auto
  have "write_task d (TWriteRaw c (bb_flip b1)) = (if d = c then data else [])" for d
    using n by (simp add: b(3-5) readable_take)
  with b(1,2) c show ?thesis
    by (intro exI [of _ "TWriteRaw c (bb_flip b1)"]) (simp add: conn_write_def get_conn_def post_callback_def)
qed

lemma keeps_echo_read:
  assumes "data \<noteq> []" and "length data < 2 ^ 31"
  shows "keeps echo_inv w (user_call echo (URead c data) w)"
proof (cases "w_heap w c")
  case (Some cn)
  let ?w0 = "w\<lparr>w_frame := c # w_frame w, w_log := w_log w @ [URead c data]\<rparr>"
  have "w_heap ?w0 c = Some cn" using Some by simp
  from echo_write [OF this assms] obtain t where t: "conn_write True c data (of_nat (length data)) ?w0 =
      Inr (if is_closed cn then (False, ?w0) else (True, ?w0\<lparr>w_tasks := w_tasks ?w0 @ [t]\<rparr>))"
    "\<And>d. write_task d t = (if d = c then data else [])" by blast
  define w1 where "w1 = (if is_closed cn then ?w0 else ?w0\<lparr>w_tasks := w_tasks w @ [t]\<rparr>)"
  have f: "w_heap w1 = w_heap w" "w_queued w1 = w_queued w" "w_next w1 = w_next w" "w_bufs w1 = w_bufs w"
    "w_pending w1 = w_pending w" "w_callbacks w1 = w_callbacks w" "w_recv w1 = w_recv w"
    "received d (w_log w1) = received d (w_log w) @ (if d = c then data else [])"
    "to_write d (w_tasks w1) = to_write d (w_tasks w) @ (if d = c \<and> \<not> is_closed cn then data else [])" for d
    by (simp_all add: w1_def t(2))
  have "echo_inv w1" if i: "echo_inv w"
  proof -
    have "echo_ok d w1" for d
    proof (cases "d = c")
      case True
      have "echo_ok c w" using i by (simp add: echo_inv_def)
      then show ?thesis
        using True Some by (cases "cn_state cn") (auto simp: echo_ok_def f is_closed_def)
    next
      case False
      have "echo_ok d w" using i by (simp add: echo_inv_def)
      with False show ?thesis by (simp add: echo_ok_def f)
    qed
    moreover have "c < w_next w" using i Some by (cases "c < w_next w") (auto simp: echo_inv_def)
    ultimately show ?thesis using i by (auto simp: echo_inv_def f recv_ok_def)
  qed
  moreover have "calm w1 (release c (w1\<lparr>w_frame := remove1 c (w_frame w1)\<rparr>))"
    by (rule calm_trans [OF _ calm_release(1)]) simp
  ultimately have "echo_inv w \<Longrightarrow> echo_inv (release c (w1\<lparr>w_frame := remove1 c (w_frame w1)\<rparr>))"
    using calm_echo_inv by blast
  then show ?thesis
    by (cases "is_closed cn") (simp_all add: user_call_def get_conn_def Some t(1) w1_def keeps_def)
qed (simp add: user_call_def get_conn_def)

text \<open>The bytes in a receive buffer after a read: at least one, and fewer than \<open>2 ^ 31\<close>.\<close>

lemma echo_read_bytes:
  assumes wf: "bb_wf buffer" and cl: "bb_clear buffer = Inr b1" and ne: "take (nat (bb_remaining b1)) available \<noteq> []"
    and c: "w_heap w c = Some cn" and b: "w_recv w = Some buffer"
  shows "keeps echo_inv w (handle_read echo c (ReadBytes available) w)"
proof -
  let ?bytes = "take (nat (bb_remaining b1)) available"
  have r: "0 \<le> bb_remaining b1" "bb_remaining b1 < 2 ^ 31"
    using bb_clear_wf [OF wf cl] by (auto simp: bb_remaining_def elim!: bb_wfE)
  then have n: "int (length ?bytes) \<le> bb_remaining b1" "length (map Some ?bytes) < 2 ^ 31" by auto
  from read_buffer [OF wf cl n(1)] obtain m b2 where
    m: "memcpy (bb_data b1) (nat (bb_ptr b1)) (map Some ?bytes) 0 (length ?bytes) = Inr m"
      "bb_set_position (b1\<lparr>bb_data := m\<rparr>) (int (length ?bytes)) = Inr b2"
    and b2: "bb_wf (bb_flip b2)" "bb_content (bb_flip b2) = map Some ?bytes" by blast
  have "keeps echo_inv w (if cn_read_callback cn then user_call echo (URead c (map Some ?bytes)) (w\<lparr>w_recv := Some (bb_flip b2)\<rparr>)
      else Inr (w\<lparr>w_recv := Some (bb_flip b2)\<rparr>))"
    by (rule keeps_first [of _ _ "w\<lparr>w_recv := Some (bb_flip b2)\<rparr>"])
      (use calm_echo_inv [OF calm_recv [OF b2(1)]] keeps_echo_read [OF _ n(2)] ne in auto)
  then show ?thesis
    using ne c b cl m by (cases "cn_read_callback cn") (simp_all add: handle_read_def get_conn_def Let_def b2(2))
qed

lemma keeps_echo_handle_read:
  assumes "recv_ok w"
  shows "keeps echo_inv w (handle_read echo c answer w)"
proof -
  have "keeps echo_inv w (handle_read echo c answer w)"
    if c: "w_heap w c = Some cn" and b: "w_recv w = Some buffer" and cl: "bb_clear buffer = Inr b1" for cn buffer b1
  proof (cases "\<exists>available. answer = ReadBytes available \<and> take (nat (bb_remaining b1)) available \<noteq> []")
    case True
    then show ?thesis using echo_read_bytes [OF _ cl _ c b] assms b by (auto simp: recv_ok_def)
  next
    case False
    have "bb_wf b1" using assms b bb_clear_wf [OF _ cl] by (auto simp: recv_ok_def)
    note calm = calmly_first [OF calm_recv [OF this]]
    have "calmly w (bindr (on_source c disable_reading (w\<lparr>w_recv := Some b1\<rparr>)) (conn_close True c))"
      by (rule calm) (intro calmly_bindr calmly_on_source calmly_close)
    moreover have "calmly w (bindr (if cn_error_callback cn then user_call echo (UError c) (w\<lparr>w_recv := Some b1\<rparr>)
        else Inr (w\<lparr>w_recv := Some b1\<rparr>)) (conn_force_close True c))"
      by (rule calm) (intro calmly_bindr calmly_maybe_call calmly_close, simp_all)
    ultimately show ?thesis
      using False c b cl by (intro calmly_echo_inv) (cases answer, simp_all add: handle_read_def get_conn_def Let_def)
  qed
  then show ?thesis
    by (cases "w_heap w c"; cases "w_recv w"; cases "bb_clear (the (w_recv w))") (auto simp: handle_read_def get_conn_def)
qed

section \<open>Accepting\<close>

lemma keeps_echo_new_connection: "keeps echo_inv w (new_connection echo cbs fd local peer w)"
proof -
  let ?c = "w_next w"
  define cn where "cn = (Connection fd local peer)\<lparr>cn_established_callback := has_established cbs,
    cn_read_callback := has_read cbs, cn_closed_callback := has_closed cbs\<rparr>"
  define w0 where "w0 = w\<lparr>w_next := Suc ?c, w_heap := (w_heap w)(?c \<mapsto> cn), w_frame := ?c # w_frame w\<rparr>"
  have "echo_inv w0" if "echo_inv w"
    using that by (auto simp: echo_inv_def echo_ok_def w0_def cn_def Connection_def recv_ok_def)
  moreover have "calmly w0 (on_new_connection echo ?c w0)"
    unfolding on_new_connection_def
  proof (rule calmly_bindr)
    show "calmly w0 (conn_register_event ?c w0)"
      by (auto simp: conn_register_event_def get_conn_def w0_def cn_def Connection_def calm_def set_conn_def recv_ok_def
          Let_def split: prod.splits)
    show "calmly v (bindr (get_conn ?c v) (\<lambda>cn.
        let old = map_of (w_connections v) (cn_fd cn);
            w = release_opt old (v\<lparr>w_connections := AList.update (cn_fd cn) ?c (w_connections v)\<rparr>)
        in if cn_established_callback cn then user_call echo (UEstablished ?c) w else Inr w))" for v
      unfolding Let_def
      by (intro calmly_get calmly_first [OF calm_trans [OF calm_fields(5) calm_release(2)] calmly_maybe_call]) simp_all
  qed
  ultimately have "keeps echo_inv w (on_new_connection echo ?c w0)"
    using keeps_first calmly_echo_inv by blast
  then have "keeps echo_inv w (bindr (on_new_connection echo ?c w0) (\<lambda>w. Inr (release ?c (w\<lparr>w_frame := remove1 ?c (w_frame w)\<rparr>))))"
    by (rule keeps_bindr) (simp add: calm_echo_inv [OF calm_trans [OF calm_fields(1) calm_release(1)]])
  then show ?thesis by (simp add: new_connection_def Let_def w0_def cn_def)
qed

section \<open>Writing\<close>

lemma keeps_echo_do_write:
  assumes i: "echo_inv w" and t: "w_tasks w = TWriteRaw c buf # ts" and x: "write_remaining c buf w = Inr w1"
  shows "echo_inv (w1\<lparr>w_tasks := tl (w_tasks w1)\<rparr>)"
proof -
  define data where "data = write_task c (TWriteRaw c buf)"
  have "do_write c (drop (nat (bb_ptr buf)) (bb_data buf)) (word_of_int (bb_remaining buf)) w = Inr w1"
    using x by (simp add: write_remaining_def split: if_splits)
  then obtain cn where c: "w_heap w c = Some cn" and
    w1: "if cn_state cn = Closed then conn_force_close True c w = Inr w1
      else \<exists>b. on_source c enable_writing (set_conn c (cn\<lparr>cn_buffer_out := Some b\<rparr>) (w\<lparr>w_queued := w_queued w @ [(c, data)]\<rparr>)) = Inr w1"
    by (auto simp: do_write_def get_conn_def data_def bindr_eq_Inr_iff split: option.splits if_splits)
  have other: "write_task d (TWriteRaw c buf) = []" if "d \<noteq> c" for d using that by simp
  show ?thesis
  proof (cases "cn_state cn = Closed")
    case True
    with w1 c have w1: "w1 = w\<lparr>w_tasks := w_tasks w @ [TForceClose c]\<rparr>"
      by (simp add: conn_force_close_def get_conn_def post_callback_def)
    have "echo_ok d (w1\<lparr>w_tasks := tl (w_tasks w1)\<rparr>)" for d
      using i c True other [of d] by (cases "d = c") (auto simp: echo_inv_def echo_ok_def w1 t dest: spec [of _ d])
    then show ?thesis using i by (auto simp: echo_inv_def w1 t recv_ok_def)
  next
    case False
    with w1 obtain b where "on_source c enable_writing (set_conn c (cn\<lparr>cn_buffer_out := Some b\<rparr>) (w\<lparr>w_queued := w_queued w @ [(c, data)]\<rparr>)) = Inr w1"
      by auto
    then obtain es k where w1: "w1 = w\<lparr>w_queued := w_queued w @ [(c, data)], w_epoll := k,
        w_heap := (w_heap w)(c \<mapsto> cn\<lparr>cn_buffer_out := Some b, cn_event_source := Some es\<rparr>)\<rparr>"
      by (rule on_source_Inr) (auto simp: set_conn_def)
    have "echo_ok d (w1\<lparr>w_tasks := tl (w_tasks w1)\<rparr>)" for d
      using i c False other [of d]
      by (cases "d = c"; cases "cn_state cn") (auto simp: echo_inv_def echo_ok_def w1 t data_def dest: spec [of _ d])
    moreover have "c < w_next w" using i c by (cases "c < w_next w") (auto simp: echo_inv_def)
    ultimately show ?thesis using i by (auto simp: echo_inv_def w1 t recv_ok_def)
  qed
qed


section \<open>Steps of the loop\<close>

definition echo_loop :: "loop \<Rightarrow> bool" where
  "echo_loop l \<longleftrightarrow> echo_inv (lp_world l) \<and> lp_connectors l = Map.empty"

lemma echo_loop_phase [simp]: "echo_loop (set_phase p l) = echo_loop l"
  by (simp add: echo_loop_def set_phase_def)

lemma echo_loop_world:
  assumes "keeps echo_inv (lp_world l) (f (lp_world l))" and "on_world f l = Inr l'" and "echo_loop l"
  shows "echo_loop l'"
  using assms by (auto simp: on_world_def keeps_def bindr_eq_Inr_iff echo_loop_def)

lemma echo_loop_put_source: "echo_loop l \<Longrightarrow> echo_loop (put_source s es l)"
proof (cases s)
  case (SConn c)
  assume "echo_loop l"
  moreover have "calm (lp_world l) (lp_world (put_source s es l))"
    by (auto simp: SConn calm_def recv_ok_def later_def split: option.splits)
  ultimately show ?thesis using calm_echo_inv SConn by (simp add: echo_loop_def)
qed (auto simp: echo_loop_def)

lemma echo_loop_call_back:
  assumes "echo_loop l" and "call_back echo r cb l = Inr l'"
  shows "echo_loop l'"
proof (cases cb)
  case OnAccept
  with assms(2) obtain a a' w' where a: "lp_acceptor l = Some a" "accept_ready echo (rd_accept r) a (lp_world l) = Inr (a', w')"
    and l': "l' = l\<lparr>lp_acceptor := Some a', lp_world := w'\<rparr>" by (auto simp: bindr_eq_Inr_iff split: option.splits)
  have "echo_inv w'"
    using a(2) keeps_echo_new_connection [of "lp_world l"] assms(1)
    by (auto simp: accept_ready_def Let_def bindr_eq_Inr_iff keeps_def echo_loop_def split: option.splits prod.splits)
  with assms(1) show ?thesis by (simp add: l' echo_loop_def)
next
  case (OnConnRead c)
  have "recv_ok (lp_world l)" using assms(1) by (simp add: echo_loop_def echo_inv_def)
  from echo_loop_world [of l "handle_read echo c (rd_read r)" l'] keeps_echo_handle_read [OF this] OnConnRead assms show ?thesis by simp
next
  case (OnConnWrite c)
  then show ?thesis 
    using assms echo_loop_world [of l "handle_write echo c (rd_write r)" l'] calmly_echo_inv [OF calmly_handle_write] by simp
next
  case (OnConnError c)
  then show ?thesis 
    using assms echo_loop_world [of l "conn_force_close True c" l'] calmly_echo_inv [OF calmly_close(2)] by simp
next
  case OnNotify
  then show ?thesis using assms calm_echo_inv [OF calm_fields(3)] by (auto simp: echo_loop_def)
qed (use assms in \<open>auto simp: echo_loop_def\<close>)

lemma echo_loop_call_backs: "call_backs echo r cbs l = Inr l' \<Longrightarrow> echo_loop l \<Longrightarrow> echo_loop l'"
  by (induction cbs arbitrary: l) (auto simp: bindr_eq_Inr_iff split: if_splits dest: echo_loop_call_back)

lemma echo_loop_dispatch:
  assumes "dispatch echo r l = Inr l'" and "echo_loop l"
  shows "echo_loop l'"
proof -
  from assms(1) obtain es where es: "source_of (rd_src r) l = Inr es" by (auto simp: dispatch_def bindr_eq_Inr_iff)
  obtain cbs dis where "handle_events es = (cbs, dis)" by fastforce
  with es assms(1) obtain l1 where l1: "call_backs echo r cbs l = Inr l1" and l': "(if dis then disable_source (rd_src r) l1 else Inr l1) = Inr l'"
    by (auto simp: dispatch_def bindr_eq_Inr_iff)
  have "echo_loop l1" by (rule echo_loop_call_backs [OF l1 assms(2)])
  moreover have "echo_loop (l1\<lparr>lp_world := (lp_world l1)\<lparr>w_epoll := k\<rparr>\<rparr>)" if "echo_loop l1" for k
    using that calm_echo_inv [OF calm_fields(2)] by (simp add: echo_loop_def)
  ultimately show ?thesis
    using l' echo_loop_put_source by (cases "source_of (rd_src r) l1")
      (auto simp: disable_source_def split: if_splits prod.splits)
qed

lemma echo_loop_mark_all: "mark_all rs l = Inr l' \<Longrightarrow> echo_loop l \<Longrightarrow> echo_loop l'"
  by (induction rs arbitrary: l) (auto simp: mark_ready_def bindr_eq_Inr_iff intro: echo_loop_put_source)

lemma echo_loop_pull_events:
  assumes "pull_events answer l = Inr l'" and "echo_loop l"
  shows "echo_loop l'"
proof (cases answer)
  case (Some rs)
  with assms(1) obtain l1 where l1: "mark_all (take (w_events_size (lp_world l)) rs) l = Inr l1"
    by (auto simp: pull_events_def Let_def bindr_eq_Inr_iff)
  with assms(1) Some have l': "lp_connectors l' = lp_connectors l1" "calm (lp_world l1) (lp_world l')"
    by (auto simp: pull_events_def Let_def)
  from echo_loop_mark_all [OF l1 assms(2)] l' calm_echo_inv show ?thesis by (auto simp: echo_loop_def)
qed (use assms in \<open>auto simp: pull_events_def echo_loop_def\<close>)

lemma echo_drain_one:
  assumes wf: "world_wf w" and i: "echo_inv w" and t: "w_tasks w = t # ts" and d: "drain_one echo t w = Inr w'"
  shows "echo_inv w'"
proof -
  from d obtain w1 where x: "exec_task echo t w = Inr w1"
    and w': "w' = release_opt (task_holds t) (w1\<lparr>w_tasks := tl (w_tasks w1)\<rparr>)"
    by (auto simp: drain_one_def bindr_eq_Inr_iff)
  have "echo_inv (w1\<lparr>w_tasks := tl (w_tasks w1)\<rparr>)"
  proof (cases "\<exists>c buf. t = TWriteRaw c buf")
    case True
    then show ?thesis using keeps_echo_do_write [OF i] t x by auto
  next
    case False
    have "calmly w (exec_task echo t w)"
    proof (cases t)
      case (TWriteBuf c b)
      then show ?thesis using i by (simp add: echo_inv_def)
    qed (use False calmly_run_close [OF wf] calmly_run_force_close calmly_user_call [of echo] in auto)
    with x have w1: "calm w w1" by (simp add: calmly_def)
    have "prefix (w_tasks w) (w_tasks w1)"
      using lawful_exec_task [of w echo t] x by (simp add: lawful_but_def evolves_but_def grows_def)
    then obtain zs where "w_tasks w1 = t # zs" using t by (auto simp: prefix_def)
    moreover from False have "write_task c t = []" for c by (cases t) auto
    ultimately have "calm w1 (w1\<lparr>w_tasks := tl (w_tasks w1)\<rparr>)" by (simp add: calm_def recv_ok_def)
    with w1 i show ?thesis using calm_echo_inv by blast
  qed
  then show ?thesis unfolding w' by (rule calm_echo_inv [OF calm_release(2)])
qed

lemma echo_run_step:
  assumes l: "echo_loop l" and inv: "loop_inv l" and r: "run_step echo l = Inr l'"
  shows "echo_loop l'"
proof -
  have e: "w_pending (lp_world l) = []" "w_callbacks (lp_world l) = []"
    using l by (simp_all add: echo_loop_def echo_inv_def)
  have same: "(lp_world l)\<lparr>w_pending := []\<rparr> = lp_world l"
    "(lp_world l)\<lparr>w_callbacks := []\<rparr> = lp_world l" using e by simp_all
  show ?thesis
  proof (cases "lp_phase l")
    case (Dispatch rs)
    then show ?thesis
      using r l e same echo_loop_dispatch by (cases rs) (auto simp: run_step_def Let_def bindr_eq_Inr_iff)
  next
    case (Batch ts)
    then have "ts = []" using inv e by (simp add: loop_inv_def phase_ok_def)
    with Batch r l show ?thesis by (auto simp: run_step_def Let_def)
  next
    case Drain
    have "world_wf (lp_world l)" "echo_inv (lp_world l)" using inv l by (simp_all add: loop_inv_def base_inv_def echo_loop_def)
    from echo_drain_one [OF this] Drain r l e same show ?thesis
      by (cases "w_tasks (lp_world l)") (auto simp: run_step_def Let_def on_world_def bindr_eq_Inr_iff echo_loop_def set_phase_def)
  qed (use r l in \<open>auto simp: run_step_def Let_def\<close>)
qed


section \<open>The loops of an echo server\<close>

text \<open>
  A loop as a server thread sets it up, with a receive buffer of any size, run by the echo program. From
  other threads it is only stopped.
\<close>

inductive echo_reachable :: "loop \<Rightarrow> bool" where
  start: "0 \<le> notify_fd \<Longrightarrow> 0 \<le> sock \<Longrightarrow> notify_fd \<noteq> sock \<Longrightarrow>
    on_world (allocate_receive_buffer n) (EventLoop notify_fd) = Inr l \<Longrightarrow>
    Acceptor bind inet_ntop sock addr (lp_world l) = Inr (a, w) \<Longrightarrow>
    echo_reachable (l\<lparr>lp_acceptor := Some (new_connection_callback cbs a), lp_world := w\<rparr>)"
| step: "echo_reachable l \<Longrightarrow> (\<And>a. x = LForeign a \<Longrightarrow> a = AStop) \<Longrightarrow> label_ok x l \<Longrightarrow> loop_step echo x l = Inr l' \<Longrightarrow>
    within_quota (lp_world l') \<Longrightarrow> echo_reachable l'"

lemma echo_reachable_reachable: "echo_reachable l \<Longrightarrow> reachable echo l"
  by (induction rule: echo_reachable.induct) (blast intro: reachable_setup reachable.step)+

lemma echo_loop_start:
  assumes "on_world (allocate_receive_buffer n) (EventLoop notify_fd) = Inr l"
    and "Acceptor bind inet_ntop sock addr (lp_world l) = Inr (a, w)"
  shows "echo_loop (l\<lparr>lp_acceptor := Some (new_connection_callback cbs a), lp_world := w\<rparr>)"
proof -
  have "sint n < 2 ^ 31" using sint_less [of n] by simp
  moreover from assms(1) obtain b where b: "ByteBuffer (sint n) = Inr b"
    by (auto simp: on_world_def allocate_receive_buffer_def bindr_eq_Inr_iff)
  moreover from b have "0 < sint n" by (auto simp: ByteBuffer_def bindr_eq_Inr_iff)
  ultimately have wf: "bb_wf b" using ByteBuffer_ok [of "sint n"] by auto
  obtain es k where e: "enable_reading (EventSource notify_fd :: event_cb event_source, Map.empty) = (es, k)" by fastforce
  have l: "lp_world l = EventLoop_members\<lparr>w_epoll := k, w_recv := Some b\<rparr>" "lp_connectors l = Map.empty"
    using assms(1) b e by (auto simp: on_world_def allocate_receive_buffer_def EventLoop_def EventLoop_members_def)
  from assms(2) obtain k' where "w = (lp_world l)\<lparr>w_epoll := k'\<rparr>"
    by (auto simp: Acceptor_def Let_def bindr_eq_Inr_iff split: prod.splits)
  then show ?thesis
    using l wf by (simp add: echo_loop_def echo_inv_def echo_ok_def recv_ok_def EventLoop_members_def)
qed

lemma echo_reachable_loop: "echo_reachable l \<Longrightarrow> echo_loop l"
proof (induction rule: echo_reachable.induct)
  case (step l x l')
  show ?case
  proof (cases x)
    case (LForeign a)
    with step show ?thesis using calm_echo_inv [OF calm_stop] by (auto simp: echo_loop_def on_world_def)
  next
    case (LPoll answer)
    with step echo_loop_pull_events show ?thesis by (auto split: if_splits)
  next
    case LStep
    with step echo_run_step reachable_loop_inv [OF echo_reachable_reachable] show ?thesis by simp
  qed
qed (rule echo_loop_start)


text \<open>Runs that can be evaluated, and single steps.\<close>

fun own_label :: "label \<Rightarrow> bool" where
  "own_label (LForeign a) = (a = AStop)"
| "own_label _ = True"

lemma echo_reachable_step:
  assumes "echo_reachable l" and "own_label x" and "label_ok x l" and "loop_step echo x l = Inr l'" and "within_quota (lp_world l')"
  shows "echo_reachable l'"
  by (rule echo_reachable.step [OF assms(1) _ assms(3-5)]) (use assms(2) in simp)

lemma echo_reachable_run:
  "echo_reachable l \<Longrightarrow> list_all own_label xs \<Longrightarrow> run_ok echo xs l \<Longrightarrow> loop_run echo xs l = Inr l' \<Longrightarrow> echo_reachable l'"
proof (induction xs arbitrary: l)
  case (Cons x xs)
  from Cons.prems(4) obtain l1 where l1: "loop_step echo x l = Inr l1" "loop_run echo xs l1 = Inr l'"
    by (auto simp: bindr_eq_Inr_iff)
  have "base_inv l" using reachable_wf [OF echo_reachable_reachable [OF Cons.prems(1)]] by (simp add: base_inv_def)
  then have "label_ok x l" using Cons.prems(3) label_ok_c by simp
  moreover have "within_quota (lp_world l1)" using Cons.prems(3) l1 quota_c by simp
  ultimately have "echo_reachable l1" using echo_reachable_step [OF Cons.prems(1) _ _ l1(1)] Cons.prems(2) by simp
  then show ?case using Cons.IH Cons.prems(2,3) l1 by simp
qed simp

lemma echo_reachable_scenario:
  assumes "holds (run_ok echo xs) (serve n all_callbacks)" and "list_all own_label xs" and "scenario echo n xs = Inr l"
  shows "echo_reachable l"
proof -
  from assms(3) obtain l0 where l0: "serve n all_callbacks = Inr l0" "loop_run echo xs l0 = Inr l"
    by (auto simp: scenario_def bindr_eq_Inr_iff)
  then have "echo_reachable l0" by (auto simp: serve_def bindr_eq_Inr_iff intro: echo_reachable.start [of 3 4])
  from echo_reachable_run [OF this assms(2) _ l0(2)] assms(1) l0(1) show ?thesis by (simp add: holds_def)
qed

text \<open>
  The states of the two programs: the server runs, and nothing but \<open>shutdown\<close> calls into its loops from
  outside. The loops of its threads are loops of the kind above, until the thread has ended.
\<close>

definition own_server_label :: "server_label \<Rightarrow> bool" where
  "own_server_label x \<longleftrightarrow> (case x of SLoop i y \<Rightarrow> own_label y | _ \<Rightarrow> True)"

inductive echo_server :: "bind_call \<Rightarrow> (u32 \<Rightarrow> string) \<Rightarrow> tcp_server \<Rightarrow> bool" for bind inet_ntop where
  echo: "EchoServer inet_pton addr = Inr s \<Longrightarrow> echo_server bind inet_ntop s"
| pingpong: "PingpongServer inet_pton addr threads = Inr s \<Longrightarrow> echo_server bind inet_ntop s"
| step: "echo_server bind inet_ntop s \<Longrightarrow> own_server_label x \<Longrightarrow> server_label_ok x s \<Longrightarrow>
    server_step echo bind inet_ntop x s = Inr s' \<Longrightarrow> server_quota s' \<Longrightarrow> echo_server bind inet_ntop s'"

definition echo_loops :: "tcp_server \<Rightarrow> bool" where
  "echo_loops s \<longleftrightarrow> (\<forall>i l. ts_loops s i = Some l \<longrightarrow> thread_at i TEnded s \<or> echo_reachable l)"

lemma echo_loops_set_loop:
  assumes "echo_loops s" and "ts_loops s i = Some l" and "echo_reachable l \<Longrightarrow> echo_reachable l'"
  shows "echo_loops (set_loop i l' s)"
  using assms by (auto simp: echo_loops_def set_loop_def thread_at_def)

lemma thread_at_set:
  "thread_at j p (set_thread i pc s) \<longleftrightarrow> (if j = i then i < length (ts_threads s) \<and> p = pc else thread_at j p s)"
  by (auto simp: thread_at_def set_thread_def)

lemma thread_at_unique: "thread_at i p s \<Longrightarrow> thread_at i q s \<Longrightarrow> p = q"
  by (simp add: thread_at_def)

text \<open>A thread that has not ended moves on; its loop, if it has one, is a reachable one.\<close>

lemma echo_loops_thread:
  assumes e: "echo_loops s" and i: "thread_at i p s" "p \<noteq> TEnded" and same: "ts_threads s' = ts_threads s" "ts_loops s' = ts_loops s"
  shows "echo_loops (set_thread i pc s')"
  unfolding echo_loops_def
proof (intro allI impI)
  fix j l assume "ts_loops (set_thread i pc s') j = Some l"
  then have "ts_loops s j = Some l" by (simp add: set_thread_def same)
  then have "thread_at j TEnded s \<or> echo_reachable l" using e by (simp add: echo_loops_def)
  then show "thread_at j TEnded (set_thread i pc s') \<or> echo_reachable l"
    using thread_at_unique [OF i(1), of TEnded] i(2) by (auto simp: thread_at_set) (simp add: thread_at_def same)
qed

lemma echo_loops_stop:
  assumes "echo_loops s" and "server_quota s'" and "stop_loop p s = Inr s'"
  shows "echo_loops s'"
proof (cases p)
  case (Some i)
  with assms(3) obtain l where l: "ts_loops s i = Some l" and s': "s' = set_loop i (l\<lparr>lp_world := stop (lp_world l)\<rparr>) s"
    by (auto simp: get_loop_def bindr_eq_Inr_iff split: option.splits)
  show ?thesis
    unfolding s'
  proof (rule echo_loops_set_loop [OF assms(1) l])
    show "echo_reachable (l\<lparr>lp_world := stop (lp_world l)\<rparr>)" if "echo_reachable l"
      by (rule echo_reachable_step [OF that, of "LForeign AStop"])
        (use server_quota_loop [OF assms(2) [unfolded s']] in \<open>auto simp: label_ok_def on_world_def\<close>)
  qed
qed (use assms in simp)

lemma echo_loops_build:
  assumes e: "echo_loops s" and t: "thread_at i TBegin s" and ok: "server_label_ok (SBuild i notify_fd sock) s"
    and r: "thread_build bind inet_ntop notify_fd sock i s = Inr s'"
  shows "echo_loops s'"
proof -
  from r obtain l where l: "build_loop bind inet_ntop notify_fd sock (ts_addr s) (ts_callbacks s) = Inr l"
    and s': "s' = set_thread i TBuilt (set_loop i l s)" by (auto simp: thread_build_def bindr_eq_Inr_iff)
  have "echo_reachable l"
    using l ok by (auto simp: build_loop_def bindr_eq_Inr_iff server_label_ok_def intro: echo_reachable.start)
  then have "echo_loops (set_loop i l s)" using e by (auto simp: echo_loops_def set_loop_def thread_at_def)
  then show ?thesis unfolding s' by (rule echo_loops_thread [of _ i TBegin]) (use t in \<open>simp_all add: thread_at_def set_loop_def\<close>)
qed

lemma echo_loops_loop:
  assumes e: "echo_loops s" and y: "own_label y" "\<And>l. ts_loops s i = Some l \<Longrightarrow> label_ok y l"
    and r: "thread_loop echo y i s = Inr s'" and q: "server_quota s'"
  shows "echo_loops s'"
proof -
  from r obtain l l' where l: "ts_loops s i = Some l" "loop_step echo y l = Inr l'" and s': "s' = set_loop i l' s"
    by (auto simp: thread_loop_def get_loop_def bindr_eq_Inr_iff split: option.splits)
  show ?thesis
    unfolding s' by (rule echo_loops_set_loop [OF e l(1)])
      (rule echo_reachable_step [OF _ y(1) y(2) [OF l(1)] l(2) server_quota_loop [OF q [unfolded s']]])
qed

lemma echo_loops_main:
  assumes e: "echo_loops s" and "ts_loops s' = ts_loops s" and "prefix (ts_threads s) (ts_threads s')"
  shows "echo_loops s'"
proof -
  have "thread_at i TEnded s'" if "thread_at i TEnded s" for i
    using that assms(3) by (auto simp: thread_at_def prefix_def nth_append)
  with e show ?thesis using assms(2) by (auto simp: echo_loops_def)
qed

lemma echo_loops_step:
  assumes e: "echo_loops s" and own: "own_server_label x" and ok: "server_label_ok x s"
    and st: "server_step echo bind inet_ntop x s = Inr s'" and q: "server_quota s'"
  shows "echo_loops s'"
proof (cases x)
  case (SBuild i notify_fd sock)
  with e st echo_loops_build ok show ?thesis by (auto split: if_splits)
next
  case (SStore i)
  with e st echo_loops_thread [OF e, of i TBuilt] show ?thesis by (auto simp: thread_store_def split: if_splits)
next
  case (SLoop i y)
  have "label_ok y l" if "thread_at i TRunning s \<or> thread_at i TCounted s" "ts_loops s i = Some l" for l
    using ok that by (simp add: SLoop server_label_ok_def)
  with e st echo_loops_loop [OF e _ _ _ q, of y i] own SLoop show ?thesis
    by (auto simp: own_server_label_def split: if_splits)
next
  case (SCount i)
  with e st echo_loops_thread [OF e, of i TRunning] show ?thesis
    by (auto simp: thread_count_def bindr_eq_Inr_iff split: if_splits)
next
  case (SEnd i)
  with e st show ?thesis
    by (auto simp: thread_end_def bindr_eq_Inr_iff echo_loops_def set_thread_def set_loop_def thread_at_def nth_list_update
        split: if_splits option.splits) blast+
next
  case (SStop k)
  with e st q echo_loops_stop show ?thesis by (auto split: if_splits)
qed (use st in \<open>auto simp: run_begin_def run_spawn_def run_wait_def intro: echo_loops_main [OF e] split: if_splits\<close>)

lemma echo_server_loops: "echo_server bind inet_ntop s \<Longrightarrow> echo_loops s"
proof (induction rule: echo_server.induct)
  case (step s x s')
  then show ?case using echo_loops_step by blast
qed (auto simp: EchoServer_def PingpongServer_def TcpServer_def bindr_eq_Inr_iff ts_set_read_callback_def
    ts_set_established_callback_def echo_loops_def)




end
