(* ===== verification/Unit_Tests.thy ===== *)
theory Unit_Tests
  imports Loop_Properties
begin

text \<open>
  The unit tests of \<^verbatim>\<open>tests\<close> as functions on the model, each \<open>ASSERT_TRUE\<close> a conjunct.
\<close>

section \<open>The tests\<close>

text \<open>A local variable of the tests: an \<open>int\<close> as its bytes, and indeterminate bytes.\<close>

definition int_bytes :: "int \<Rightarrow> cell list" where
  "int_bytes n = map Some (le_bytes (word_of_int n))"

definition test_construct :: "bool res" where
  "test_construct =
     bindr (ByteBuffer 4) (\<lambda>buffer.
     bindr (bb_capacity buffer) (\<lambda>cap.
     bindr (bb_put buffer (int_bytes 7) 4) (\<lambda>full.
     bindr (bb_get (bb_flip full) (malloc 4) 4) (\<lambda>(b, _, read).
     let again = bb_rewind read in
     Inr (cap = 4 \<and> bb_has_remaining buffer \<and> bb_remaining buffer = 4 \<and>
          \<not> bb_has_remaining full \<and> bb_remaining full = 0 \<and> b = int_bytes 7 \<and> bb_position read = 4 \<and>
          bb_remaining again = 4 \<and> bb_position again = 0)))))"

definition test_reset :: "bool res" where
  "test_reset =
     bindr (ByteBuffer 10) (\<lambda>buffer.
     bindr (bb_capacity buffer) (\<lambda>cap.
     bindr (bb_put buffer (int_bytes 9) 4) (\<lambda>one.
     let one = bb_set_mark one in
     bindr (bb_put one (int_bytes 8) 4) (\<lambda>two.
     bindr (bb_reset two) (\<lambda>back.
     bindr (bb_get back (malloc 4) 4) (\<lambda>(c, _, read).
     Inr (cap = 10 \<and> bb_remaining one = 6 \<and> bb_remaining two = 2 \<and> bb_remaining back = 6 \<and> c = int_bytes 8 \<and>
          bb_remaining read = 2)))))))"

text \<open>The source bytes of the tests of the circular buffer: \<open>(i * 10 - 9) ^ (i - 1)\<close>, cut to a \<open>char\<close>.\<close>

definition buf_src :: "nat \<Rightarrow> cell list" where
  "buf_src n = map (\<lambda>i. Some ((of_nat i * 10 - 9) XOR (of_nat i - 1))) [0..<n]"

definition test_round :: "circular_buffer \<Rightarrow> (bool \<times> circular_buffer) res" where
  "test_round buffer =
     (let src = buf_src 100 in
      bindr (cb_put buffer src 40) (\<lambda>buffer.
      bindr (cb_put buffer (drop 40 src) 60) (\<lambda>buffer.
      bindr (cb_get buffer (malloc 100) 60) (\<lambda>(out, _, buffer).
      bindr (cb_get buffer (drop 40 out) 40) (\<lambda>(rest, _, buffer).
      Inr (take 60 src = take 60 out \<and> take 40 (drop 60 src) = take 40 rest, buffer))))))"

fun test_rounds :: "nat \<Rightarrow> circular_buffer \<Rightarrow> bool res" where
  "test_rounds 0 buffer = Inr True"
| "test_rounds (Suc j) buffer = bindr (test_round buffer) (\<lambda>(ok, buffer). if ok then test_rounds j buffer else Inr False)"

definition test_circularbuffer :: "bool res" where
  "test_circularbuffer =
     (let buffer = CircularBuffer 30 in if cb_capacity buffer = 32 then test_rounds 10000 buffer else Inr False)"

definition test_resize_0 :: "bool res" where
  "test_resize_0 =
     (let src = buf_src 100 in
      bindr (cb_put (CircularBuffer 2) src 100) (\<lambda>buffer.
      bindr (cb_get buffer (malloc 100) 100) (\<lambda>(dest, _, buffer).
      bindr (cb_put buffer src 100) (\<lambda>buffer.
      bindr (cb_get buffer dest 100) (\<lambda>(dest, _, buffer).
      Inr (src = dest))))))"

definition test_resize_1 :: "bool res" where
  "test_resize_1 =
     (let src = buf_src 128 in
      bindr (cb_put (CircularBuffer 128) src 128) (\<lambda>one.
      bindr (cb_get one (malloc 128) 64) (\<lambda>(dest, _, two).
      bindr (cb_get two (drop 64 dest) 64) (\<lambda>(rest, _, three).
      Inr (cb_full one \<and> \<not> cb_full two \<and> src = take 64 dest @ rest)))))"

text \<open>
  \<open>resize_2\<close> puts single bytes into a buffer of capacity 1. The loop of the test runs to 100 although its
  array has 26 elements; here it runs to the end of the array. The only assertion is \<open>ret = 26\<close>, an
  assignment, which is always true.
\<close>

fun put_bytes :: "cell list \<Rightarrow> circular_buffer \<Rightarrow> circular_buffer res" where
  "put_bytes [] buffer = Inr buffer"
| "put_bytes (c # cs) buffer = bindr (cb_put buffer [c] 1) (put_bytes cs)"

definition letters :: "cell list" where
  "letters = map (\<lambda>i. Some (97 + ((of_nat i * 8) AND of_nat i))) [0..<26]"

definition test_resize_2 :: "(cell list \<times> u32) res" where
  "test_resize_2 =
     bindr (put_bytes letters (CircularBuffer 1)) (\<lambda>buffer.
     bindr (cb_get buffer (malloc 26) 26) (\<lambda>(dst, ret, _). Inr (dst, ret)))"

definition test_addr :: "bool res" where
  "test_addr =
     bindr (InetAddress_parse dotted_pton ''127.0.0.1:443'') (\<lambda>addr1.
     Inr (ia_to_string dotted_ntop addr1 = ''127.0.0.1:443'' \<and> ip_str dotted_ntop addr1 = ''127.0.0.1'' \<and>
          host_port addr1 = 443))"

section \<open>They pass\<close>

lemma test_bytebuffer_passes: "test_construct = Inr True" "test_reset = Inr True"
  by code_simp+

lemma test_addr_passes: "test_addr = Inr True"
  by code_simp

lemma buf_src_length [simp]: "length (buf_src n) = n"
  by (simp add: buf_src_def)


text \<open>After the first round the buffer has grown to 128 bytes, and every later round fits.\<close>

definition roomy :: "circular_buffer \<Rightarrow> bool" where
  "roomy b \<longleftrightarrow> cb_wf b \<and> cb_capacity b = 128 \<and> cb_empty b"

lemma first_round: "holds (\<lambda>(ok, b). ok \<and> roomy b) (test_round (CircularBuffer 30))"
  by code_simp

lemma cb_get_capacity: "cb_get b dst n = Inr (out, m, b') \<Longrightarrow> cb_capacity b' = cb_capacity b"
  by (auto simp: cb_get_def Let_def bindr_eq_Inr_iff)

lemma get_round:
  assumes "cb_wf b" and "unat n \<le> length dst" and "unat n \<le> length (cb_contents b)"
  shows "\<exists>m b'. cb_get b dst n = Inr (take (unat n) (cb_contents b) @ drop (unat n) dst, m, b') \<and> cb_wf b' \<and>
    cb_contents b' = drop (unat n) (cb_contents b) \<and> cb_capacity b' = cb_capacity b"
proof -
  have "min (unat n) (unat (buffer_len b)) = unat n" using assms(3) by simp
  then show ?thesis using cb_get_ok [OF assms(1,2)] cb_get_capacity by fastforce
qed

lemma test_resize_0_passes: "test_resize_0 = Inr True"
proof -
  let ?src = "buf_src 100" and ?b = "CircularBuffer 2"
  have cap: "cb_capacity ?b = 2" "roundup_pow_of_two (100 + 2) = 128" by code_simp+
  have e: "cb_wf ?b" "cb_contents ?b = []" by (simp_all add: CircularBuffer_wf CircularBuffer_contents)
  then have "\<not> cb_aligned_full ?b" using cap(1) by (auto simp: cb_aligned_full_def cb_full_def CircularBuffer_def Let_def)
  then have "cb_accepts ?b (take (unat (100 :: u32)) ?src)" by (simp add: cb_accepts_def cap(1))
  from cb_put_accepted [OF e(1) this] e(2) obtain b1 where b1: "cb_put ?b ?src 100 = Inr b1" "cb_wf b1" "cb_contents b1 = ?src"
    by auto
  have "buffer_remaining ?b < 100" using cap(1) by (simp add: buffer_remaining_def CircularBuffer_def Let_def)
  then have "cb_capacity b1 = 128" using b1(1) cap
    by (auto simp: cb_put_def cb_resize_def Let_def bindr_eq_Inr_iff)
  moreover from get_round [OF b1(2), of 100 "malloc 100"] obtain m b2 where
    b2: "cb_get b1 (malloc 100) 100 = Inr (?src, m, b2)" "cb_wf b2" "cb_contents b2 = []" "cb_capacity b2 = cb_capacity b1"
    by (auto simp: b1 malloc_def)
  ultimately have l2: "length (cb_data b2) = 128" by (simp add: cb_wf_def)
  from cb_put_fits [OF b2(2), of 100 ?src] obtain b3 where b3: "cb_put b2 ?src 100 = Inr b3" "cb_wf b3" "cb_contents b3 = ?src"
    using length_cb_contents [of b2] by (auto simp: b2(3) l2)
  from get_round [OF b3(2), of 100 ?src] obtain m' b4 where "cb_get b3 ?src 100 = Inr (?src, m', b4)" by (auto simp: b3)
  with b1(1) b2(1) b3(1) show ?thesis by (simp add: test_resize_0_def Let_def)
qed

lemma test_resize_1_passes: "test_resize_1 = Inr True"
proof -
  let ?src = "buf_src 128" and ?b = "CircularBuffer 128"
  have cap: "cb_capacity ?b = 128" by code_simp
  have e: "cb_wf ?b" "cb_contents ?b = []" by (simp_all add: CircularBuffer_wf CircularBuffer_contents)
  then have "length (cb_data ?b) = 128" using cap by (simp add: cb_wf_def)
  with cb_put_fits [OF e(1), of 128 ?src] obtain b1 where b1: "cb_put ?b ?src 128 = Inr b1" "cb_wf b1" "cb_contents b1 = ?src"
    "cb_capacity b1 = 128" using length_cb_contents [of ?b] by (auto simp: e(2) cap)
  from get_round [OF b1(2), of 64 "malloc 128"] obtain m2 b2 where
    b2: "cb_get b1 (malloc 128) 64 = Inr (take 64 ?src @ drop 64 (malloc 128), m2, b2)" "cb_wf b2" "cb_contents b2 = drop 64 ?src"
      "cb_capacity b2 = 128" by (auto simp: b1 malloc_def)
  let ?dest = "take 64 ?src @ drop 64 (malloc 128)"
  from get_round [OF b2(2), of 64 "drop 64 ?dest"] obtain m3 b3 where
    b3: "cb_get b2 (drop 64 ?dest) 64 = Inr (drop 64 ?src, m3, b3)" by (auto simp: b2 malloc_def)
  have "cb_full v \<longleftrightarrow> length (cb_contents v) = 128" if "cb_wf v" "cb_capacity v = 128" for v
    using that by (simp add: cb_full_iff cb_wf_def)
  then have "cb_full b1" "\<not> cb_full b2" 
    using b1(2-4) b2(2-4) length_cb_contents [of b1] length_cb_contents [of b2] by simp_all
  then show ?thesis using b2(1) b3 by (simp add: test_resize_1_def b1(1) Let_def)
qed

lemma later_round:
  assumes "roomy b"
  shows "\<exists>b'. test_round b = Inr (True, b') \<and> roomy b'"
proof -
  let ?src = "buf_src 100"
  have b: "cb_wf b" "cb_capacity b = 128" "cb_contents b = []" "length (cb_data b) = 128"
    using assms by (auto simp: roomy_def cb_empty_iff cb_wf_def)
  have len: "unat (buffer_len v) = length (cb_contents v)" for v by simp
  from cb_put_fits [OF b(1), of 40 ?src] obtain b1 where b1: "cb_put b ?src 40 = Inr b1" "cb_wf b1"
    "cb_contents b1 = take 40 ?src" "cb_capacity b1 = 128" by (auto simp: b len)
  then have l1: "length (cb_data b1) = 128" by (simp add: cb_wf_def)
  from cb_put_fits [OF b1(2), of 60 "drop 40 ?src"] obtain b2 where b2: "cb_put b1 (drop 40 ?src) 60 = Inr b2" "cb_wf b2"
    "cb_contents b2 = ?src" "cb_capacity b2 = 128" by (auto simp: b1 l1 len)
  from get_round [OF b2(2), of 60 "malloc 100"] obtain m3 b3 where
    b3: "cb_get b2 (malloc 100) 60 = Inr (take 60 ?src @ drop 60 (malloc 100), m3, b3)" "cb_wf b3" "cb_contents b3 = drop 60 ?src"
      "cb_capacity b3 = 128" by (auto simp: b2 malloc_def)
  let ?out = "take 60 ?src @ drop 60 (malloc 100)"
  from get_round [OF b3(2), of 40 "drop 40 ?out"] obtain m4 b4 where
    b4: "cb_get b3 (drop 40 ?out) 40 = Inr (drop 60 ?src @ drop 40 (drop 40 ?out), m4, b4)" "cb_wf b4" "cb_contents b4 = []"
      "cb_capacity b4 = 128" by (auto simp: b3 malloc_def)
  have "test_round b = Inr (True, b4)"
    using b3(1) b4(1) by (simp add: test_round_def b1(1) b2(1) Let_def)
  moreover have "roomy b4" using b4 by (simp add: roomy_def cb_empty_iff)
  ultimately show ?thesis by blast
qed

lemma rounds_pass: "roomy b \<Longrightarrow> test_rounds j b = Inr True"
proof (induction j arbitrary: b)
  case (Suc j)
  from later_round [OF Suc.prems] obtain b' where "test_round b = Inr (True, b')" "roomy b'" by blast
  with Suc.IH show ?case by simp
qed simp

lemma test_circularbuffer_passes: "test_circularbuffer = Inr True"
proof -
  from first_round obtain b where b: "test_round (CircularBuffer 30) = Inr (True, b)" "roomy b"
    by (auto elim!: holdsE)
  then have "test_rounds (Suc j) (CircularBuffer 30) = Inr True" for j using rounds_pass by simp
  from this [of 9999] have "test_rounds 10000 (CircularBuffer 30) = Inr True"
    by (simp only: eval_nat_numeral BitM.simps)
  moreover have "cb_capacity (CircularBuffer 30) = 32" by code_simp
  ultimately show ?thesis by (simp add: test_circularbuffer_def Let_def)
qed

text \<open>
  What the last test would see if it compared the bytes: those that arrived when the buffer was full
  with \<open>in_\<close> at the start of the block (the second, third, fifth, ninth and seventeenth) are lost.
\<close>

lemma test_resize_2_loses:
  "test_resize_2 = Inr (map (\<lambda>i. if i \<in> set [1, 2, 4, 8, 16] then None else letters ! i) [0..<26], 26)"
  by code_simp

end
